(* ===== verification/Kernel_Prelude.thy ===== *)
theory Kernel_Prelude
  imports Main "HOL-Library.Word" "HOL-Library.Multiset"
begin

text \<open>
  Shared vocabulary of the development: the machine integer types of \<open>type.h\<close>, the
  outcome type of code that may panic, and the arithmetic of 32-bit addresses that the
  component theories use (sums and differences that do not wrap, address ranges).
\<close>

unbundle bit_operations_syntax

section \<open>Integer types of type.h\<close>

type_synonym u8 = "8 word"
type_synonym u16 = "16 word"
type_synonym u32 = "32 word"

section \<open>Outcomes\<close>

text \<open>
  \<open>Panic\<close> is a call of \<open>panic\<close> (system.h), directly or through a failed \<open>kassert\<close>: the code
  prints the message and loops for ever. \<open>BadIndex\<close> is an access outside a C array that the
  model keeps as an array (undefined behaviour of the code). \<open>BadArgs\<close> is a \<open>va_arg\<close> without a
  matching argument, and \<open>DivByZero\<close> a trapping division. \<open>OutOfFuel\<close> is the bound of the
  model on a recursion of the code.
\<close>

datatype kerror = Panic string | BadIndex | BadArgs | DivByZero | OutOfFuel

definition ebind :: "kerror + 'a \<Rightarrow> ('a \<Rightarrow> kerror + 'b) \<Rightarrow> kerror + 'b" where
  "ebind r f = (case r of Inl e \<Rightarrow> Inl e | Inr x \<Rightarrow> f x)"

definition kassert :: "string \<Rightarrow> bool \<Rightarrow> kerror + unit" where
  "kassert msg c = (if c then Inr () else Inl (Panic msg))"

lemma ebind_Inl [simp]: "ebind (Inl e) f = Inl e"
  by (simp add: ebind_def)

lemma ebind_Inr [simp]: "ebind (Inr x) f = f x"
  by (simp add: ebind_def)

lemma ebind_cong [fundef_cong]:
  "r = r' \<Longrightarrow> (\<And>x. r' = Inr x \<Longrightarrow> f x = g x) \<Longrightarrow> ebind r f = ebind r' g"
  by (auto simp: ebind_def split: sum.splits)

lemma ebind_eq_InrD: "ebind r f = Inr y \<Longrightarrow> \<exists>x. r = Inr x \<and> f x = Inr y"
  by (auto simp: ebind_def split: sum.splits)

lemma ebind_eq_InrE:
  assumes "ebind r f = Inr y"
  obtains x where "r = Inr x" "f x = Inr y"
  using ebind_eq_InrD [OF assms] by blast

lemma kassert_True [simp]: "kassert msg True = Inr ()"
  by (simp add: kassert_def)

lemma kassert_False [simp]: "kassert msg False = Inl (Panic msg)"
  by (simp add: kassert_def)

lemma kassert_holds: "c \<Longrightarrow> kassert msg c = Inr ()"
  by (simp add: kassert_def)

lemma kassert_eq_Inr [simp]: "kassert msg c = Inr u \<longleftrightarrow> c"
  by (simp add: kassert_def)

section \<open>Addresses\<close>

lemma unat_add_nowrap:
  fixes a b :: "'a::len word"
  shows "unat a + unat b < 2 ^ LENGTH('a) \<Longrightarrow> unat (a + b) = unat a + unat b"
  by (simp add: unat_word_ariths)

lemma unat_mult_nowrap:
  fixes a b :: "'a::len word"
  shows "unat a * unat b < 2 ^ LENGTH('a) \<Longrightarrow> unat (a * b) = unat a * unat b"
  by (simp add: unat_word_ariths)

lemma unat_sub_nowrap:
  fixes a b :: "'a::len word"
  shows "unat b \<le> unat a \<Longrightarrow> unat (a - b) = unat a - unat b"
  by (simp add: unat_sub word_le_nat_alt)

lemma unat_sub_wrap:
  fixes a b :: u32
  shows "unat a < unat b \<Longrightarrow> unat (a - b) = 2 ^ 32 + unat a - unat b"
  by (simp add: unat_sub_if_size word_size)

lemma unat_lt32 [simp]: "unat (a :: u32) < 4294967296"
  using unsigned_less [of a] by simp

lemma unat_lt16 [simp]: "unat (a :: u16) < 65536"
  using unsigned_less [of a] by simp

lemma unat_lt8 [simp]: "unat (a :: u8) < 256"
  using unsigned_less [of a] by simp

lemma unat_of_nat32: "n < 4294967296 \<Longrightarrow> unat (of_nat n :: u32) = n"
  by (simp add: unat_of_nat)

lemma unat_Suc32:
  fixes i n :: u32
  assumes "i < n"
  shows "unat (i + 1) = Suc (unat i)"
proof -
  have "unat i < unat n" using assms by (simp add: word_less_nat_alt)
  then have "unat i + 1 < 4294967296" using unat_lt32 [of n] by linarith
  then show ?thesis by (subst unat_add_nowrap) simp_all
qed

lemma unat_ucast_mod:
  fixes w :: "'a::len word"
  shows "unat (ucast w :: 'b::len word) = unat w mod 2 ^ LENGTH('b)"
  by (simp add: unsigned_ucast_eq take_bit_eq_mod)

lemma unat_drop_bit:
  fixes w :: "'a::len word"
  shows "unat (drop_bit n w) = unat w div 2 ^ n"
proof -
  have "unat (drop_bit n w) = drop_bit n (unat w)"
    by (rule bit_eqI) (auto simp: bit_simps possible_bit_less_imp dest: bit_imp_le_length)
  then show ?thesis by (simp only: drop_bit_eq_div)
qed

lemma bit_31_nat:
  assumes "n < 4294967296"
  shows "bit (int n) 31 \<longleftrightarrow> 2147483648 \<le> n"
proof -
  have "n div 2147483648 < 2" using assms by (simp add: div_less_iff_less_mult)
  then have "odd (n div 2147483648) \<longleftrightarrow> n div 2147483648 = 1" by (auto simp: less_2_cases_iff)
  also have "\<dots> \<longleftrightarrow> 2147483648 \<le> n"
    using assms by (auto intro!: div_nat_eqI simp: less_imp_not_less)
  finally have "odd (n div 2147483648) \<longleftrightarrow> 2147483648 \<le> n" .
  moreover have "bit (int n) 31 \<longleftrightarrow> bit n 31" by (simp add: bit_of_nat_iff)
  ultimately show ?thesis by (simp add: bit_iff_odd)
qed

lemma sint32_unat:
  fixes w :: u32
  shows "sint w = (if unat w < 2147483648 then int (unat w) else int (unat w) - 4294967296)"
proof -
  define n where "n = unat w"
  have n: "n < 4294967296" "uint w = int n" using unat_lt32 [of w] by (simp_all add: n_def)
  have "sint w = signed_take_bit 31 (int n)" using n(2) by (simp add: sint_uint)
  also have "\<dots> = take_bit 32 (int n) - 4294967296 * of_bool (bit (int n) 31)"
    by (simp add: signed_take_bit_eq_take_bit_minus)
  also have "take_bit 32 (int n) = int n" using n(1) by (simp add: take_bit_int_eq_self)
  finally show ?thesis using bit_31_nat [OF n(1)] by (auto simp flip: n_def)
qed

lemma sint32_nonneg:
  fixes w :: u32
  assumes "\<not> sint w < 0"
  shows "int (unat w) = sint w"
proof (cases "unat w < 2147483648")
  case True
  then show ?thesis by (simp add: sint32_unat)
next
  case False
  have "int (unat w) < 4294967296" using unat_lt32 [of w] by linarith
  moreover have "sint w = int (unat w) - 4294967296" using False by (simp add: sint32_unat)
  ultimately show ?thesis using assms by linarith
qed

lemma unat_uminus32:
  fixes w :: u32
  assumes "sint w < 0"
  shows "int (unat (- w)) = - sint w"
proof -
  have w: "2147483648 \<le> unat w" "sint w = int (unat w) - 4294967296"
    using assms by (auto simp: sint32_unat split: if_splits)
  have "unat (- w) = unat (0 - w)" by simp
  also have "\<dots> = 2 ^ 32 + unat (0 :: u32) - unat w" using w by (intro unat_sub_wrap) simp
  finally show ?thesis using w unat_lt32 [of w] by (simp add: of_nat_diff less_imp_le)
qed

lemma unat_and_mask:
  fixes w :: "'a::len word"
  shows "unat (w AND mask n) = unat w mod 2 ^ n"
proof -
  have "unat (take_bit n w) = take_bit n (unat w)" by (rule unsigned_take_bit_eq)
  then show ?thesis by (simp only: take_bit_eq_mask [symmetric]) (simp add: take_bit_eq_mod)
qed

lemma unat_and_not_mask:
  fixes w :: "'a::len word"
  shows "unat (w AND NOT (mask n)) = unat w - unat w mod 2 ^ n"
proof -
  have "(w AND NOT (mask n)) + (w AND mask n) = (w AND NOT (mask n)) OR (w AND mask n)"
    by (rule disjunctive_add_eq_or) (simp add: bit_eq_iff bit_simps)
  also have "\<dots> = w" by (auto simp: bit_eq_iff bit_simps)
  finally have "w AND NOT (mask n) = w - (w AND mask n)" by (metis add_diff_cancel_right')
  then show ?thesis by (simp add: unat_sub_nowrap unat_and_mask)
qed

definition addr_range :: "u32 \<Rightarrow> nat \<Rightarrow> u32 set" where
  "addr_range a n = {x. unat (x - a) < n}"

lemma addr_range_code [code_unfold, simp]: "x \<in> addr_range a n \<longleftrightarrow> unat (x - a) < n"
  by (simp add: addr_range_def)

lemma addr_range_nowrap:
  assumes "unat a + n \<le> 2 ^ 32"
  shows "x \<in> addr_range a n \<longleftrightarrow> unat a \<le> unat x \<and> unat x < unat a + n"
proof (cases "unat a \<le> unat x")
  case True
  then show ?thesis by (auto simp: unat_sub_nowrap)
next
  case False
  then have "unat (x - a) = 2 ^ 32 + unat x - unat a"
    by (simp add: unat_sub_wrap)
  with False assms show ?thesis by auto
qed

lemma addr_range_mono: "n \<le> n' \<Longrightarrow> addr_range a n \<subseteq> addr_range a n'"
  by auto

lemma addr_range_start: "0 < n \<Longrightarrow> a \<in> addr_range a n"
  by simp

lemma addr_range_disjoint:
  assumes "unat a + n \<le> unat b" and "unat b + k \<le> 2 ^ 32"
  shows "addr_range a n \<inter> addr_range b k = {}"
proof -
  have a: "x \<in> addr_range a n \<longleftrightarrow> unat a \<le> unat x \<and> unat x < unat a + n" for x
    by (rule addr_range_nowrap) (use assms in linarith)
  have b: "x \<in> addr_range b k \<longleftrightarrow> unat b \<le> unat x \<and> unat x < unat b + k" for x
    by (rule addr_range_nowrap) (use assms in linarith)
  show ?thesis using a b assms(1) by (meson disjoint_iff dual_order.strict_trans2 not_less)
qed

section \<open>Lists\<close>

lemma take_nth_drop_update:
  "i < length xs \<Longrightarrow> xs[i := v] = take i xs @ v # drop (Suc i) xs"
  by (rule upd_conv_take_nth_drop)

lemma takeWhile_least:
  assumes "k \<le> length xs" and "\<forall>j<k. P (xs ! j)" and "k = length xs \<or> \<not> P (xs ! k)"
  shows "takeWhile P xs = take k xs" and "dropWhile P xs = drop k xs"
proof -
  show "takeWhile P xs = take k xs"
    using assms by (intro takeWhile_eq_take_P_nth) (auto simp: less_le)
  then have "length (takeWhile P xs) = k" using assms(1) by simp
  then show "dropWhile P xs = drop k xs" by (simp add: dropWhile_eq_drop)
qed

text \<open>A field lies inside its structure.\<close>

lemma addr_sub:
  assumes "unat d + k \<le> n" "n \<le> 2 ^ 32"
  shows "addr_range (a + d) k \<subseteq> addr_range a n"
proof
  fix x assume "x \<in> addr_range (a + d) k"
  then have y: "unat (x - (a + d)) < k" by simp
  have eq: "x - a = (x - (a + d)) + d" by simp
  have "unat (x - a) = unat (x - (a + d)) + unat d"
    unfolding eq using y assms by (intro unat_add_nowrap) simp
  then show "x \<in> addr_range a n" using y assms(1) by simp
qed

end
