(* ===== verification/Memory.thy ===== *)
theory Memory
  imports Kernel_Prelude
begin

text \<open>
  The memory the kernel addresses, as bytes indexed by 32-bit addresses, with the
  little-endian 16-bit and 32-bit accesses of the target (i686), and the memory and port
  primitives of \<open>system.c\<close>. Every structure the code reaches through a pointer (block
  headers and footers, the index array, page tables, the frame bitset, thread and queue
  nodes, video memory) lives here, so overlapping accesses interfere in the model as they do
  in the code.
\<close>

type_synonym mem = "u32 \<Rightarrow> u8"

definition read16 :: "mem \<Rightarrow> u32 \<Rightarrow> u16" where
  "read16 m a = ucast (m a) OR push_bit 8 (ucast (m (a + 1)))"

definition write16 :: "u32 \<Rightarrow> u16 \<Rightarrow> mem \<Rightarrow> mem" where
  "write16 a v m = m(a := ucast v, a + 1 := ucast (drop_bit 8 v))"

definition read32 :: "mem \<Rightarrow> u32 \<Rightarrow> u32" where
  "read32 m a = ucast (m a) OR push_bit 8 (ucast (m (a + 1)))
     OR push_bit 16 (ucast (m (a + 2))) OR push_bit 24 (ucast (m (a + 3)))"

definition write32 :: "u32 \<Rightarrow> u32 \<Rightarrow> mem \<Rightarrow> mem" where
  "write32 a v m = m(a := ucast v, a + 1 := ucast (drop_bit 8 v),
     a + 2 := ucast (drop_bit 16 v), a + 3 := ucast (drop_bit 24 v))"

section \<open>Frame laws\<close>

lemma range2: "x \<in> addr_range a 2 \<longleftrightarrow> x = a \<or> x = a + 1"
proof -
  have "unat (x - a) < 2 \<longleftrightarrow> x - a = 0 \<or> x - a = 1"
    by (auto simp: word_unat_eq_iff)
  then show ?thesis by (auto simp: algebra_simps)
qed

lemma range4: "x \<in> addr_range a 4 \<longleftrightarrow> x = a \<or> x = a + 1 \<or> x = a + 2 \<or> x = a + 3"
proof -
  have "unat (x - a) < 4 \<longleftrightarrow> x - a = 0 \<or> x - a = 1 \<or> x - a = 2 \<or> x - a = 3"
    by (auto simp: word_unat_eq_iff)
  then show ?thesis by (auto simp: algebra_simps)
qed

lemma read32_cong: "(\<And>x. x \<in> addr_range a 4 \<Longrightarrow> m x = m' x) \<Longrightarrow> read32 m a = read32 m' a"
  unfolding range4 by (simp add: read32_def)

lemma read16_cong: "(\<And>x. x \<in> addr_range a 2 \<Longrightarrow> m x = m' x) \<Longrightarrow> read16 m a = read16 m' a"
  unfolding range2 by (simp add: read16_def)

lemma write32_outside: "x \<notin> addr_range a 4 \<Longrightarrow> write32 a v m x = m x"
  unfolding range4 by (simp add: write32_def)

lemma write16_outside: "x \<notin> addr_range a 2 \<Longrightarrow> write16 a v m x = m x"
  unfolding range2 by (simp add: write16_def)

lemma read32_write32 [simp]: "read32 (write32 a v m) a = v"
proof (rule bit_eqI)
  fix n :: nat
  assume "possible_bit TYPE(32 word) n"
  then have n: "n < 32" by simp
  consider "n < 8" | "8 \<le> n" "n < 16" | "16 \<le> n" "n < 24" | "24 \<le> n" by linarith
  then show "bit (read32 (write32 a v m) a) n \<longleftrightarrow> bit v n"
    by cases (use n in \<open>auto simp: read32_def write32_def bit_simps\<close>)
qed

lemma read16_write16 [simp]: "read16 (write16 a v m) a = v"
  by (rule bit_eqI) (auto simp: read16_def write16_def bit_simps)

lemma read32_write32_other:
  "addr_range a 4 \<inter> addr_range b 4 = {} \<Longrightarrow> read32 (write32 b v m) a = read32 m a"
  by (rule read32_cong, rule write32_outside) blast

lemma read16_write16_other:
  "addr_range a 2 \<inter> addr_range b 2 = {} \<Longrightarrow> read16 (write16 b v m) a = read16 m a"
  by (rule read16_cong, rule write16_outside) blast

text \<open>Two words at natural-number offsets that do not wrap and do not overlap.\<close>

lemma read32_write32_apart:
  assumes "unat a + 4 \<le> unat b \<and> unat b + 4 \<le> 2 ^ 32 \<or> unat b + 4 \<le> unat a \<and> unat a + 4 \<le> 2 ^ 32"
  shows "read32 (write32 b v m) a = read32 m a"
  using assms addr_range_disjoint [of a 4 b 4] addr_range_disjoint [of b 4 a 4]
  by (intro read32_write32_other) blast

text \<open>Two words at offsets from the same address.\<close>

lemma fields_apart:
  fixes a d e :: u32
  assumes "4 \<le> unat (d - e)" "unat (d - e) \<le> 2 ^ 32 - 4"
  shows "addr_range (a + d) 4 \<inter> addr_range (a + e) 4 = {}"
proof -
  have "\<not> unat (x - (a + e)) < 4" if "unat (x - (a + d)) < 4" for x
  proof -
    have eq: "x - (a + e) = (x - (a + d)) + (d - e)" by simp
    have "unat (x - (a + e)) = unat (x - (a + d)) + unat (d - e)"
      unfolding eq using that assms by (intro unat_add_nowrap) simp
    then show ?thesis using assms(1) by simp
  qed
  then show ?thesis by auto
qed

lemma read32_field:
  fixes a d e :: u32
  assumes "4 \<le> unat (d - e)" "unat (d - e) \<le> 2 ^ 32 - 4"
  shows "read32 (write32 (a + e) v m) (a + d) = read32 m (a + d)"
  by (rule read32_write32_other [OF fields_apart [OF assms]])

text \<open>An array of 32-bit words at address \<open>b\<close>: the slots do not wrap and do not overlap.\<close>

lemma slot32_unat:
  fixes b i n :: u32
  assumes "unat b + 4 * unat n \<le> 2 ^ 32" and "i < n"
  shows "unat (b + 4 * i) = unat b + 4 * unat i"
proof -
  have i: "unat i < unat n" using assms(2) by (simp add: word_less_nat_alt)
  have bd: "unat b + 4 * unat i < 2 ^ 32" using assms(1) i by linarith
  then have "unat (4 * i) = 4 * unat i" by (subst unat_mult_nowrap) auto
  then show ?thesis using bd by (subst unat_add_nowrap) auto
qed

lemma slot32_end:
  fixes b i n :: u32
  assumes "unat b + 4 * unat n \<le> 2 ^ 32" and "i < n"
  shows "unat (b + 4 * i) + 4 \<le> unat b + 4 * unat n" and "unat (b + 4 * i) + 4 \<le> 2 ^ 32"
  using slot32_unat [OF assms] assms by (auto simp: word_less_nat_alt)

lemma slot32_range:
  fixes b i n :: u32
  assumes "unat b + 4 * unat n \<le> 2 ^ 32" and "i < n"
  shows "addr_range (b + 4 * i) 4 \<subseteq> addr_range b (4 * unat n)"
proof
  fix x assume x: "x \<in> addr_range (b + 4 * i) 4"
  from addr_range_nowrap [OF slot32_end(2) [OF assms], of x] x
  have "unat (b + 4 * i) \<le> unat x" "unat x < unat (b + 4 * i) + 4" by auto
  then show "x \<in> addr_range b (4 * unat n)"
    unfolding addr_range_nowrap [OF assms(1)]
    using slot32_end(1) [OF assms] slot32_unat [OF assms] by auto
qed

lemma read32_write32_slot:
  fixes b i j n :: u32
  assumes "unat b + 4 * unat n \<le> 2 ^ 32" "i < n" "j < n"
  shows "read32 (write32 (b + 4 * i) v m) (b + 4 * j) = (if j = i then v else read32 m (b + 4 * j))"
proof (cases "j = i")
  case False
  then have "unat j < unat i \<or> unat i < unat j" by (metis linorder_neqE_nat word_unat_eq_iff)
  then have "unat (b + 4 * j) + 4 \<le> unat (b + 4 * i) \<or> unat (b + 4 * i) + 4 \<le> unat (b + 4 * j)"
    using slot32_unat assms by auto
  then show ?thesis
    using False slot32_end(2) [OF assms(1,2)] slot32_end(2) [OF assms(1,3)]
    by (simp add: read32_write32_apart)
qed simp

section \<open>system.c: memset, bzero\<close>

text \<open>The loop \<open>while (len-- > 0) *bb++ = (char)c\<close>, by its remaining count.\<close>

fun memset_loop :: "nat \<Rightarrow> u32 \<Rightarrow> u8 \<Rightarrow> mem \<Rightarrow> mem" where
  "memset_loop 0 bb c m = m"
| "memset_loop (Suc len) bb c m = memset_loop len (bb + 1) c (m(bb := c))"

definition memset :: "u32 \<Rightarrow> u32 \<Rightarrow> u32 \<Rightarrow> mem \<Rightarrow> mem" where
  "memset b c len m = memset_loop (unat len) b (ucast c) m"

definition bzero :: "u32 \<Rightarrow> u32 \<Rightarrow> mem \<Rightarrow> mem" where
  "bzero b len m = memset b 0 len m"

lemma memset_loop_apply:
  "n \<le> 2 ^ 32 \<Longrightarrow> memset_loop n bb c m x = (if x \<in> addr_range bb n then c else m x)"
proof (induction n arbitrary: bb m)
  case 0
  then show ?case by simp
next
  case (Suc n)
  have "x \<in> addr_range bb (Suc n) \<longleftrightarrow> x = bb \<or> x \<in> addr_range (bb + 1) n"
  proof (cases "x = bb")
    case True
    then show ?thesis by simp
  next
    case False
    then have "unat (x - bb) \<noteq> 0" by (simp add: unat_eq_0)
    then have "unat (x - bb - 1) = unat (x - bb) - 1"
      by (subst unat_sub_nowrap) auto
    then show ?thesis using False \<open>unat (x - bb) \<noteq> 0\<close>
      by (auto simp: diff_diff_eq)
  qed
  moreover have "bb \<notin> addr_range (bb + 1) n"
    using Suc.prems by (simp add: unsigned_minus_1_eq_mask mask_eq_exp_minus_1)
  ultimately show ?case using Suc by auto
qed

lemma memset_apply: "memset b c len m x = (if x \<in> addr_range b (unat len) then ucast c else m x)"
  unfolding memset_def
  by (rule memset_loop_apply) (simp add: less_imp_le)

lemma bzero_apply: "bzero b len m x = (if x \<in> addr_range b (unat len) then 0 else m x)"
  by (simp add: bzero_def memset_apply)

lemma read32_zero: "(\<And>x. x \<in> addr_range a 4 \<Longrightarrow> m x = 0) \<Longrightarrow> read32 m a = 0"
  unfolding range4 by (simp add: read32_def)

section \<open>The machine\<close>

text \<open>
  \<open>outp\<close> is the trace of the bytes sent with \<open>outb\<close>, latest last; \<open>in_ports\<close> and \<open>in_words\<close> are what the
  devices answer to \<open>inb\<close> and \<open>inw\<close> (hardware, inputs of the model).
\<close>

record machine =
  mem :: mem
  outp :: "(u16 \<times> u8) list"
  in_ports :: "u16 \<Rightarrow> u8"
  in_words :: "u16 \<Rightarrow> u16"

definition outb :: "u16 \<Rightarrow> u8 \<Rightarrow> 'a machine_scheme \<Rightarrow> 'a machine_scheme" where
  "outb port value s = s\<lparr>outp := outp s @ [(port, value)]\<rparr>"

definition inb :: "u16 \<Rightarrow> 'a machine_scheme \<Rightarrow> u8" where
  "inb port s = in_ports s port"

definition inw :: "u16 \<Rightarrow> 'a machine_scheme \<Rightarrow> u16" where
  "inw port s = in_words s port"

lemma outb_simps [simp]:
  "mem (outb p v s) = mem s" "outp (outb p v s) = outp s @ [(p, v)]"
  "in_ports (outb p v s) = in_ports s" "in_words (outb p v s) = in_words s"
  by (simp_all add: outb_def)

end
