(* ===== verification/Sorted_Array.thy ===== *)
theory Sorted_Array
  imports Memory
begin

text \<open>
  \<open>sorted_array.c\<close>: an array of pointers in memory kept in the order of a comparison function.
  The record is \<open>struct sorted_array\<close>; the elements are read and written through
  \<open>sa_array\<close>. The comparison may look at memory (the heap compares the sizes stored in two
  headers), so it takes the memory as an argument. The abstraction \<open>sa_elems\<close> is the list of
  stored pointers; the operations are proved to insert into, index and delete from that list,
  and to write nothing outside the array.
\<close>

type_synonym cmp_func_t = "mem \<Rightarrow> u32 \<Rightarrow> u32 \<Rightarrow> int"

record sorted_array =
  sa_array :: u32
  sa_size :: u32
  sa_maxsize :: u32
  sa_cmp :: "cmp_func_t option"

definition default_cmp_func :: cmp_func_t where
  "default_cmp_func m a b = sint (a - b)"

definition sa_get :: "sorted_array \<Rightarrow> mem \<Rightarrow> u32 \<Rightarrow> u32" where
  "sa_get a m i = read32 m (sa_array a + 4 * i)"

definition sa_put :: "sorted_array \<Rightarrow> u32 \<Rightarrow> u32 \<Rightarrow> mem \<Rightarrow> mem" where
  "sa_put a i v m = write32 (sa_array a + 4 * i) v m"

definition place_sorted_array :: "u32 \<Rightarrow> u32 \<Rightarrow> cmp_func_t option \<Rightarrow> mem \<Rightarrow> sorted_array \<times> mem" where
  "place_sorted_array addr maxsize cmp m =
     (\<lparr>sa_array = addr, sa_size = 0, sa_maxsize = maxsize, sa_cmp = cmp\<rparr>,
      bzero addr (maxsize * 4) m)"

function insert_pos :: "sorted_array \<Rightarrow> cmp_func_t \<Rightarrow> u32 \<Rightarrow> mem \<Rightarrow> u32 \<Rightarrow> u32" where
  "insert_pos a cmp el m iterator =
     (if iterator < sa_size a \<and> cmp m (sa_get a m iterator) el < 0
      then insert_pos a cmp el m (iterator + 1) else iterator)"
  by pat_completeness auto
termination
  by (relation "measure (\<lambda>(a, cmp, el, m, iterator). unat (sa_size a) - unat iterator)")
    (auto simp: unat_Suc32 word_less_nat_alt)

function insert_shift :: "sorted_array \<Rightarrow> u32 \<Rightarrow> u32 \<Rightarrow> mem \<Rightarrow> mem" where
  "insert_shift a iterator tmp m =
     (if iterator < sa_size a
      then let iterator' = iterator + 1; tmp2 = sa_get a m iterator'
           in insert_shift a iterator' tmp2 (sa_put a iterator' tmp m)
      else m)"
  by pat_completeness auto
termination
  by (relation "measure (\<lambda>(a, iterator, tmp, m). unat (sa_size a) - unat iterator)")
    (auto simp: unat_Suc32 word_less_nat_alt)

definition insert_sorted_array :: "sorted_array \<Rightarrow> u32 \<Rightarrow> mem \<Rightarrow> kerror + sorted_array \<times> mem" where
  "insert_sorted_array a el m =
     (case sa_cmp a of
        None \<Rightarrow> Inl (Panic ''has a cmp function'')
      | Some cmp \<Rightarrow>
          ebind (kassert ''has enough room'' (sa_size a < sa_maxsize a)) (\<lambda>_.
            let iterator = insert_pos a cmp el m 0 in
            if iterator = sa_size a
            then Inr (a\<lparr>sa_size := sa_size a + 1\<rparr>, sa_put a (sa_size a) el m)
            else let tmp = sa_get a m iterator
                 in Inr (a\<lparr>sa_size := sa_size a + 1\<rparr>,
                         insert_shift a iterator tmp (sa_put a iterator el m))))"

definition lookup_sorted_array :: "sorted_array \<Rightarrow> u32 \<Rightarrow> mem \<Rightarrow> kerror + u32" where
  "lookup_sorted_array a i m =
     ebind (kassert ''index in range'' (i < sa_size a)) (\<lambda>_. Inr (sa_get a m i))"

function remove_shift :: "sorted_array \<Rightarrow> u32 \<Rightarrow> mem \<Rightarrow> mem" where
  "remove_shift a i m =
     (if i < sa_size a then remove_shift a (i + 1) (sa_put a i (sa_get a m (i + 1)) m) else m)"
  by pat_completeness auto
termination
  by (relation "measure (\<lambda>(a, i, m). unat (sa_size a) - unat i)")
    (auto simp: unat_Suc32 word_less_nat_alt)

definition remove_sorted_array :: "sorted_array \<Rightarrow> u32 \<Rightarrow> mem \<Rightarrow> kerror + sorted_array \<times> mem" where
  "remove_sorted_array a i m =
     ebind (kassert ''index in range'' (i < sa_size a)) (\<lambda>_.
       Inr (a\<lparr>sa_size := sa_size a - 1\<rparr>, remove_shift a i m))"

declare insert_pos.simps [simp del] insert_shift.simps [simp del] remove_shift.simps [simp del]

section \<open>The array in memory\<close>

definition sa_wf :: "sorted_array \<Rightarrow> bool" where
  "sa_wf a \<longleftrightarrow> unat (sa_array a) + 4 * unat (sa_maxsize a) \<le> 2 ^ 32 \<and> sa_size a \<le> sa_maxsize a"

definition sa_region :: "sorted_array \<Rightarrow> u32 set" where
  "sa_region a = addr_range (sa_array a) (4 * unat (sa_maxsize a))"

definition sa_elems :: "sorted_array \<Rightarrow> mem \<Rightarrow> u32 list" where
  "sa_elems a m = map (\<lambda>k. sa_get a m (of_nat k)) [0..<unat (sa_size a)]"

lemma length_sa_elems [simp]: "length (sa_elems a m) = unat (sa_size a)"
  by (simp add: sa_elems_def)

lemma sa_elems_nth: "k < unat (sa_size a) \<Longrightarrow> sa_elems a m ! k = sa_get a m (of_nat k)"
  by (simp add: sa_elems_def)

lemma slot_region:
  assumes "sa_wf a" and "i < sa_maxsize a"
  shows "addr_range (sa_array a + 4 * i) 4 \<subseteq> sa_region a"
  using assms slot32_range unfolding sa_wf_def sa_region_def by blast

lemma sa_put_frame:
  "sa_wf a \<Longrightarrow> i < sa_maxsize a \<Longrightarrow> x \<notin> sa_region a \<Longrightarrow> sa_put a i v m x = m x"
  unfolding sa_put_def by (rule write32_outside) (use slot_region in blast)

lemma sa_get_put_same [simp]: "sa_get a (sa_put a i v m) i = v"
  by (simp add: sa_get_def sa_put_def)

lemma sa_get_put:
  assumes "sa_wf a" "i < sa_maxsize a" "j < sa_maxsize a"
  shows "sa_get a (sa_put a i v m) j = (if j = i then v else sa_get a m j)"
  using assms read32_write32_slot unfolding sa_wf_def sa_get_def sa_put_def by blast

lemma sa_get_frame:
  assumes "sa_wf a" "i < sa_maxsize a" "\<And>x. x \<in> sa_region a \<Longrightarrow> m' x = m x"
  shows "sa_get a m' i = sa_get a m i"
  unfolding sa_get_def using assms slot_region by (intro read32_cong) blast

section \<open>The loops\<close>

lemma insert_pos_spec:
  assumes "iterator \<le> sa_size a"
  shows "iterator \<le> insert_pos a cmp el m iterator \<and> insert_pos a cmp el m iterator \<le> sa_size a
    \<and> (\<forall>j. iterator \<le> j \<and> j < insert_pos a cmp el m iterator \<longrightarrow> cmp m (sa_get a m j) el < 0)
    \<and> (insert_pos a cmp el m iterator = sa_size a
        \<or> \<not> cmp m (sa_get a m (insert_pos a cmp el m iterator)) el < 0)"
  using assms
proof (induction a cmp el m iterator rule: insert_pos.induct)
  case (1 a cmp el m iterator)
  show ?case
  proof (cases "iterator < sa_size a \<and> cmp m (sa_get a m iterator) el < 0")
    case True
    then have lt: "iterator < sa_size a" by simp
    have suc: "unat (iterator + 1) = Suc (unat iterator)" by (rule unat_Suc32 [OF lt])
    have "iterator + 1 \<le> sa_size a"
      using lt suc by (simp add: word_le_nat_alt word_less_nat_alt)
    note IH = "1.IH" [OF True this]
    have split: "iterator \<le> j \<longleftrightarrow> j = iterator \<or> iterator + 1 \<le> j" for j
      using suc by (auto simp: word_le_nat_alt word_unat_eq_iff)
    show ?thesis
      using IH True split [of "insert_pos a cmp el m (iterator + 1)"]
      by (subst (1 2 3 4 5) insert_pos.simps) (auto simp: split)
  next
    case False
    then show ?thesis using "1.prems" by (subst (1 2 3 4 5) insert_pos.simps) auto
  qed
qed

lemma insert_shift_frame:
  "sa_wf a \<Longrightarrow> sa_size a < sa_maxsize a \<Longrightarrow> x \<notin> sa_region a \<Longrightarrow> insert_shift a iterator tmp m x = m x"
proof (induction a iterator tmp m rule: insert_shift.induct)
  case (1 a iterator tmp m)
  show ?case
  proof (cases "iterator < sa_size a")
    case True
    then have "iterator + 1 < sa_maxsize a"
      using unat_Suc32 [OF True] "1.prems"(2) by (simp add: word_less_nat_alt)
    then show ?thesis
      using "1.IH" [OF True refl refl] "1.prems" True
      by (subst insert_shift.simps) (simp add: Let_def sa_put_frame)
  next
    case False
    then show ?thesis by (subst insert_shift.simps) simp
  qed
qed

lemma insert_shift_get:
  "sa_wf a \<Longrightarrow> sa_size a < sa_maxsize a \<Longrightarrow> j < sa_maxsize a \<Longrightarrow>
   sa_get a (insert_shift a iterator tmp m) j =
     (if iterator < j \<and> j \<le> sa_size a then (if j = iterator + 1 then tmp else sa_get a m (j - 1))
      else sa_get a m j)"
proof (induction a iterator tmp m rule: insert_shift.induct)
  case (1 a iterator tmp m)
  show ?case
  proof (cases "iterator < sa_size a")
    case True
    let ?m1 = "sa_put a (iterator + 1) tmp m"
    have suc: "unat (iterator + 1) = Suc (unat iterator)" by (rule unat_Suc32 [OF True])
    have it: "iterator + 1 < sa_maxsize a"
      using suc True "1.prems"(2) by (simp add: word_less_nat_alt)
    have get1: "k < sa_maxsize a \<Longrightarrow>
        sa_get a ?m1 k = (if k = iterator + 1 then tmp else sa_get a m k)" for k
      by (rule sa_get_put [OF "1.prems"(1) it])
    have gt: "iterator < j \<longleftrightarrow> j = iterator + 1 \<or> iterator + 1 < j"
      using suc by (auto simp: word_less_nat_alt word_unat_eq_iff)
    have pred: "j - 1 < sa_maxsize a" "j - 1 = iterator + 1 \<longleftrightarrow> j = iterator + 1 + 1"
      if "iterator + 1 < j"
    proof -
      have "unat (j - 1) = unat j - 1" using that suc by (subst unat_sub_nowrap) (auto simp: word_less_nat_alt)
      then show "j - 1 < sa_maxsize a" using "1.prems"(3) by (simp add: word_less_nat_alt)
    qed (auto simp: algebra_simps)
    have IH: "sa_get a (insert_shift a (iterator + 1) (sa_get a m (iterator + 1)) ?m1) j =
      (if iterator + 1 < j \<and> j \<le> sa_size a
       then (if j = iterator + 1 + 1 then sa_get a m (iterator + 1) else sa_get a ?m1 (j - 1))
       else sa_get a ?m1 j)"
      using "1.IH" [OF True refl refl "1.prems"] .
    have "insert_shift a iterator tmp m
        = insert_shift a (iterator + 1) (sa_get a m (iterator + 1)) ?m1"
      using True by (subst insert_shift.simps) (simp add: Let_def)
    then show ?thesis
      using IH gt True suc pred get1 [OF "1.prems"(3)] get1 [of "j - 1"]
      by (auto simp: word_less_nat_alt word_le_nat_alt algebra_simps)
  next
    case False
    then have "\<not> (iterator < j \<and> j \<le> sa_size a)" by auto
    then show ?thesis using False by (subst insert_shift.simps) auto
  qed
qed

lemma remove_shift_frame:
  "sa_wf a \<Longrightarrow> x \<notin> sa_region a \<Longrightarrow> remove_shift a i m x = m x"
proof (induction a i m rule: remove_shift.induct)
  case (1 a i m)
  show ?case
  proof (cases "i < sa_size a")
    case True
    then have "i < sa_maxsize a" using "1.prems"(1) unfolding sa_wf_def by (meson less_le_trans)
    then show ?thesis
      using "1.IH" [OF True "1.prems"] "1.prems" True
      by (subst remove_shift.simps) (simp add: sa_put_frame)
  next
    case False
    then show ?thesis by (subst remove_shift.simps) simp
  qed
qed

lemma remove_shift_get:
  "sa_wf a \<Longrightarrow> j < sa_size a \<Longrightarrow> j < i \<or> j + 1 < sa_size a \<Longrightarrow>
   sa_get a (remove_shift a i m) j = (if i \<le> j then sa_get a m (j + 1) else sa_get a m j)"
proof (induction a i m rule: remove_shift.induct)
  case (1 a i m)
  show ?case
  proof (cases "i < sa_size a")
    case True
    let ?m1 = "sa_put a i (sa_get a m (i + 1)) m"
    have le: "sa_size a \<le> sa_maxsize a" using "1.prems"(1) by (simp add: sa_wf_def)
    have suc: "unat (i + 1) = Suc (unat i)" by (rule unat_Suc32 [OF True])
    have sucj: "unat (j + 1) = Suc (unat j)" by (rule unat_Suc32 [OF "1.prems"(2)])
    have get1: "k < sa_size a \<Longrightarrow> sa_get a ?m1 k = (if k = i then sa_get a m (i + 1) else sa_get a m k)" for k
      using le True by (intro sa_get_put "1.prems"(1)) auto
    have IH: "sa_get a (remove_shift a (i + 1) ?m1) j =
        (if i + 1 \<le> j then sa_get a ?m1 (j + 1) else sa_get a ?m1 j)"
      using suc sucj "1.prems" by (intro "1.IH" [OF True]) (auto simp: word_less_nat_alt)
    have le_iff: "i \<le> j \<longleftrightarrow> j = i \<or> i + 1 \<le> j"
      using suc by (auto simp: word_le_nat_alt word_unat_eq_iff)
    have ne: "i \<le> j \<Longrightarrow> j + 1 \<noteq> i" "i + 1 \<le> j \<Longrightarrow> j \<noteq> i"
      using suc sucj by (auto simp: word_le_nat_alt)
    have "i \<le> j \<Longrightarrow> j + 1 < sa_size a"
      using "1.prems"(3) by auto
    then show ?thesis
      using True IH get1 [of j] get1 [of "j + 1"] "1.prems"(2) le_iff ne
      by (subst remove_shift.simps) auto
  next
    case False
    then have "\<not> i \<le> j" using "1.prems"(2) by auto
    then show ?thesis using False by (subst remove_shift.simps) simp
  qed
qed

section \<open>The operations on the list of stored pointers\<close>

lemma sa_elems_eqI:
  assumes "unat (sa_size a) = length xs"
    and "\<And>j. j < sa_size a \<Longrightarrow> sa_get a m j = xs ! unat j"
  shows "sa_elems a m = xs"
proof (rule nth_equalityI)
  show "length (sa_elems a m) = length xs" using assms(1) by simp
  fix k assume "k < length (sa_elems a m)"
  then have k: "k < unat (sa_size a)" by simp
  then have "k < 4294967296" using unat_lt32 [of "sa_size a"] by linarith
  then have u: "unat (of_nat k :: u32) = k" by (rule unat_of_nat32)
  then have "of_nat k < sa_size a" using k by (simp add: word_less_nat_alt)
  from assms(2) [OF this] show "sa_elems a m ! k = xs ! k"
    using k u by (simp add: sa_elems_nth)
qed

lemma sa_elems_nth_word: "i < sa_size a \<Longrightarrow> sa_elems a m ! unat i = sa_get a m i"
  by (simp add: sa_elems_nth word_less_nat_alt)

lemma sa_get_size [simp]: "sa_get (a\<lparr>sa_size := n\<rparr>) m j = sa_get a m j"
  by (simp add: sa_get_def)

lemma sa_region_size [simp]: "sa_region (a\<lparr>sa_size := n\<rparr>) = sa_region a"
  by (simp add: sa_region_def)

lemma sa_elems_frame:
  assumes "sa_wf a" "\<And>x. x \<in> sa_region a \<Longrightarrow> m' x = m x"
  shows "sa_elems a m' = sa_elems a m"
proof (rule sa_elems_eqI)
  fix j assume j: "j < sa_size a"
  then have "j < sa_maxsize a" using assms(1) unfolding sa_wf_def by (meson less_le_trans)
  then show "sa_get a m' j = sa_elems a m ! unat j"
    using sa_get_frame [OF assms(1) _ assms(2)] sa_elems_nth_word [OF j, of m] by simp
qed simp

lemma insert_pos_split:
  assumes "p = insert_pos a cmp el m 0"
  shows "takeWhile (\<lambda>x. cmp m x el < 0) (sa_elems a m) = take (unat p) (sa_elems a m)"
    and "dropWhile (\<lambda>x. cmp m x el < 0) (sa_elems a m) = drop (unat p) (sa_elems a m)"
    and "p \<le> sa_size a"
proof -
  have spec: "p \<le> sa_size a" "\<forall>j<p. cmp m (sa_get a m j) el < 0"
    "p = sa_size a \<or> \<not> cmp m (sa_get a m p) el < 0"
    using insert_pos_spec [of 0 a cmp el m] assms by auto
  then show "p \<le> sa_size a" by simp
  have 1: "unat p \<le> length (sa_elems a m)" using spec(1) by (simp add: word_le_nat_alt)
  have 2: "\<forall>k<unat p. cmp m (sa_elems a m ! k) el < 0"
  proof (intro allI impI)
    fix k assume k: "k < unat p"
    then have "k < 4294967296" using unat_lt32 [of p] by linarith
    then have "of_nat k < p" using k by (simp add: word_less_nat_alt unat_of_nat32)
    with spec(2) show "cmp m (sa_elems a m ! k) el < 0"
      using k 1 by (simp add: sa_elems_nth)
  qed
  have 3: "unat p = length (sa_elems a m) \<or> \<not> cmp m (sa_elems a m ! unat p) el < 0"
    using spec(1,3) by (metis length_sa_elems sa_elems_nth_word le_less)
  show "takeWhile (\<lambda>x. cmp m x el < 0) (sa_elems a m) = take (unat p) (sa_elems a m)"
    "dropWhile (\<lambda>x. cmp m x el < 0) (sa_elems a m) = drop (unat p) (sa_elems a m)"
    by (rule takeWhile_least [OF 1 2 3])+
qed

lemma insert_shifted_elems:
  assumes wf: "sa_wf a" and room: "sa_size a < sa_maxsize a" and p: "p \<le> sa_size a"
    and get: "\<And>j. j \<le> sa_size a \<Longrightarrow>
      sa_get a m' j = (if j < p then sa_get a m j else if j = p then el else sa_get a m (j - 1))"
  shows "sa_elems (a\<lparr>sa_size := sa_size a + 1\<rparr>) m'
    = take (unat p) (sa_elems a m) @ el # drop (unat p) (sa_elems a m)"
proof (rule sa_elems_eqI)
  have suc: "unat (sa_size a + 1) = Suc (unat (sa_size a))" by (rule unat_Suc32 [OF room])
  have pn: "unat p \<le> unat (sa_size a)" using p by (simp add: word_le_nat_alt)
  show "unat (sa_size (a\<lparr>sa_size := sa_size a + 1\<rparr>))
      = length (take (unat p) (sa_elems a m) @ el # drop (unat p) (sa_elems a m))"
    using suc pn by simp
  fix j assume "j < sa_size (a\<lparr>sa_size := sa_size a + 1\<rparr>)"
  then have j: "unat j \<le> unat (sa_size a)" using suc by (simp add: word_less_nat_alt)
  consider "j < p" | "j = p" | "p < j" by fastforce
  then show "sa_get (a\<lparr>sa_size := sa_size a + 1\<rparr>) m' j
      = (take (unat p) (sa_elems a m) @ el # drop (unat p) (sa_elems a m)) ! unat j"
  proof cases
    case 1
    then show ?thesis using get [of j] j pn
      by (simp add: nth_append word_le_nat_alt word_less_nat_alt sa_elems_nth)
  next
    case 2
    then show ?thesis using get [of j] j pn by (simp add: nth_append word_le_nat_alt)
  next
    case 3
    have u: "unat (j - 1) = unat j - 1"
      using 3 by (subst unat_sub_nowrap) (auto simp: word_less_nat_alt)
    have lt: "j - 1 < sa_size a" using u 3 j by (simp add: word_less_nat_alt)
    have ix: "unat p + (unat j - Suc (unat p)) = unat j - 1" using 3 by (simp add: word_less_nat_alt)
    have "sa_get a m' j = sa_get a m (j - 1)"
      using get [of j] 3 j by (auto simp: word_le_nat_alt)
    also have "\<dots> = sa_elems a m ! (unat j - 1)"
      using sa_elems_nth_word [OF lt] u by simp
    finally show ?thesis
      using 3 j pn ix by (simp add: nth_append word_less_nat_alt nth_Cons')
  qed
qed

lemma insert_sorted_array_ok:
  assumes wf: "sa_wf a" and cmp: "sa_cmp a = Some cmp" and room: "sa_size a < sa_maxsize a"
  shows "\<exists>m'. insert_sorted_array a el m = Inr (a\<lparr>sa_size := sa_size a + 1\<rparr>, m')
    \<and> sa_elems (a\<lparr>sa_size := sa_size a + 1\<rparr>) m'
        = takeWhile (\<lambda>x. cmp m x el < 0) (sa_elems a m) @ el
            # dropWhile (\<lambda>x. cmp m x el < 0) (sa_elems a m)
    \<and> (\<forall>x. x \<notin> sa_region a \<longrightarrow> m' x = m x)"
proof -
  define p where "p = insert_pos a cmp el m 0"
  define m' where "m' = (if p = sa_size a then sa_put a (sa_size a) el m
     else insert_shift a p (sa_get a m p) (sa_put a p el m))"
  note split = insert_pos_split [OF p_def]
  have p: "p < sa_maxsize a" using split(3) room by simp
  have run: "insert_sorted_array a el m = Inr (a\<lparr>sa_size := sa_size a + 1\<rparr>, m')"
    using cmp room by (simp add: insert_sorted_array_def m'_def p_def Let_def)
  have frame: "x \<notin> sa_region a \<Longrightarrow> m' x = m x" for x
    using wf room p by (simp add: m'_def sa_put_frame insert_shift_frame)
  have get: "sa_get a m' j = (if j < p then sa_get a m j else if j = p then el else sa_get a m (j - 1))"
    if "j \<le> sa_size a" for j
  proof -
    have j: "j < sa_maxsize a" using that room by simp
    then have j1: "p < j \<Longrightarrow> j - 1 < sa_maxsize a \<and> (j - 1 = p \<longleftrightarrow> j = p + 1)"
      by (auto simp: word_less_nat_alt unat_sub_nowrap word_le_nat_alt)
    show ?thesis
    proof (cases "p = sa_size a")
      case True
      then show ?thesis using that j p sa_get_put [OF wf p j] by (auto simp: m'_def)
    next
      case False
      then show ?thesis
        using that j p j1 sa_get_put [OF wf p] insert_shift_get [OF wf room j] by (auto simp: m'_def)
    qed
  qed
  show ?thesis
    using run frame insert_shifted_elems [OF wf room split(3) get] split(1,2) by auto
qed

lemma remove_sorted_array_ok:
  assumes wf: "sa_wf a" and i: "i < sa_size a"
  shows "\<exists>m'. remove_sorted_array a i m = Inr (a\<lparr>sa_size := sa_size a - 1\<rparr>, m')
    \<and> sa_elems (a\<lparr>sa_size := sa_size a - 1\<rparr>) m'
        = take (unat i) (sa_elems a m) @ drop (Suc (unat i)) (sa_elems a m)
    \<and> (\<forall>x. x \<notin> sa_region a \<longrightarrow> m' x = m x)"
proof -
  let ?a = "a\<lparr>sa_size := sa_size a - 1\<rparr>" and ?m = "remove_shift a i m"
  have i': "unat i < unat (sa_size a)" using i by (simp add: word_less_nat_alt)
  have pred: "unat (sa_size a - 1) = unat (sa_size a) - 1"
    using i' by (subst unat_sub_nowrap) auto
  have "sa_elems ?a ?m = take (unat i) (sa_elems a m) @ drop (Suc (unat i)) (sa_elems a m)"
  proof (rule sa_elems_eqI)
    show "unat (sa_size ?a) = length (take (unat i) (sa_elems a m) @ drop (Suc (unat i)) (sa_elems a m))"
      using i' pred by simp
    fix j assume "j < sa_size ?a"
    then have j: "Suc (unat j) < unat (sa_size a)" using pred by (simp add: word_less_nat_alt)
    then have jlt: "j < sa_size a" by (simp add: word_less_nat_alt)
    have suc: "unat (j + 1) = Suc (unat j)" by (rule unat_Suc32 [OF jlt])
    then have j1: "j + 1 < sa_size a" using j by (simp add: word_less_nat_alt)
    have "sa_get a ?m j = (if i \<le> j then sa_get a m (j + 1) else sa_get a m j)"
      using j1 by (intro remove_shift_get [OF wf jlt]) simp
    also have "\<dots> = (take (unat i) (sa_elems a m) @ drop (Suc (unat i)) (sa_elems a m)) ! unat j"
      using j i' suc j1 jlt sa_elems_nth_word [OF j1, of m] sa_elems_nth_word [OF jlt, of m]
      by (auto simp: nth_append word_le_nat_alt not_le)
    finally show "sa_get ?a ?m j
        = (take (unat i) (sa_elems a m) @ drop (Suc (unat i)) (sa_elems a m)) ! unat j" by simp
  qed
  then show ?thesis using i remove_shift_frame [OF wf] by (simp add: remove_sorted_array_def)
qed

lemma lookup_sorted_array_eq:
  "lookup_sorted_array a i m =
     (if unat i < length (sa_elems a m) then Inr (sa_elems a m ! unat i)
      else Inl (Panic ''index in range''))"
  by (simp add: lookup_sorted_array_def sa_elems_nth word_less_nat_alt)

section \<open>The interface the heap relies on\<close>

text \<open>
  The laws of an index kept in the order of \<open>before\<close>: what insertion, deletion and lookup do
  to the list of elements, and when they panic. The lemmas of the locale are the multiset and
  order facts a client of the index uses.
\<close>

locale sorted_index =
  fixes elems :: "'c \<Rightarrow> u32 list"
    and inv :: "'c \<Rightarrow> bool"
    and room :: "'c \<Rightarrow> bool"
    and ins :: "u32 \<Rightarrow> 'c \<Rightarrow> kerror + 'c"
    and del :: "u32 \<Rightarrow> 'c \<Rightarrow> kerror + 'c"
    and look :: "u32 \<Rightarrow> 'c \<Rightarrow> kerror + u32"
    and before :: "'c \<Rightarrow> u32 \<Rightarrow> u32 \<Rightarrow> bool"
    and keeps :: "'c \<Rightarrow> 'c \<Rightarrow> bool"
  assumes ins_law: "inv c \<Longrightarrow> room c \<Longrightarrow> \<exists>c'. ins el c = Inr c' \<and> inv c' \<and> keeps c c'
      \<and> elems c' = takeWhile (\<lambda>x. before c x el) (elems c) @ el
            # dropWhile (\<lambda>x. before c x el) (elems c)"
    and ins_full: "inv c \<Longrightarrow> \<not> room c \<Longrightarrow> \<exists>msg. ins el c = Inl (Panic msg)"
    and del_law: "inv c \<Longrightarrow> unat i < length (elems c) \<Longrightarrow> \<exists>c'. del i c = Inr c' \<and> inv c' \<and> room c' \<and> keeps c c'
      \<and> elems c' = take (unat i) (elems c) @ drop (Suc (unat i)) (elems c)"
    and del_out: "inv c \<Longrightarrow> \<not> unat i < length (elems c) \<Longrightarrow> \<exists>msg. del i c = Inl (Panic msg)"
    and look_law: "inv c \<Longrightarrow> unat i < length (elems c) \<Longrightarrow> look i c = Inr (elems c ! unat i)"
    and look_out: "inv c \<Longrightarrow> \<not> unat i < length (elems c) \<Longrightarrow> \<exists>msg. look i c = Inl (Panic msg)"
begin

lemma ins_mset:
  assumes "inv c" "room c"
  shows "\<exists>c'. ins el c = Inr c' \<and> inv c' \<and> keeps c c' \<and> mset (elems c') = add_mset el (mset (elems c))"
proof -
  obtain c' where c': "ins el c = Inr c'" "inv c'" "keeps c c'"
    "elems c' = takeWhile (\<lambda>x. before c x el) (elems c) @ el # dropWhile (\<lambda>x. before c x el) (elems c)"
    using ins_law [OF assms] by blast
  have "mset (takeWhile (\<lambda>x. before c x el) (elems c)) + mset (dropWhile (\<lambda>x. before c x el) (elems c))
      = mset (elems c)"
    by (metis mset_append takeWhile_dropWhile_id)
  then show ?thesis using c' by simp
qed

lemma del_mset:
  assumes "inv c" "unat i < length (elems c)"
  shows "\<exists>c'. del i c = Inr c' \<and> inv c' \<and> room c' \<and> keeps c c'
    \<and> add_mset (elems c ! unat i) (mset (elems c')) = mset (elems c)"
proof -
  obtain c' where c': "del i c = Inr c'" "inv c'" "room c'" "keeps c c'"
    "elems c' = take (unat i) (elems c) @ drop (Suc (unat i)) (elems c)"
    using del_law [OF assms] by blast
  have "mset (elems c) = mset (take (unat i) (elems c) @ elems c ! unat i # drop (Suc (unat i)) (elems c))"
    using assms(2) by (simp only: id_take_nth_drop [symmetric])
  then show ?thesis using c' by simp
qed

lemma ins_sorted:
  assumes "inv c" "room c"
    and sorted: "sorted_wrt (\<lambda>x y. \<not> before c y x) (elems c)"
    and asym: "\<And>x. x \<in> set (elems c) \<Longrightarrow> before c x el \<Longrightarrow> \<not> before c el x"
    and trans: "\<And>x y. x \<in> set (elems c) \<Longrightarrow> y \<in> set (elems c) \<Longrightarrow> \<not> before c x y \<Longrightarrow> \<not> before c y el \<Longrightarrow> \<not> before c x el"
  shows "\<exists>c'. ins el c = Inr c' \<and> inv c' \<and> sorted_wrt (\<lambda>x y. \<not> before c y x) (elems c')"
proof -
  let ?P = "\<lambda>x. before c x el"
  obtain c' where c': "ins el c = Inr c'" "inv c'"
    "elems c' = takeWhile ?P (elems c) @ el # dropWhile ?P (elems c)"
    using ins_law [OF assms(1,2)] by blast
  have parts: "sorted_wrt (\<lambda>x y. \<not> before c y x) (takeWhile ?P (elems c))"
    "sorted_wrt (\<lambda>x y. \<not> before c y x) (dropWhile ?P (elems c))"
    "\<forall>x\<in>set (takeWhile ?P (elems c)). \<forall>y\<in>set (dropWhile ?P (elems c)). \<not> before c y x"
    using sorted by (metis sorted_wrt_append takeWhile_dropWhile_id)+
  have low: "\<forall>x\<in>set (takeWhile ?P (elems c)). \<not> before c el x"
    using asym by (auto dest: set_takeWhileD)
  have high: "\<not> before c y el" if y: "y \<in> set (dropWhile ?P (elems c))" for y
  proof (cases "dropWhile ?P (elems c)")
    case (Cons z zs)
    then have z: "\<not> before c z el" by (metis hd_dropWhile list.distinct(1) list.sel(1))
    have zin: "z \<in> set (elems c)" using Cons by (metis list.set_intros(1) set_dropWhileD)
    show ?thesis
    proof (cases "y = z")
      case False
      then have "\<not> before c y z" using y Cons parts(2) by auto
      moreover have "y \<in> set (elems c)" using y by (rule set_dropWhileD)
      ultimately show ?thesis using trans zin z by blast
    qed (use z in simp)
  next
    case Nil
    with y show ?thesis by (metis empty_iff list.set(1))
  qed
  have "sorted_wrt (\<lambda>x y. \<not> before c y x) (elems c')"
    unfolding c'(3) sorted_wrt_append sorted_wrt.simps list.set ball_simps
    using parts low high by blast
  then show ?thesis using c' by blast
qed

end

text \<open>What the operations leave alone: the place, capacity and order of the array, and all other memory.\<close>

definition sa_keeps :: "sorted_array \<times> mem \<Rightarrow> sorted_array \<times> mem \<Rightarrow> bool" where
  "sa_keeps c c' \<longleftrightarrow> sa_array (fst c') = sa_array (fst c) \<and> sa_maxsize (fst c') = sa_maxsize (fst c)
     \<and> sa_cmp (fst c') = sa_cmp (fst c) \<and> (\<forall>x. x \<notin> sa_region (fst c) \<longrightarrow> snd c' x = snd c x)"

interpretation sa: sorted_index "\<lambda>(a, m). sa_elems a m" "\<lambda>(a, m). sa_wf a \<and> sa_cmp a \<noteq> None"
  "\<lambda>(a, m). sa_size a < sa_maxsize a" "\<lambda>el (a, m). insert_sorted_array a el m"
  "\<lambda>i (a, m). remove_sorted_array a i m" "\<lambda>i (a, m). lookup_sorted_array a i m"
  "\<lambda>(a, m) x y. case sa_cmp a of None \<Rightarrow> False | Some cmp \<Rightarrow> cmp m x y < 0" sa_keeps
proof (unfold_locales, goal_cases)
  case (1 c el)
  then obtain a m cmp where c: "c = (a, m)" "sa_wf a" "sa_cmp a = Some cmp" "sa_size a < sa_maxsize a"
    by (cases c) auto
  have "unat (sa_size a + 1) = Suc (unat (sa_size a))" by (rule unat_Suc32 [OF c(4)])
  then have "sa_wf (a\<lparr>sa_size := sa_size a + 1\<rparr>)"
    using c(2,4) by (simp add: sa_wf_def word_le_nat_alt word_less_nat_alt)
  then show ?case using insert_sorted_array_ok [OF c(2-4), of el m] c by (auto simp: sa_keeps_def)
next
  case (2 c el)
  then show ?case by (cases c) (auto simp: insert_sorted_array_def)
next
  case (3 c i)
  then obtain a m where c: "c = (a, m)" "sa_wf a" "sa_cmp a \<noteq> None" "i < sa_size a"
    by (cases c) (auto simp: word_less_nat_alt)
  have "unat (sa_size a - 1) = unat (sa_size a) - 1" "unat i < unat (sa_size a)"
    using c(4) by (auto simp: word_less_nat_alt unat_sub_nowrap)
  then have "sa_wf (a\<lparr>sa_size := sa_size a - 1\<rparr>)" "sa_size a - 1 < sa_maxsize a"
    using c(2) by (auto simp: sa_wf_def word_le_nat_alt word_less_nat_alt)
  then show ?case using remove_sorted_array_ok [OF c(2,4), of m] c by (auto simp: sa_keeps_def)
next
  case (4 c i)
  then show ?case by (cases c) (auto simp: remove_sorted_array_def word_less_nat_alt)
next
  case (5 c i)
  then show ?case by (cases c) (auto simp: lookup_sorted_array_eq)
next
  case (6 c i)
  then show ?case by (cases c) (auto simp: lookup_sorted_array_eq)
qed

section \<open>Sorting by insertion\<close>

text \<open>Inserting the elements of a list one after another.\<close>

fun insert_all :: "u32 list \<Rightarrow> sorted_array \<times> mem \<Rightarrow> kerror + sorted_array \<times> mem" where
  "insert_all [] (a, m) = Inr (a, m)"
| "insert_all (x # xs) (a, m) = ebind (insert_sorted_array a x m) (insert_all xs)"

lemma insort_split: "takeWhile (\<lambda>y. f y < f x) ys @ x # dropWhile (\<lambda>y. f y < f x) ys = insort_key f x ys"
  by (induction ys) (auto simp: not_le not_less)

lemma sa_wf_Suc: "sa_wf a \<Longrightarrow> sa_size a < sa_maxsize a \<Longrightarrow> sa_wf (a\<lparr>sa_size := sa_size a + 1\<rparr>)"
  using unat_Suc32 [of "sa_size a" "sa_maxsize a"] by (auto simp: sa_wf_def word_less_nat_alt word_le_nat_alt)

lemma insert_all_insort:
  fixes key :: "u32 \<Rightarrow> 'k::linorder"
  assumes "sa_wf a" "sa_cmp a = Some cmp" "unat (sa_size a) + length xs \<le> unat (sa_maxsize a)"
    and "\<And>m' x y. (\<forall>z. z \<notin> sa_region a \<longrightarrow> m' z = m z) \<Longrightarrow> x \<in> S \<Longrightarrow> y \<in> S \<Longrightarrow> cmp m' x y < 0 \<longleftrightarrow> key x < key y"
    and "set (sa_elems a m) \<subseteq> S" "set xs \<subseteq> S"
  shows "\<exists>a' m'. insert_all xs (a, m) = Inr (a', m') \<and> sa_elems a' m' = fold (insort_key key) xs (sa_elems a m)
    \<and> (\<forall>z. z \<notin> sa_region a \<longrightarrow> m' z = m z)"
  using assms
proof (induction xs arbitrary: a m)
  case (Cons x xs)
  let ?a = "a\<lparr>sa_size := sa_size a + 1\<rparr>"
  have room: "sa_size a < sa_maxsize a" using Cons.prems(3) by (simp add: word_less_nat_alt)
  have sz: "unat (sa_size a + 1) = unat (sa_size a) + 1" using unat_Suc32 [OF room] by simp
  obtain m1 where ins: "insert_sorted_array a x m = Inr (?a, m1)"
    and el: "sa_elems ?a m1 = takeWhile (\<lambda>y. cmp m y x < 0) (sa_elems a m) @ x # dropWhile (\<lambda>y. cmp m y x < 0) (sa_elems a m)"
    and out: "\<forall>z. z \<notin> sa_region a \<longrightarrow> m1 z = m z"
    using insert_sorted_array_ok [OF Cons.prems(1,2) room] by blast
  have key: "cmp m y x < 0 \<longleftrightarrow> key y < key x" if "y \<in> set (sa_elems a m)" for y
    using Cons.prems(4) [of m y x] Cons.prems(5,6) that by auto
  have el': "sa_elems ?a m1 = insort_key key x (sa_elems a m)"
    unfolding el insort_split [symmetric] using key by (simp cong: takeWhile_cong dropWhile_cong)
  have "\<exists>a' m'. insert_all xs (?a, m1) = Inr (a', m') \<and> sa_elems a' m' = fold (insort_key key) xs (sa_elems ?a m1)
    \<and> (\<forall>z. z \<notin> sa_region ?a \<longrightarrow> m' z = m1 z)"
  proof (rule Cons.IH)
    show "sa_wf ?a" by (rule sa_wf_Suc [OF Cons.prems(1) room])
    show "cmp m' u v < 0 \<longleftrightarrow> key u < key v" if "\<forall>z. z \<notin> sa_region ?a \<longrightarrow> m' z = m1 z" "u \<in> S" "v \<in> S" for m' u v
      using Cons.prems(4) [of m' u v] that out by simp
  qed (use Cons.prems sz el' in \<open>simp_all add: set_insort_key\<close>)
  then show ?case using ins el' out by auto
qed simp

section \<open>Properties\<close>

text \<open>An array of at most four pointers at address 0x1000, kept in the order of the pointers.\<close>

definition example_array :: sorted_array where
  "example_array = \<lparr>sa_array = 0x1000, sa_size = 2, sa_maxsize = 4, sa_cmp = Some default_cmp_func\<rparr>"

definition example_array_mem :: mem where
  "example_array_mem = write32 0x1000 10 (write32 0x1004 30 (\<lambda>_. 0))"

lemma example_array_facts:
  "sa_wf example_array" "sa_cmp example_array = Some default_cmp_func"
  "sa_size example_array < sa_maxsize example_array"
  "sa_elems example_array example_array_mem = [10, 30]"
  by (simp_all add: example_array_def example_array_mem_def sa_wf_def sa_elems_def sa_get_def
      upt_conv_Cons read32_write32_apart)

text \<open>
  While there is room, insertion puts the element in front of the first
  element that the comparison does not order before it, shifts the rest by one, and writes
  nothing outside the array.
\<close>
theorem insert_sorted_array_inserts:
  assumes "sa_wf a" "sa_cmp a = Some cmp" "sa_size a < sa_maxsize a"
  shows "\<exists>m'. insert_sorted_array a el m = Inr (a\<lparr>sa_size := sa_size a + 1\<rparr>, m')
    \<and> sa_elems (a\<lparr>sa_size := sa_size a + 1\<rparr>) m'
        = takeWhile (\<lambda>x. cmp m x el < 0) (sa_elems a m) @ el
            # dropWhile (\<lambda>x. cmp m x el < 0) (sa_elems a m)
    \<and> (\<forall>x. x \<notin> sa_region a \<longrightarrow> m' x = m x)"
  by (rule insert_sorted_array_ok [OF assms])

theorem insert_sorted_array_inserts_witness:
  "\<exists>a' m'. insert_sorted_array example_array 20 example_array_mem = Inr (a', m')
    \<and> sa_elems a' m' = [10, 20, 30] \<and> m' 0x2000 = 0"
proof -
  have out: "0x2000 \<notin> sa_region example_array" by (simp add: sa_region_def example_array_def)
  have "example_array_mem 0x2000 = 0" by (simp add: example_array_mem_def write32_def)
  then show ?thesis
    using insert_sorted_array_inserts [OF example_array_facts(1-3), of 20 example_array_mem] out
    by (auto simp: example_array_facts(4) default_cmp_func_def)
qed

text \<open>
  If the array is sorted and the comparison is asymmetric and transitive on its
  elements and the new one, the array is sorted after the insertion.
\<close>
theorem insert_keeps_order:
  assumes "sa_wf a" "sa_cmp a = Some cmp" "sa_size a < sa_maxsize a"
    and "sorted_wrt (\<lambda>x y. \<not> cmp m y x < 0) (sa_elems a m)"
    and "\<forall>x \<in> set (sa_elems a m). cmp m x el < 0 \<longrightarrow> \<not> cmp m el x < 0"
    and "\<forall>x \<in> set (sa_elems a m). \<forall>y \<in> set (sa_elems a m).
      \<not> cmp m x y < 0 \<longrightarrow> \<not> cmp m y el < 0 \<longrightarrow> \<not> cmp m x el < 0"
  shows "\<exists>a' m'. insert_sorted_array a el m = Inr (a', m')
    \<and> sorted_wrt (\<lambda>x y. \<not> cmp m y x < 0) (sa_elems a' m')"
  using sa.ins_sorted [of "(a, m)" el] assms by auto

theorem insert_keeps_order_witness:
  "\<exists>a' m'. insert_sorted_array example_array 20 example_array_mem = Inr (a', m')
    \<and> sorted_wrt (\<lambda>x y. \<not> default_cmp_func example_array_mem y x < 0) (sa_elems a' m')"
  by (rule insert_keeps_order [OF example_array_facts(1-3)])
    (simp_all add: example_array_facts default_cmp_func_def)

text \<open>
  Removing an index in range deletes exactly that element, keeps the
  order of the others and writes nothing outside the array; an index out of range panics.
\<close>
theorem remove_sorted_array_removes:
  assumes "sa_wf a"
  shows "if i < sa_size a
    then \<exists>m'. remove_sorted_array a i m = Inr (a\<lparr>sa_size := sa_size a - 1\<rparr>, m')
      \<and> sa_elems (a\<lparr>sa_size := sa_size a - 1\<rparr>) m'
          = take (unat i) (sa_elems a m) @ drop (Suc (unat i)) (sa_elems a m)
      \<and> (\<forall>x. x \<notin> sa_region a \<longrightarrow> m' x = m x)
    else remove_sorted_array a i m = Inl (Panic ''index in range'')"
  using remove_sorted_array_ok [OF assms] by (simp add: remove_sorted_array_def)

theorem remove_sorted_array_removes_witness:
  "(\<exists>a' m'. remove_sorted_array example_array 0 example_array_mem = Inr (a', m') \<and> sa_elems a' m' = [30])
    \<and> remove_sorted_array example_array 2 example_array_mem = Inl (Panic ''index in range'')"
proof (rule conjI)
  have in_range: "0 < sa_size example_array" "\<not> 2 < sa_size example_array" by (simp_all add: example_array_def)
  show "\<exists>a' m'. remove_sorted_array example_array 0 example_array_mem = Inr (a', m') \<and> sa_elems a' m' = [30]"
    using remove_sorted_array_removes [OF example_array_facts(1), of 0 example_array_mem] in_range(1)
    by (auto simp: example_array_facts(4))
  show "remove_sorted_array example_array 2 example_array_mem = Inl (Panic ''index in range'')"
    using remove_sorted_array_removes [OF example_array_facts(1), of 2 example_array_mem] in_range(2) by simp
qed

text \<open>
  C16: Inserting into an empty array is sorting: after the elements of a list were inserted one after the other, the array holds
  them in the order of the key the comparison stands for. An element is placed in front of those of equal key, so
  elements of equal key are in the reverse order of their insertion: the contents are the stable sort of the reversed list. Nothing outside the
  array is written.
\<close>
theorem insert_all_sorts:
  fixes key :: "u32 \<Rightarrow> 'k::linorder"
  assumes "sa_wf a" "sa_cmp a = Some cmp" "sa_size a = 0" "length xs \<le> unat (sa_maxsize a)"
    and "\<And>m' x y. (\<forall>z. z \<notin> sa_region a \<longrightarrow> m' z = m z) \<Longrightarrow> x \<in> set xs \<Longrightarrow> y \<in> set xs \<Longrightarrow> cmp m' x y < 0 \<longleftrightarrow> key x < key y"
  shows "\<exists>a' m'. insert_all xs (a, m) = Inr (a', m') \<and> sa_elems a' m' = sort_key key (rev xs)
    \<and> (\<forall>z. z \<notin> sa_region a \<longrightarrow> m' z = m z)"
proof -
  have e: "sa_elems a m = []" using assms(3) by (simp add: sa_elems_def)
  have "\<exists>a' m'. insert_all xs (a, m) = Inr (a', m') \<and> sa_elems a' m' = fold (insort_key key) xs (sa_elems a m)
    \<and> (\<forall>z. z \<notin> sa_region a \<longrightarrow> m' z = m z)"
    by (rule insert_all_insort [OF assms(1,2) _ assms(5)]) (use assms(3,4) e in auto)
  then show ?thesis unfolding e by (simp add: sort_key_def foldr_conv_fold)
qed

text \<open>An array ordered by tens, in which 21 comes behind 20 and is placed in front of it.\<close>

theorem insert_all_sorts_witness:
  "\<exists>a' m'. insert_all [20, 10, 21, 5] (example_array\<lparr>sa_size := 0, sa_cmp := Some (\<lambda>m x y. int (unat x div 10) - int (unat y div 10))\<rparr>,
      example_array_mem) = Inr (a', m') \<and> sa_elems a' m' = [5, 10, 21, 20]"
proof -
  let ?cmp = "\<lambda>(m :: mem) (x :: u32) (y :: u32). int (unat x div 10) - int (unat y div 10)"
  let ?a = "example_array\<lparr>sa_size := 0, sa_cmp := Some ?cmp\<rparr>"
  have a: "sa_wf ?a" "sa_cmp ?a = Some ?cmp" "sa_size ?a = 0" "length [20, 10, 21, 5 :: u32] \<le> unat (sa_maxsize ?a)"
    by (simp_all add: example_array_def sa_wf_def)
  have "?cmp m' x y < 0 \<longleftrightarrow> unat x div 10 < unat y div 10" if "x \<in> set [20, 10, 21, 5]" "y \<in> set [20, 10, 21, 5]" for m' x y
    by simp
  from insert_all_sorts [OF a this, of example_array_mem] show ?thesis by auto
qed

end
