(* ===== verification/Screen.thy ===== *)
theory Screen
  imports Memory
begin

text \<open>
  \<open>screen.c\<close>: the VGA text console. The character cells are the 16-bit words at
  \<open>0xB8000\<close> of the memory; the two cursor variables are the component's own state. The cursor
  position is sent to the CRT controller through ports \<open>0x3D4\<close> and \<open>0x3D5\<close>.
\<close>

record screen = machine +
  cursor_x :: u8
  cursor_y :: u8

text \<open>The static variables before \<open>main\<close> runs, over a cleared memory and silent devices.\<close>

definition boot_screen :: screen where
  "boot_screen = \<lparr>mem = (\<lambda>_. 0), outp = [], in_ports = (\<lambda>_. 0), in_words = (\<lambda>_. 0), cursor_x = 0, cursor_y = 0\<rparr>"

definition MON_WIDTH :: nat where "MON_WIDTH = 80"
definition MON_HEIGHT :: nat where "MON_HEIGHT = 25"

definition MON_DEFAULT_ATTR_BYTE :: u16 where
  "MON_DEFAULT_ATTR_BYTE = push_bit 4 0 OR (15 AND 0x0F)"

definition MON_BLANK_CHAR :: u16 where
  "MON_BLANK_CHAR = 0x20 OR push_bit 8 MON_DEFAULT_ATTR_BYTE"

definition textmemptr :: u32 where "textmemptr = 0xB8000"

text \<open>\<open>&textmemptr[i]\<close>: the cells are 16 bits wide.\<close>

definition cell_addr :: "nat \<Rightarrow> u32" where
  "cell_addr i = textmemptr + 2 * of_nat i"

definition move_csr :: "'a screen_scheme \<Rightarrow> 'a screen_scheme" where
  "move_csr s =
     (let cursor_location = (ucast (cursor_y s) * of_nat MON_WIDTH + ucast (cursor_x s) :: u16);
          s = outb 0x3D4 14 s;
          s = outb 0x3D5 (ucast (drop_bit 8 cursor_location)) s;
          s = outb 0x3D4 15 s
      in outb 0x3D5 (ucast (cursor_location AND 0xFF)) s)"

function scroll_copy :: "nat \<Rightarrow> mem \<Rightarrow> mem" where
  "scroll_copy i m =
     (if i < MON_WIDTH * (MON_HEIGHT - 1)
      then scroll_copy (i + 1) (write16 (cell_addr i) (read16 m (cell_addr (i + MON_WIDTH))) m)
      else m)"
  by pat_completeness auto
termination
  by (relation "measure (\<lambda>(i, m). MON_WIDTH * (MON_HEIGHT - 1) - i)") auto

function blank_fill :: "nat \<Rightarrow> mem \<Rightarrow> mem" where
  "blank_fill i m =
     (if i < MON_WIDTH * MON_HEIGHT
      then blank_fill (i + 1) (write16 (cell_addr i) MON_BLANK_CHAR m) else m)"
  by pat_completeness auto
termination
  by (relation "measure (\<lambda>(i, m). MON_WIDTH * MON_HEIGHT - i)") auto

declare scroll_copy.simps [simp del] blank_fill.simps [simp del]

definition scroll :: "'a screen_scheme \<Rightarrow> 'a screen_scheme" where
  "scroll s =
     (if of_nat MON_HEIGHT \<le> cursor_y s
      then s\<lparr>mem := blank_fill (MON_WIDTH * (MON_HEIGHT - 1)) (scroll_copy 0 (mem s)),
             cursor_y := of_nat (MON_HEIGHT - 1)\<rparr>
      else s)"

text \<open>\<open>char\<close> is signed on the target: \<open>c >= ' '\<close> excludes the bytes from 128 on.\<close>

definition putch_attr :: u16 where
  "putch_attr = push_bit 8 (push_bit 4 0 OR (2 AND 0x0F))"

definition putch_place :: "u8 \<Rightarrow> 'a screen_scheme \<Rightarrow> 'a screen_scheme" where
  "putch_place c s =
     (if c = 0x08 \<and> 0 < cursor_x s then s\<lparr>cursor_x := cursor_x s - 1\<rparr>
      else if c = 0x09 then s\<lparr>cursor_x := (cursor_x s + 8) AND NOT (8 - 1)\<rparr>
      else if c = 13 then s\<lparr>cursor_x := 0\<rparr>
      else if c = 10 then s\<lparr>cursor_x := 0, cursor_y := cursor_y s + 1\<rparr>
      else if 32 \<le> sint c
      then s\<lparr>mem := write16 (cell_addr (unat (cursor_x s) + MON_WIDTH * unat (cursor_y s)))
                      (ucast c OR putch_attr) (mem s),
             cursor_x := cursor_x s + 1\<rparr>
      else s)"

definition putch_wrap :: "'a screen_scheme \<Rightarrow> 'a screen_scheme" where
  "putch_wrap s =
     (if of_nat MON_WIDTH \<le> cursor_x s
      then s\<lparr>cursor_x := 0, cursor_y := cursor_y s + 1\<rparr> else s)"

definition putch :: "u8 \<Rightarrow> 'a screen_scheme \<Rightarrow> 'a screen_scheme" where
  "putch c s = move_csr (scroll (putch_wrap (putch_place c s)))"

definition cls :: "'a screen_scheme \<Rightarrow> 'a screen_scheme" where
  "cls s = move_csr (s\<lparr>mem := blank_fill 0 (mem s), cursor_x := 0, cursor_y := 0\<rparr>)"

text \<open>The C string is the list of its bytes before the terminating zero.\<close>

fun screen_write :: "u8 list \<Rightarrow> 'a screen_scheme \<Rightarrow> 'a screen_scheme" where
  "screen_write [] s = s"
| "screen_write (c # cs) s = screen_write cs (putch c s)"

section \<open>The cells\<close>

lemmas mon_defs = MON_WIDTH_def MON_HEIGHT_def

lemma cell_addr_unat: "i < 2000 \<Longrightarrow> unat (cell_addr i) = 753664 + 2 * i"
proof -
  assume i: "i < 2000"
  then have n: "unat (of_nat i :: u32) = i" by (simp add: unat_of_nat32)
  then have m: "unat (2 * of_nat i :: u32) = 2 * i"
    using i by (subst unat_mult_nowrap) simp_all
  show ?thesis unfolding cell_addr_def textmemptr_def
    using i m by (subst unat_add_nowrap) simp_all
qed

definition video_ram :: "u32 set" where
  "video_ram = addr_range textmemptr 4000"

lemma cell_range: "i < 2000 \<Longrightarrow> addr_range (cell_addr i) 2 \<subseteq> video_ram"
  unfolding video_ram_def
  by (auto simp del: addr_range_code simp: addr_range_nowrap cell_addr_unat textmemptr_def)

lemma read_cell_write:
  assumes "i < 2000" "j < 2000"
  shows "read16 (write16 (cell_addr i) v m) (cell_addr j) = (if j = i then v else read16 m (cell_addr j))"
proof (cases "j = i")
  case False
  have "addr_range (cell_addr j) 2 \<inter> addr_range (cell_addr i) 2 = {}"
    using False assms
    by (auto simp del: addr_range_code simp: addr_range_nowrap cell_addr_unat)
  then show ?thesis using False by (simp add: read16_write16_other)
qed simp

lemma write_cell_outside: "i < 2000 \<Longrightarrow> x \<notin> video_ram \<Longrightarrow> write16 (cell_addr i) v m x = m x"
  using cell_range write16_outside by blast

lemma blank_fill_outside: "x \<notin> video_ram \<Longrightarrow> blank_fill i m x = m x"
proof (induction i m rule: blank_fill.induct)
  case (1 i m)
  then show ?case by (subst blank_fill.simps) (simp add: write_cell_outside mon_defs)
qed

lemma scroll_copy_outside: "x \<notin> video_ram \<Longrightarrow> scroll_copy i m x = m x"
proof (induction i m rule: scroll_copy.induct)
  case (1 i m)
  then show ?case by (subst scroll_copy.simps) (simp add: write_cell_outside mon_defs)
qed

lemma blank_fill_cell:
  "j < 2000 \<Longrightarrow> read16 (blank_fill i m) (cell_addr j)
     = (if i \<le> j then MON_BLANK_CHAR else read16 m (cell_addr j))"
proof (induction i m rule: blank_fill.induct)
  case (1 i m)
  then show ?case
    by (subst blank_fill.simps) (auto simp: mon_defs read_cell_write)
qed

lemma scroll_copy_cell:
  "j < 2000 \<Longrightarrow> read16 (scroll_copy i m) (cell_addr j)
     = (if i \<le> j \<and> j < 1920 then read16 m (cell_addr (j + 80)) else read16 m (cell_addr j))"
proof (induction i m rule: scroll_copy.induct)
  case (1 i m)
  show ?case
  proof (cases "i < 1920")
    case True
    then have "read16 (scroll_copy (i + 1) (write16 (cell_addr i) (read16 m (cell_addr (i + 80))) m)) (cell_addr j)
      = (if i + 1 \<le> j \<and> j < 1920
         then read16 (write16 (cell_addr i) (read16 m (cell_addr (i + 80))) m) (cell_addr (j + 80))
         else read16 (write16 (cell_addr i) (read16 m (cell_addr (i + 80))) m) (cell_addr j))"
      using 1 by (simp add: mon_defs)
    then show ?thesis using True "1.prems"
      by (subst scroll_copy.simps) (auto simp: mon_defs read_cell_write)
  next
    case False
    then show ?thesis by (subst scroll_copy.simps) (auto simp: mon_defs)
  qed
qed

section \<open>The console the cells and the cursor stand for\<close>

record console =
  grid :: "nat \<Rightarrow> nat \<Rightarrow> u16"
  col :: nat
  row :: nat

definition con_abs :: "'a screen_scheme \<Rightarrow> console" where
  "con_abs s = \<lparr>grid = (\<lambda>r c. if r < 25 \<and> c < 80 then read16 (mem s) (cell_addr (c + 80 * r)) else 0),
     col = unat (cursor_x s), row = unat (cursor_y s)\<rparr>"

definition cursor_ok :: "'a screen_scheme \<Rightarrow> bool" where
  "cursor_ok s \<longleftrightarrow> unat (cursor_x s) < 80 \<and> unat (cursor_y s) < 25"

definition con_place :: "u8 \<Rightarrow> console \<Rightarrow> console" where
  "con_place c t =
     (if c = 8 \<and> 0 < col t then t\<lparr>col := col t - 1\<rparr>
      else if c = 9 then t\<lparr>col := 8 * (col t div 8 + 1)\<rparr>
      else if c = 13 then t\<lparr>col := 0\<rparr>
      else if c = 10 then t\<lparr>col := 0, row := row t + 1\<rparr>
      else if 32 \<le> sint c
      then t\<lparr>grid := (grid t)(row t := (grid t (row t))(col t := ucast c OR 0x0200)), col := col t + 1\<rparr>
      else t)"

definition con_wrap :: "console \<Rightarrow> console" where
  "con_wrap t = (if 80 \<le> col t then t\<lparr>col := 0, row := row t + 1\<rparr> else t)"

definition con_scroll :: "console \<Rightarrow> console" where
  "con_scroll t =
     (if 25 \<le> row t
      then t\<lparr>grid := (\<lambda>r c. if r < 24 \<and> c < 80 then grid t (r + 1) c
                           else if r = 24 \<and> c < 80 then MON_BLANK_CHAR else 0), row := 24\<rparr>
      else t)"

definition con_putch :: "u8 \<Rightarrow> console \<Rightarrow> console" where
  "con_putch c t = con_scroll (con_wrap (con_place c t))"

fun con_write :: "u8 list \<Rightarrow> console \<Rightarrow> console" where
  "con_write [] t = t"
| "con_write (c # cs) t = con_write cs (con_putch c t)"

lemma unat_small8: "n < 256 \<Longrightarrow> unat (of_nat n :: u8) = n"
  by (simp add: unat_of_nat)

lemma tab_stop:
  fixes x :: u8
  assumes "unat x < 80"
  shows "unat ((x + 8) AND NOT (8 - 1)) = 8 * (unat x div 8 + 1)"
proof -
  have "unat (x + 8) = unat x + 8" using assms by (subst unat_add_nowrap) simp_all
  moreover have "(x + 8) AND NOT (8 - 1) = (x + 8) AND NOT (mask 3)" by (simp add: mask_eq_exp_minus_1)
  moreover have "n + 8 - (n + 8) mod 2 ^ 3 = 8 * (n div 8 + 1)" for n :: nat
    by simp presburger
  ultimately show ?thesis by (simp only: unat_and_not_mask)
qed

lemma cell_index_inj:
  fixes k r x y :: nat
  assumes "k < 80" "x < 80"
  shows "k + 80 * r = x + 80 * y \<longleftrightarrow> r = y \<and> k = x"
proof
  assume eq: "k + 80 * r = x + 80 * y"
  have "(k + 80 * r) mod 80 = k" "(x + 80 * y) mod 80 = x"
    using assms by simp_all
  then show "r = y \<and> k = x" using eq by simp
qed simp

lemma putch_place_refines:
  assumes "cursor_ok s"
  shows "con_abs (putch_place c s) = con_place c (con_abs s)"
    and "unat (cursor_x (putch_place c s)) \<le> 80" "unat (cursor_y (putch_place c s)) \<le> 25"
    and "cursor_y (putch_place c s) = cursor_y s \<or> cursor_x (putch_place c s) = 0"
proof -
  have inc: "unat (cursor_x s + 1) = unat (cursor_x s) + 1" "unat (cursor_y s + 1) = unat (cursor_y s) + 1"
    using assms by (auto simp: cursor_ok_def unat_add_nowrap)
  have dec: "0 < cursor_x s \<Longrightarrow> unat (cursor_x s - 1) = unat (cursor_x s) - 1"
    by (subst unat_sub_nowrap) (auto simp: word_less_nat_alt)
  have pos: "0 < cursor_x s \<longleftrightarrow> 0 < unat (cursor_x s)" by (simp add: word_less_nat_alt)
  have tab: "unat ((cursor_x s + 8) AND NOT (8 - 1)) = 8 * (unat (cursor_x s) div 8 + 1)"
    using assms tab_stop by (auto simp: cursor_ok_def)
  have cell: "read16 (write16 (cell_addr (unat (cursor_x s) + MON_WIDTH * unat (cursor_y s))) v (mem s))
        (cell_addr (k + 80 * r))
      = (if r = unat (cursor_y s) \<and> k = unat (cursor_x s) then v
         else read16 (mem s) (cell_addr (k + 80 * r)))" if "r < 25" "k < 80" for r k v
  proof -
    have "k + 80 * r = unat (cursor_x s) + MON_WIDTH * unat (cursor_y s)
        \<longleftrightarrow> r = unat (cursor_y s) \<and> k = unat (cursor_x s)"
      using assms \<open>k < 80\<close> unfolding cursor_ok_def MON_WIDTH_def by (simp add: cell_index_inj)
    then show ?thesis using that assms by (subst read_cell_write) (auto simp: cursor_ok_def mon_defs)
  qed
  have attr: "putch_attr = 0x0200" by (simp add: putch_attr_def)
  show "con_abs (putch_place c s) = con_place c (con_abs s)"
  proof (cases "c = 8 \<and> 0 < cursor_x s \<or> c = 9 \<or> c = 13 \<or> c = 10 \<or> \<not> 32 \<le> sint c")
    case True
    then show ?thesis
      by (auto simp: putch_place_def con_place_def con_abs_def inc dec pos tab [simplified] cong: if_cong)
  next
    case False
    then have "putch_place c s =
        s\<lparr>mem := write16 (cell_addr (unat (cursor_x s) + MON_WIDTH * unat (cursor_y s)))
            (ucast c OR putch_attr) (mem s), cursor_x := cursor_x s + 1\<rparr>"
      by (auto simp: putch_place_def)
    moreover have "con_place c (con_abs s) = (let t = con_abs s in
        t\<lparr>grid := (grid t)(row t := (grid t (row t))(col t := ucast c OR 0x0200)), col := col t + 1\<rparr>)"
      using False by (simp add: con_place_def con_abs_def pos Let_def)
    ultimately show ?thesis
      using assms by (auto simp: con_abs_def attr cell inc fun_eq_iff Let_def cursor_ok_def)
  qed
  have "8 * (unat (cursor_x s) div 8 + 1) \<le> 80" using assms unfolding cursor_ok_def by presburger
  then show "unat (cursor_x (putch_place c s)) \<le> 80" "unat (cursor_y (putch_place c s)) \<le> 25"
    using assms inc dec tab unfolding putch_place_def cursor_ok_def by auto
  show "cursor_y (putch_place c s) = cursor_y s \<or> cursor_x (putch_place c s) = 0"
    by (simp add: putch_place_def)
qed

lemma putch_wrap_refines:
  assumes "unat (cursor_x s) \<le> 80" "unat (cursor_y s) \<le> 25"
    and "unat (cursor_y s) < 25 \<or> cursor_x s = 0"
  shows "con_abs (putch_wrap s) = con_wrap (con_abs s)"
    and "unat (cursor_x (putch_wrap s)) < 80" "unat (cursor_y (putch_wrap s)) \<le> 25"
proof -
  have inc: "unat (cursor_y s + 1) = unat (cursor_y s) + 1"
    using assms(2) by (subst unat_add_nowrap) simp_all
  have ge: "of_nat MON_WIDTH \<le> cursor_x s \<longleftrightarrow> 80 \<le> unat (cursor_x s)"
    by (simp add: MON_WIDTH_def word_le_nat_alt)
  show "con_abs (putch_wrap s) = con_wrap (con_abs s)"
    by (auto simp: putch_wrap_def con_wrap_def con_abs_def ge inc cong: if_cong)
  show "unat (cursor_x (putch_wrap s)) < 80" "unat (cursor_y (putch_wrap s)) \<le> 25"
    using assms by (auto simp: putch_wrap_def ge inc)
qed

lemma scroll_refines:
  assumes "unat (cursor_x s) < 80" "unat (cursor_y s) \<le> 25"
  shows "con_abs (scroll s) = con_scroll (con_abs s)" and "cursor_ok (scroll s)"
proof -
  have ge: "of_nat MON_HEIGHT \<le> cursor_y s \<longleftrightarrow> 25 \<le> unat (cursor_y s)"
    by (simp add: MON_HEIGHT_def word_le_nat_alt)
  have h: "unat (of_nat (MON_HEIGHT - 1) :: u8) = 24" by (simp add: MON_HEIGHT_def)
  have cell: "read16 (blank_fill (MON_WIDTH * (MON_HEIGHT - 1)) (scroll_copy 0 (mem s))) (cell_addr (c + 80 * r))
      = (if r < 24 then read16 (mem s) (cell_addr (c + 80 * (r + 1))) else MON_BLANK_CHAR)"
    if "r < 25" "c < 80" for r c
  proof -
    have "c + 80 * r < 2000" "1920 \<le> c + 80 * r \<longleftrightarrow> \<not> r < 24" using that by auto
    then show ?thesis
      by (auto simp: blank_fill_cell scroll_copy_cell mon_defs algebra_simps)
  qed
  show "con_abs (scroll s) = con_scroll (con_abs s)"
  proof (cases "25 \<le> unat (cursor_y s)")
    case True
    have "grid (con_abs (scroll s)) r c = grid (con_scroll (con_abs s)) r c" for r c
      using cell [of r c] True
      by (auto simp: scroll_def con_scroll_def con_abs_def ge simp del: One_nat_def)
    then show ?thesis using True
      by (intro console.equality) (auto simp: scroll_def con_scroll_def con_abs_def ge h simp del: One_nat_def)
  next
    case False
    then show ?thesis by (simp add: scroll_def con_scroll_def con_abs_def ge)
  qed
  show "cursor_ok (scroll s)"
    using assms by (auto simp: scroll_def cursor_ok_def ge h simp del: One_nat_def)
qed

lemma move_csr_simps [simp]:
  "mem (move_csr s) = mem s" "cursor_x (move_csr s) = cursor_x s" "cursor_y (move_csr s) = cursor_y s"
  by (simp_all add: move_csr_def outb_def Let_def)

lemma con_abs_move_csr [simp]: "con_abs (move_csr s) = con_abs s"
  by (simp add: con_abs_def cong: if_cong)

lemma cursor_ok_move_csr [simp]: "cursor_ok (move_csr s) = cursor_ok s"
  by (simp add: cursor_ok_def)

lemma putch_step:
  assumes "cursor_ok s"
  shows "con_abs (putch c s) = con_putch c (con_abs s)" and "cursor_ok (putch c s)"
proof -
  note place = putch_place_refines [OF assms, of c]
  have wrap_pre: "unat (cursor_y (putch_place c s)) < 25 \<or> cursor_x (putch_place c s) = 0"
    using place(4) assms by (auto simp: cursor_ok_def)
  note wrap = putch_wrap_refines [OF place(2,3) wrap_pre]
  note scr = scroll_refines [OF wrap(2,3)]
  show "con_abs (putch c s) = con_putch c (con_abs s)"
    by (simp add: putch_def con_putch_def place(1) wrap(1) scr(1))
  show "cursor_ok (putch c s)" by (simp add: putch_def scr(2))
qed

lemma screen_write_step:
  "cursor_ok s \<Longrightarrow> con_abs (screen_write cs s) = con_write cs (con_abs s) \<and> cursor_ok (screen_write cs s)"
  by (induction cs arbitrary: s) (auto simp: putch_step)

lemma putch_outside:
  assumes "cursor_ok s" "x \<notin> video_ram"
  shows "mem (putch c s) x = mem s x"
proof -
  have "unat (cursor_x s) + MON_WIDTH * unat (cursor_y s) < 2000"
    using assms(1) by (simp add: cursor_ok_def MON_WIDTH_def)
  then have "mem (putch_place c s) x = mem s x"
    using assms(2) by (simp add: putch_place_def write_cell_outside)
  moreover have "mem (putch_wrap t) = mem t" for t :: "'a screen_scheme"
    by (simp add: putch_wrap_def)
  moreover have "mem (scroll t) x = mem t x" for t :: "'a screen_scheme"
    using assms(2) by (simp add: scroll_def blank_fill_outside scroll_copy_outside)
  ultimately show ?thesis by (simp add: putch_def)
qed

lemma outp_stages [simp]:
  "outp (putch_place c s) = outp s" "outp (putch_wrap s) = outp s" "outp (scroll s) = outp s"
  by (simp_all add: putch_place_def putch_wrap_def scroll_def)

lemma outp_move_csr:
  assumes "cursor_ok s"
  shows "\<exists>hi lo. outp (move_csr s) = outp s @ [(0x3D4, 14), (0x3D5, hi), (0x3D4, 15), (0x3D5, lo)]
    \<and> 256 * unat hi + unat lo = 80 * unat (cursor_y s) + unat (cursor_x s)"
proof -
  define loc where "loc = (ucast (cursor_y s) * of_nat MON_WIDTH + ucast (cursor_x s) :: u16)"
  have x: "unat (ucast (cursor_x s) :: u16) = unat (cursor_x s)"
    and y: "unat (ucast (cursor_y s) :: u16) = unat (cursor_y s)"
    using unat_lt8 [of "cursor_x s"] unat_lt8 [of "cursor_y s"]
    by (simp_all add: unat_ucast_mod del: unat_lt8)
  have "unat (ucast (cursor_y s) * 80 :: u16) = 80 * unat (cursor_y s)"
    using assms y by (subst unat_mult_nowrap) (auto simp: cursor_ok_def)
  then have loc: "unat loc = 80 * unat (cursor_y s) + unat (cursor_x s)"
    using assms x unfolding loc_def MON_WIDTH_def cursor_ok_def
    by (subst unat_add_nowrap) auto
  then have small: "unat loc < 2000" using assms by (auto simp: cursor_ok_def)
  have hi: "unat (ucast (drop_bit 8 loc) :: u8) = unat loc div 256"
    using small by (simp add: unat_ucast_mod unat_drop_bit)
  have "unat (loc AND mask 8) = unat loc mod 2 ^ 8" by (rule unat_and_mask)
  then have lo: "unat (ucast (loc AND 0xFF) :: u8) = unat loc mod 256"
    by (simp add: unat_ucast_mod mask_eq_exp_minus_1)
  show ?thesis
    by (rule exI [of _ "ucast (drop_bit 8 loc)"], rule exI [of _ "ucast (loc AND 0xFF)"])
      (simp add: move_csr_def Let_def hi lo loc [symmetric] flip: loc_def)
qed

section \<open>Properties\<close>

text \<open>
  C23: On a cursor inside the 80 by 25 screen, \<open>putch\<close> does to the cells of video
  memory and the cursor what the abstract console does: backspace, tab stops every eight columns,
  carriage return, newline, a printable character stored with the green attribute, wrapping at
  column 80, and scrolling by one line with a blank last line at row 25; the cursor stays inside.
\<close>
theorem putch_refines:
  assumes "cursor_ok s"
  shows "con_abs (putch c s) = con_putch c (con_abs s) \<and> cursor_ok (putch c s)"
  using putch_step [OF assms] by blast

theorem putch_refines_witness:
  "con_abs (putch 65 boot_screen) = con_putch 65 (con_abs boot_screen) \<and> cursor_ok (putch 65 boot_screen)"
  by (rule putch_refines) (simp add: cursor_ok_def boot_screen_def)

text \<open>
  Writing any string from a cursor inside the screen changes no byte of memory
  outside the 4000 bytes of video memory, and leaves the cursor inside the screen.
\<close>
theorem screen_write_safe:
  assumes "cursor_ok s" and "x \<notin> video_ram"
  shows "mem (screen_write cs s) x = mem s x \<and> cursor_ok (screen_write cs s)"
  using assms(1)
proof (induction cs arbitrary: s)
  case Nil
  then show ?case by simp
next
  case (Cons c cs)
  then have "cursor_ok (putch c s)" by (rule_tac putch_step(2))
  then have "mem (screen_write cs (putch c s)) x = mem (putch c s) x
      \<and> cursor_ok (screen_write cs (putch c s))" by (rule Cons.IH)
  then show ?case using putch_outside [OF Cons.prems assms(2), of c] by simp
qed

theorem screen_write_safe_witness:
  "mem (screen_write [72, 105, 10] boot_screen) 0x1000 = 0 \<and> cursor_ok (screen_write [72, 105, 10] boot_screen)"
  using screen_write_safe [of boot_screen "0x1000" "[72, 105, 10]"]
  by (simp add: cursor_ok_def boot_screen_def video_ram_def textmemptr_def)

text \<open>
  Every \<open>putch\<close> ends by sending to the CRT controller, high byte first, the
  cell index of the cursor position it leaves.
\<close>
theorem putch_programs_cursor:
  assumes "cursor_ok s"
  shows "\<exists>hi lo. outp (putch c s) = outp s @ [(0x3D4, 14), (0x3D5, hi), (0x3D4, 15), (0x3D5, lo)]
    \<and> 256 * unat hi + unat lo = 80 * unat (cursor_y (putch c s)) + unat (cursor_x (putch c s))"
proof -
  have "cursor_ok (scroll (putch_wrap (putch_place c s)))"
    using putch_step(2) [OF assms, of c] by (simp add: putch_def)
  from outp_move_csr [OF this] show ?thesis by (simp add: putch_def)
qed

theorem putch_programs_cursor_witness:
  "\<exists>hi lo. outp (putch 10 boot_screen) = [(0x3D4, 14), (0x3D5, hi), (0x3D4, 15), (0x3D5, lo)]
    \<and> 256 * unat hi + unat lo
      = 80 * unat (cursor_y (putch 10 boot_screen)) + unat (cursor_x (putch 10 boot_screen))"
  using putch_programs_cursor [of boot_screen 10] by (simp add: cursor_ok_def boot_screen_def)

end
