(* ===== verification/Vsprintf.thy ===== *)
theory Vsprintf
  imports Screen
begin

text \<open>
  \<open>vsprintf.c\<close> and the formatted output of \<open>system.c\<close> (\<open>strlen\<close>, \<open>printk\<close>, \<open>_panic\<close>).
  A C string is the list of its bytes before the terminating zero. The arguments after the format
  are a list: \<open>Word\<close> is a 32-bit argument slot (an \<open>int\<close>, an \<open>unsigned long\<close> or a pointer),
  \<open>Str\<close> a slot that points to a string. A \<open>va_arg\<close> that finds no slot of its kind is
  undefined in C and is \<open>BadArgs\<close> here. Field widths and precisions are C \<open>int\<close>s: they are
  read at 32 bits (\<open>int32\<close>) and then only compared and decremented.
\<close>

datatype varg = Word u32 | Str "u8 list"

definition bytes :: "string \<Rightarrow> u8 list" where
  "bytes cs = map of_char cs"

definition int32 :: "int \<Rightarrow> int" where
  "int32 i = signed_take_bit 31 i"

definition is_digit :: "u8 \<Rightarrow> bool" where
  "is_digit c \<longleftrightarrow> 48 \<le> c \<and> c \<le> 57"

fun skip_atoi :: "int \<Rightarrow> u8 list \<Rightarrow> int \<times> u8 list" where
  "skip_atoi i [] = (i, [])"
| "skip_atoi i (c # cs) =
     (if is_digit c then skip_atoi (int32 (i * 10 + int (unat c) - 48)) cs else (i, c # cs))"

definition ZEROPAD :: u32 where "ZEROPAD = 1"
definition SIGN :: u32 where "SIGN = 2"
definition PLUS :: u32 where "PLUS = 4"
definition SPACE :: u32 where "SPACE = 8"
definition LEFT :: u32 where "LEFT = 16"
definition SPECIAL :: u32 where "SPECIAL = 32"
definition SMALL :: u32 where "SMALL = 64"

lemmas flag_defs = ZEROPAD_def SIGN_def PLUS_def SPACE_def LEFT_def SPECIAL_def SMALL_def

definition has_flag :: "u32 \<Rightarrow> u32 \<Rightarrow> bool" where
  "has_flag type f \<longleftrightarrow> type AND f \<noteq> 0"

text \<open>\<open>do_div(n, base)\<close>: the quotient left in \<open>n\<close> and the remainder, as \<open>divl\<close> computes them
  on the unsigned value.\<close>

definition do_div :: "u32 \<Rightarrow> u32 \<Rightarrow> u32 \<times> u32" where
  "do_div n base = (n div base, n mod base)"

definition digits_upper :: "u8 list" where
  "digits_upper = bytes ''0123456789ABCDEFGHIJKLMNOPQRSTUVWXYZ''"

definition digits_lower :: "u8 list" where
  "digits_lower = bytes ''0123456789abcdefghijklmnopqrstuvwxyz''"

text \<open>The loop \<open>while (num!=0) tmp[i++] = digits[do_div(num,base)]\<close>, least digit first.\<close>

function number_digits :: "u8 list \<Rightarrow> u32 \<Rightarrow> u32 \<Rightarrow> u8 list" where
  "number_digits digits num base =
     (if num = 0 \<or> base < 2 then []
      else let (q, r) = do_div num base in digits ! unat r # number_digits digits q base)"
  by pat_completeness auto
termination
  by (relation "measure (\<lambda>(digits, num, base). unat num)")
    (auto simp: do_div_def unat_div word_less_nat_alt unat_gt_0)

declare number_digits.simps [simp del]

text \<open>The contents of the local array \<open>tmp\<close>.\<close>

definition number_tmp :: "u8 list \<Rightarrow> u32 \<Rightarrow> u32 \<Rightarrow> u8 list" where
  "number_tmp digits num base = (if num = 0 then [48] else number_digits digits num base)"

text \<open>\<open>while(size-->0) *str++ = c\<close>: the bytes written and the value left in \<open>size\<close>.\<close>

definition pad :: "int \<Rightarrow> u8 \<Rightarrow> u8 list \<times> int" where
  "pad sz c = (replicate (nat sz) c, if 0 < sz then -1 else sz - 1)"

text \<open>The padding loops and the output of \<open>number\<close>, once sign, prefix and digits are known.\<close>

definition number_layout :: "u32 \<Rightarrow> u8 \<Rightarrow> int \<Rightarrow> int \<Rightarrow> u8 list \<Rightarrow> u8 list \<Rightarrow> u8 list \<Rightarrow> u8 list" where
  "number_layout type c sz precision sign prefix tmp =
     (let i = int (length tmp);
          precision = (if i > precision then i else precision);
          sz = sz - precision;
          (s1, sz) = (if \<not> has_flag type (ZEROPAD + LEFT) then pad sz 32 else ([], sz));
          (s2, sz) = (if \<not> has_flag type LEFT then pad sz c else ([], sz));
          s3 = replicate (nat (precision - i)) 48;
          (s4, sz) = pad sz 32
      in s1 @ sign @ prefix @ s2 @ s3 @ rev tmp @ s4)"

text \<open>The sign byte, if any, and the magnitude that is printed.\<close>

definition number_sign :: "u32 \<Rightarrow> u32 \<Rightarrow> u8 list \<times> u32" where
  "number_sign type num =
     (if has_flag type SIGN \<and> sint num < 0 then ([45], - num)
      else (if has_flag type PLUS then [43] else if has_flag type SPACE then [32] else [], num))"

definition number :: "u32 \<Rightarrow> u32 \<Rightarrow> int \<Rightarrow> int \<Rightarrow> u32 \<Rightarrow> u8 list option" where
  "number num base sz precision type =
     (let digits = (if has_flag type SMALL then digits_lower else digits_upper);
          type = (if has_flag type LEFT then type AND NOT ZEROPAD else type)
      in if base < 2 \<or> 36 < base then None
      else
        let c = (if has_flag type ZEROPAD then 48 else 32);
            (sign, num) = number_sign type num;
            sz = (if sign \<noteq> [] then sz - 1 else sz);
            sz = (if has_flag type SPECIAL
                  then (if base = 16 then sz - 2 else if base = 8 then sz - 1 else sz)
                  else sz);
            tmp = number_tmp digits num base;
            prefix = (if has_flag type SPECIAL
                      then (if base = 8 then [48] else if base = 16 then [48, digits ! 33] else [])
                      else [])
        in Some (number_layout type c sz precision sign prefix tmp))"

section \<open>vsprintf\<close>

text \<open>The label \<open>repeat\<close>: the flag characters after \<open>%\<close>.\<close>

fun parse_flags :: "u32 \<Rightarrow> u8 list \<Rightarrow> u32 \<times> u8 list" where
  "parse_flags flags [] = (flags, [])"
| "parse_flags flags (c # cs) =
     (if c = 45 then parse_flags (flags OR LEFT) cs
      else if c = 43 then parse_flags (flags OR PLUS) cs
      else if c = 32 then parse_flags (flags OR SPACE) cs
      else if c = 35 then parse_flags (flags OR SPECIAL) cs
      else if c = 48 then parse_flags (flags OR ZEROPAD) cs
      else (flags, c # cs))"

fun va_word :: "varg list \<Rightarrow> kerror + u32 \<times> varg list" where
  "va_word (Word w # args) = Inr (w, args)"
| "va_word args = Inl BadArgs"

fun va_str :: "varg list \<Rightarrow> kerror + u8 list \<times> varg list" where
  "va_str (Str cs # args) = Inr (cs, args)"
| "va_str args = Inl BadArgs"

text \<open>\<open>*fmt\<close>, with the terminating zero at the end of the list.\<close>

fun peek :: "u8 list \<Rightarrow> u8" where
  "peek [] = 0"
| "peek (c # cs) = c"

definition parse_width :: "u32 \<Rightarrow> u8 list \<Rightarrow> varg list \<Rightarrow> kerror + int \<times> u32 \<times> u8 list \<times> varg list" where
  "parse_width flags fmt args =
     (if is_digit (peek fmt)
      then let (w, fmt) = skip_atoi 0 fmt in Inr (w, flags, fmt, args)
      else if peek fmt = 42
      then ebind (va_word args) (\<lambda>(w, args).
             if sint w < 0 then Inr (int32 (- sint w), flags OR LEFT, fmt, args)
             else Inr (sint w, flags, fmt, args))
      else Inr (-1, flags, fmt, args))"

definition parse_precision :: "u8 list \<Rightarrow> varg list \<Rightarrow> kerror + int \<times> u8 list \<times> varg list" where
  "parse_precision fmt args =
     (if peek fmt = 46
      then let fmt = tl fmt in
        ebind (if is_digit (peek fmt)
               then let (p, fmt) = skip_atoi 0 fmt in Inr (p, fmt, args)
               else if peek fmt = 42 then ebind (va_word args) (\<lambda>(w, args). Inr (sint w, fmt, args))
               else Inr (-1, fmt, args))
          (\<lambda>(precision, fmt, args). Inr (if precision < 0 then 0 else precision, fmt, args))
      else Inr (-1, fmt, args))"

definition skip_qualifier :: "u8 list \<Rightarrow> u8 list" where
  "skip_qualifier fmt =
     (if peek fmt = 104 \<or> peek fmt = 108 \<or> peek fmt = 76 then tl fmt else fmt)"

text \<open>\<open>strlen\<close> of \<open>system.c\<close> counts the bytes before the terminating zero.\<close>

fun strlen :: "u8 list \<Rightarrow> int" where
  "strlen [] = 0"
| "strlen (c # cs) = strlen cs + 1"

definition conv_char :: "u32 \<Rightarrow> int \<Rightarrow> u8 \<Rightarrow> u8 list" where
  "conv_char flags field_width ch =
     (let (s1, field_width) =
            (if \<not> has_flag flags LEFT
             then (replicate (nat (field_width - 1)) 32, if 1 < field_width then 0 else field_width - 1)
             else ([], field_width))
      in s1 @ [ch] @ replicate (nat (field_width - 1)) 32)"

definition conv_str :: "u32 \<Rightarrow> int \<Rightarrow> int \<Rightarrow> u8 list \<Rightarrow> u8 list" where
  "conv_str flags field_width precision s =
     (let len = strlen s;
          len = (if precision < 0 then len else if precision < len then precision else len);
          (s1, field_width) =
            (if \<not> has_flag flags LEFT
             then (replicate (nat (field_width - len)) 32,
                   if len < field_width then len - 1 else field_width - 1)
             else ([], field_width))
      in s1 @ take (nat len) s @ replicate (nat (field_width - len)) 32)"

text \<open>
  One conversion: the bytes it appends, the arguments left, the store \<open>*ip = str - buf\<close> of
  \<open>%n\<close> (\<open>n\<close> is the number of bytes written before it), and the format after it.
\<close>

definition conversion ::
  "nat \<Rightarrow> u32 \<Rightarrow> int \<Rightarrow> int \<Rightarrow> u8 list \<Rightarrow> varg list
     \<Rightarrow> kerror + u8 list \<times> varg list \<times> (u32 \<times> u32) list \<times> u8 list" where
  "conversion n flags field_width precision fmt args =
     (let num = (\<lambda>base fw fl. ebind (va_word args) (\<lambda>(w, args).
                   case number w base fw precision fl of
                     None \<Rightarrow> Inl BadArgs
                   | Some cs \<Rightarrow> Inr (cs, args, [], tl fmt)))
      in if peek fmt = 99 then ebind (va_word args) (\<lambda>(w, args).
              Inr (conv_char flags field_width (ucast w), args, [], tl fmt))
      else if peek fmt = 115 then ebind (va_str args) (\<lambda>(s, args).
              Inr (conv_str flags field_width precision s, args, [], tl fmt))
      else if peek fmt = 111 then num 8 field_width flags
      else if peek fmt = 112 then
        (if field_width = -1 then num 16 8 (flags OR ZEROPAD) else num 16 field_width flags)
      else if peek fmt = 120 then num 16 field_width (flags OR SMALL)
      else if peek fmt = 88 then num 16 field_width flags
      else if peek fmt = 100 \<or> peek fmt = 105 then num 10 field_width (flags OR SIGN)
      else if peek fmt = 117 then num 10 field_width flags
      else if peek fmt = 98 then num 2 field_width flags
      else if peek fmt = 110 then ebind (va_word args) (\<lambda>(ip, args).
              Inr ([], args, [(ip, of_nat n)], tl fmt))
      else Inr ((if peek fmt \<noteq> 37 then [37] else []) @ (if fmt \<noteq> [] then [peek fmt] else []),
                args, [], tl fmt))"

definition directive ::
  "nat \<Rightarrow> u8 list \<Rightarrow> varg list \<Rightarrow> kerror + u8 list \<times> varg list \<times> (u32 \<times> u32) list \<times> u8 list" where
  "directive n fmt args =
     (let (flags, fmt) = parse_flags 0 fmt in
      ebind (parse_width flags fmt args) (\<lambda>(field_width, flags, fmt, args).
      ebind (parse_precision fmt args) (\<lambda>(precision, fmt, args).
      conversion n flags field_width precision (skip_qualifier fmt) args)))"

section \<open>The format shrinks\<close>

lemma length_parse_flags: "length (snd (parse_flags flags cs)) \<le> length cs"
  by (induction flags cs rule: parse_flags.induct) auto

lemma length_skip_atoi: "length (snd (skip_atoi i cs)) \<le> length cs"
  by (induction i cs rule: skip_atoi.induct) auto

lemma directive_shrinks:
  assumes "directive n fmt args = Inr (out, args', st, fmt')"
  shows "length fmt' \<le> length fmt"
proof -
  obtain flags f1 where f1: "parse_flags 0 fmt = (flags, f1)" by fastforce
  have 1: "length f1 \<le> length fmt" using length_parse_flags [of 0 fmt] f1 by simp
  obtain w fl f2 a2 where f2: "parse_width flags f1 args = Inr (w, fl, f2, a2)"
    using assms f1 by (auto simp: directive_def elim!: ebind_eq_InrE)
  have 2: "length f2 \<le> length f1"
    using f2 length_skip_atoi [of 0 f1]
    by (auto simp: parse_width_def split: if_splits prod.splits elim!: ebind_eq_InrE)
  obtain p f3 a3 where f3: "parse_precision f2 a2 = Inr (p, f3, a3)"
    using assms f1 f2 by (auto simp: directive_def elim!: ebind_eq_InrE)
  have 3: "length f3 \<le> length f2"
    using f3 length_skip_atoi [of 0 "tl f2"]
    by (auto simp: parse_precision_def Let_def split: if_splits prod.splits elim!: ebind_eq_InrE)
  have "conversion n fl w p (skip_qualifier f3) a3 = Inr (out, args', st, fmt')"
    using assms f1 f2 f3 by (simp add: directive_def)
  then have "fmt' = tl (skip_qualifier f3)"
    by (auto simp: conversion_def Let_def split: if_splits option.splits elim!: ebind_eq_InrE)
  then have "length fmt' \<le> length f3" by (simp add: skip_qualifier_def)
  then show ?thesis using 1 2 3 by simp
qed

function vsprintf_loop ::
  "u8 list \<Rightarrow> varg list \<Rightarrow> u8 list \<Rightarrow> (u32 \<times> u32) list \<Rightarrow> kerror + u8 list \<times> (u32 \<times> u32) list" where
  "vsprintf_loop [] args str st = Inr (str, st)"
| "vsprintf_loop (c # fmt) args str st =
     (if c \<noteq> 37 then vsprintf_loop fmt args (str @ [c]) st
      else ebind (directive (length str) fmt args) (\<lambda>(out, args', st', fmt').
             vsprintf_loop fmt' args' (str @ out) (st @ st')))"
  by pat_completeness auto
termination
  by (relation "measure (\<lambda>(fmt, args, str, st). length fmt)")
    (auto dest: directive_shrinks)

definition vsprintf :: "u8 list \<Rightarrow> varg list \<Rightarrow> kerror + u8 list \<times> (u32 \<times> u32) list" where
  "vsprintf fmt args = vsprintf_loop fmt args [] []"

section \<open>printk and panic\<close>

text \<open>
  \<open>printk\<close> formats into a static buffer of 1024 bytes; a result that does not fit with its
  terminating zero is written past the buffer. \<open>screen_write\<close> stops at the first zero byte.
\<close>

fun apply_stores :: "(u32 \<times> u32) list \<Rightarrow> mem \<Rightarrow> mem" where
  "apply_stores [] m = m"
| "apply_stores ((p, v) # st) m = apply_stores st (write32 p v m)"

definition format_buffer :: "u8 list \<Rightarrow> varg list \<Rightarrow> 'a screen_scheme \<Rightarrow> kerror + u8 list \<times> 'a screen_scheme" where
  "format_buffer fmt args s =
     ebind (vsprintf fmt args) (\<lambda>(str, st).
       if length str < 1024 then Inr (str, s\<lparr>mem := apply_stores st (mem s)\<rparr>) else Inl BadIndex)"

definition printk :: "u8 list \<Rightarrow> varg list \<Rightarrow> 'a screen_scheme \<Rightarrow> kerror + 'a screen_scheme" where
  "printk fmt args s =
     ebind (format_buffer fmt args s) (\<lambda>(buf, s). Inr (screen_write (takeWhile (\<lambda>c. c \<noteq> 0) buf) s))"

definition panic_rule :: "u8 list" where
  "panic_rule = 10 # bytes ''--------------------------'' @ [10]"

text \<open>\<open>_panic\<close> does not return: the result is the machine in which it loops for ever.\<close>

definition panic_screen :: "u8 list \<Rightarrow> varg list \<Rightarrow> 'a screen_scheme \<Rightarrow> kerror + 'a screen_scheme" where
  "panic_screen fmt args s =
     (let s = screen_write (10 # bytes ''Kernel panic!'' @ panic_rule) s in
      ebind (format_buffer fmt args s) (\<lambda>(buf, s).
        Inr (screen_write panic_rule (screen_write (takeWhile (\<lambda>c. c \<noteq> 0) buf) s))))"

text \<open>The macros \<open>panic\<close> and, for a failed condition, \<open>kassert\<close> of \<open>system.h\<close>.\<close>

definition panic_at :: "u8 list \<Rightarrow> u32 \<Rightarrow> u8 list \<Rightarrow> u8 list \<Rightarrow> varg list
    \<Rightarrow> 'a screen_scheme \<Rightarrow> kerror + 'a screen_scheme" where
  "panic_at file line func msg args s =
     panic_screen (bytes ''%s:%u in %s: '' @ msg) (Str file # Word line # Str func # args) s"

definition kassert_failed :: "u8 list \<Rightarrow> u32 \<Rightarrow> u8 list \<Rightarrow> u8 list \<Rightarrow> u8 list
    \<Rightarrow> 'a screen_scheme \<Rightarrow> kerror + 'a screen_scheme" where
  "kassert_failed file line func msg cond s =
     panic_at file line func (bytes ''assertion failed: %s (%s)'') [Str msg, Str cond] s"

section \<open>Digits\<close>

definition digit_val :: "u8 \<Rightarrow> nat" where
  "digit_val c = (if c \<le> 57 then unat c - 48 else if c \<le> 90 then unat c - 55 else unat c - 87)"

definition val_of :: "nat \<Rightarrow> u8 list \<Rightarrow> nat" where
  "val_of base cs = foldl (\<lambda>v c. v * base + digit_val c) 0 cs"

lemma digits_upper_eq:
  "digits_upper = [48, 49, 50, 51, 52, 53, 54, 55, 56, 57, 65, 66, 67, 68, 69, 70, 71, 72, 73, 74,
     75, 76, 77, 78, 79, 80, 81, 82, 83, 84, 85, 86, 87, 88, 89, 90]"
  by (simp add: digits_upper_def bytes_def of_char_def)

lemma digits_lower_eq:
  "digits_lower = [48, 49, 50, 51, 52, 53, 54, 55, 56, 57, 97, 98, 99, 100, 101, 102, 103, 104, 105, 106,
     107, 108, 109, 110, 111, 112, 113, 114, 115, 116, 117, 118, 119, 120, 121, 122]"
  by (simp add: digits_lower_def bytes_def of_char_def)

lemma digit_table: "list_all (\<lambda>d. digit_val (digits_upper ! d) = d \<and> digit_val (digits_lower ! d) = d) [0..<36]"
  unfolding digits_upper_eq digits_lower_eq by (simp add: upt_rec digit_val_def)

lemma digit_val_digits:
  "d < 36 \<Longrightarrow> digits \<in> {digits_upper, digits_lower} \<Longrightarrow> digit_val (digits ! d) = d"
  using digit_table unfolding list_all_iff by auto

lemma number_digits_val:
  assumes "2 \<le> base" "base \<le> 36" "digits \<in> {digits_upper, digits_lower}"
  shows "foldr (\<lambda>c v. v * unat base + digit_val c) (number_digits digits num base) 0 = unat num"
  using assms
proof (induction digits num base rule: number_digits.induct)
  case (1 digits num base)
  have b: "2 \<le> unat base" "unat base \<le> 36" using 1(2,3) by (simp_all add: word_le_nat_alt)
  show ?case
  proof (cases "num = 0")
    case True
    then show ?thesis by (subst number_digits.simps) simp
  next
    case False
    have nb: "\<not> (num = 0 \<or> base < 2)" using False 1(2) by auto
    have d: "digit_val (digits ! unat (num mod base)) = unat num mod unat base"
    proof -
      have "unat num mod unat base < unat base" using b by simp
      then have "unat num mod unat base < 36" using b by linarith
      then show ?thesis using 1(4) by (simp add: unat_mod_distrib digit_val_digits)
    qed
    have IH: "foldr (\<lambda>c v. v * unat base + digit_val c) (number_digits digits (num div base) base) 0
        = unat (num div base)"
      using "1.IH" [OF nb _ refl] 1(2-4) by (simp add: do_div_def)
    have step: "number_digits digits num base
        = digits ! unat (num mod base) # number_digits digits (num div base) base"
      using nb by (subst number_digits.simps) (simp add: do_div_def)
    show ?thesis unfolding step by (simp add: IH d unat_div_distrib)
  qed
qed

lemma number_digits_length:
  "2 \<le> base \<Longrightarrow> unat num < 2 ^ k \<Longrightarrow> length (number_digits digits num base) \<le> k"
proof (induction k arbitrary: num)
  case 0
  then have "num = 0" by (simp add: unat_eq_0)
  then show ?case by (subst number_digits.simps) simp
next
  case (Suc k)
  have "unat (num div base) \<le> unat num div 2"
    using Suc.prems(1) by (simp add: unat_div_distrib word_le_nat_alt div_le_mono2)
  also have "\<dots> < 2 ^ k" using Suc.prems(2) by simp
  finally have "length (number_digits digits (num div base) base) \<le> k"
    using Suc.IH Suc.prems(1) by blast
  then show ?case by (subst number_digits.simps) (simp add: do_div_def)
qed

lemma number_tmp_val:
  assumes "2 \<le> base" "base \<le> 36" "digits \<in> {digits_upper, digits_lower}"
  shows "val_of (unat base) (rev (number_tmp digits num base)) = unat num"
  using number_digits_val [OF assms, of num]
  by (auto simp: val_of_def number_tmp_def foldl_conv_foldr digit_val_def)

lemma number_tmp_length: "2 \<le> base \<Longrightarrow> length (number_tmp digits num base) \<le> 32"
  using number_digits_length [of base num 32] by (simp add: number_tmp_def)

lemma number_tmp_nonempty: "2 \<le> base \<Longrightarrow> number_tmp digits num base \<noteq> []"
  by (subst number_tmp_def, subst number_digits.simps) (auto simp: Let_def split: prod.splits)

lemma length_number_layout:
  "int (length (number_layout type c sz precision sign prefix tmp))
     = int (length sign) + int (length prefix)
       + max sz (max precision (int (length tmp)))"
  by (auto simp: number_layout_def pad_def Let_def split: if_splits)

lemma number_cases:
  assumes "2 \<le> base" "base \<le> 36"
  shows "\<exists>c sz' sign num' prefix digits type'. number num base sz precision type
      = Some (number_layout type' c sz' precision sign prefix (number_tmp digits num' base))
    \<and> sz' = sz - int (length sign) - int (length prefix) \<and> length sign \<le> 1 \<and> length prefix \<le> 2
    \<and> (sign, num') = number_sign type' num \<and> digits \<in> {digits_upper, digits_lower}"
proof -
  define type' where "type' = (if has_flag type LEFT then type AND NOT ZEROPAD else type)"
  define digits where "digits = (if has_flag type SMALL then digits_lower else digits_upper)"
  obtain sign num' where sg: "number_sign type' num = (sign, num')" by fastforce
  define prefix where "prefix = (if has_flag type' SPECIAL
     then (if base = 8 then [48] else if base = 16 then [48, digits ! 33] else []) else [])"
  have len: "length sign \<le> 1" using sg by (auto simp: number_sign_def split: if_splits)
  then have "(if sign \<noteq> [] then sz - 1 else sz) = sz - int (length sign)"
    by (cases sign) auto
  moreover have "\<not> (base < 2 \<or> 36 < base)" using assms by auto
  ultimately have "number num base sz precision type
      = Some (number_layout type' (if has_flag type' ZEROPAD then 48 else 32)
          (sz - int (length sign) - int (length prefix)) precision sign prefix (number_tmp digits num' base))"
    unfolding number_def by (simp add: sg Let_def prefix_def
        flip: type'_def digits_def)
  then show ?thesis using len sg
    by (intro exI conjI) (auto simp: prefix_def digits_def)
qed

lemma number_default:
  assumes "2 \<le> base" "base \<le> 36" and "fl = 0 \<or> fl = SMALL \<or> fl = SIGN"
  shows "\<exists>digits \<in> {digits_upper, digits_lower}. number num base (-1) (-1) fl
    = Some (fst (number_sign fl num) @ rev (number_tmp digits (snd (number_sign fl num)) base))"
proof -
  have flags: "\<not> has_flag fl LEFT" "\<not> has_flag fl SPECIAL" "\<not> has_flag fl ZEROPAD"
    "\<not> has_flag fl (ZEROPAD + LEFT)"
    using assms(3) by (auto simp: has_flag_def flag_defs)
  define digits where "digits = (if has_flag fl SMALL then digits_lower else digits_upper)"
  have "\<not> (base < 2 \<or> 36 < base)" using assms(1,2) by auto
  then have "number num base (-1) (-1) fl
    = Some (fst (number_sign fl num) @ rev (number_tmp digits (snd (number_sign fl num)) base))"
    using number_tmp_nonempty [OF assms(1), of digits "snd (number_sign fl num)"]
    by (simp add: number_def flags Let_def number_layout_def pad_def
        split: prod.splits flip: digits_def)
  then show ?thesis by (auto simp: digits_def)
qed

lemmas directive_simps = directive_def parse_width_def parse_precision_def skip_qualifier_def
  conversion_def is_digit_def

lemma vsprintf_loop_plain:
  "37 \<notin> set pre \<Longrightarrow> vsprintf_loop (pre @ fmt) args str st = vsprintf_loop fmt args (str @ pre) st"
  by (induction pre arbitrary: str) auto

lemma directive_bare:
  "c \<notin> {45, 43, 32, 35, 48, 42, 46, 104, 108, 76} \<Longrightarrow> \<not> is_digit c \<Longrightarrow>
   directive n (c # fmt) args = conversion n 0 (-1) (-1) (c # fmt) args"
  by (simp add: directive_def parse_width_def parse_precision_def skip_qualifier_def)

lemma directive_number:
  assumes "(c, base, fl) \<in> {(111, 8, 0), (117, 10, 0), (120, 16, SMALL), (88, 16, 0), (98, 2, 0), (100, 10, SIGN)}"
  shows "directive n (c # fmt) (Word w # args)
    = (case number w base (-1) (-1) fl of None \<Rightarrow> Inl BadArgs | Some cs \<Rightarrow> Inr (cs, args, [], fmt))"
proof -
  have "c \<notin> {45, 43, 32, 35, 48, 42, 46, 104, 108, 76}" "\<not> is_digit c"
    using assms by (auto simp: is_digit_def)
  moreover have "conversion n 0 (-1) (-1) (c # fmt) (Word w # args)
      = (case number w base (-1) (-1) fl of None \<Rightarrow> Inl BadArgs | Some cs \<Rightarrow> Inr (cs, args, [], fmt))"
    using assms by (elim insertE) (simp_all add: conversion_def split: option.split)
  ultimately show ?thesis by (metis directive_bare)
qed

lemma decimal_text:
  assumes "37 \<notin> set pre" and "37 \<notin> set post"
  shows "\<exists>ds. vsprintf (pre @ [37, 100] @ post) [Word w]
      = Inr (pre @ (if sint w < 0 then [45] else []) @ ds @ post, [])
    \<and> ds \<noteq> [] \<and> length ds \<le> 32 \<and> int (val_of 10 ds) = \<bar>sint w\<bar>"
proof -
  obtain digits where d: "digits \<in> {digits_upper, digits_lower}"
    and num: "number w 10 (-1) (-1) SIGN
      = Some (fst (number_sign SIGN w) @ rev (number_tmp digits (snd (number_sign SIGN w)) 10))"
    using number_default [of 10 SIGN w] by auto
  define n where "n = (if sint w < 0 then - w else w)"
  have sg: "number_sign SIGN w = (if sint w < 0 then [45] else [], n)"
    by (simp add: number_sign_def has_flag_def flag_defs n_def)
  have n: "int (unat n) = \<bar>sint w\<bar>"
    using unat_uminus32 [of w] sint32_nonneg [of w] by (auto simp: n_def)
  have "vsprintf (pre @ [37, 100] @ post) [Word w]
      = Inr (pre @ (if sint w < 0 then [45] else []) @ rev (number_tmp digits n 10) @ post, [])"
    using num vsprintf_loop_plain [OF assms(2), of "[]"]
    by (simp add: vsprintf_def vsprintf_loop_plain assms directive_number sg)
  moreover have "val_of 10 (rev (number_tmp digits n 10)) = unat n"
    using number_tmp_val [of 10 digits n] d by simp
  ultimately show ?thesis
    using n number_tmp_nonempty [of 10 digits n] number_tmp_length [of 10 digits n] by auto
qed

lemma mem_upd_id [simp]: "s\<lparr>mem := mem s\<rparr> = s"
  by (cases s) simp

lemma printk_decimal:
  assumes "37 \<notin> set pre" and "37 \<notin> set post" and "length pre + length post \<le> 900"
  shows "\<exists>cs. printk (pre @ [37, 100] @ post) [Word w] s = Inr (screen_write cs s)"
proof -
  obtain ds where ds: "vsprintf (pre @ [37, 100] @ post) [Word w]
      = Inr (pre @ (if sint w < 0 then [45] else []) @ ds @ post, [])" "length ds \<le> 32"
    using decimal_text [OF assms(1,2)] by blast
  have "length (pre @ (if sint w < 0 then [45] else []) @ ds @ post) < 1024"
    using ds(2) assms(3) by simp
  then show ?thesis by (simp only: printk_def format_buffer_def ds(1)) auto
qed

lemma printk_plain:
  assumes "37 \<notin> set cs" and "length cs < 1024"
  shows "printk cs [] s = Inr (screen_write (takeWhile (\<lambda>c. c \<noteq> 0) cs) s)"
  using assms vsprintf_loop_plain [of cs "[]" "[]" "[]" "[]"]
  by (simp add: printk_def format_buffer_def vsprintf_def)

lemma printk_hex:
  assumes "37 \<notin> set pre" and "37 \<notin> set post" and "length pre + length post \<le> 900"
  shows "\<exists>cs. printk (pre @ [37, 120] @ post) [Word w] s = Inr (screen_write cs s)"
proof -
  obtain digits where num: "number w 16 (-1) (-1) SMALL
      = Some (fst (number_sign SMALL w) @ rev (number_tmp digits (snd (number_sign SMALL w)) 16))"
    using number_default [of 16 SMALL w] by auto
  have sg: "number_sign SMALL w = ([], w)"
    by (simp add: number_sign_def has_flag_def flag_defs)
  have run: "vsprintf (pre @ [37, 120] @ post) [Word w] = Inr (pre @ rev (number_tmp digits w 16) @ post, [])"
    using num vsprintf_loop_plain [OF assms(2), of "[]"]
    by (simp add: vsprintf_def vsprintf_loop_plain assms directive_number sg)
  have "length (pre @ rev (number_tmp digits w 16) @ post) < 1024"
    using number_tmp_length [of 16 digits w] assms(3) by simp
  then show ?thesis by (simp only: printk_def format_buffer_def run) auto
qed

section \<open>Properties\<close>

text \<open>
  C26: For the conversions \<open>%o %u %x %X %b\<close> without flags, the text that
  \<open>vsprintf\<close> prints, read back as a number in the base of the conversion, is the unsigned value
  of the argument.
\<close>
theorem vsprintf_unsigned_roundtrip:
  assumes "(c, base) \<in> {(111, 8), (117, 10), (120, 16), (88, 16), (98, 2)}"
  shows "\<exists>ds. vsprintf [37, c] [Word w] = Inr (ds, []) \<and> ds \<noteq> [] \<and> val_of base ds = unat w"
proof -
  obtain b :: u32 and fl where b: "(c, b, fl) \<in> {(111, 8, 0), (117, 10, 0), (120, 16, SMALL), (88, 16, 0), (98, 2, 0)}"
    "unat b = base" "2 \<le> b" "b \<le> 36" "fl = 0 \<or> fl = SMALL"
  proof -
    show thesis
      using assms that [of 8 0] that [of 10 0] that [of 16 SMALL] that [of 16 0] that [of 2 0] by auto
  qed
  then obtain digits where d: "digits \<in> {digits_upper, digits_lower}"
    and num: "number w b (-1) (-1) fl
      = Some (fst (number_sign fl w) @ rev (number_tmp digits (snd (number_sign fl w)) b))"
    using number_default [of b fl w] by blast
  have "number_sign fl w = ([], w)" using b(5) by (auto simp: number_sign_def has_flag_def flag_defs)
  then have "vsprintf [37, c] [Word w] = Inr (rev (number_tmp digits w b), [])"
    using b(1) num by (subst vsprintf_def) (auto simp: directive_number)
  then show ?thesis
    using number_tmp_val [OF b(3,4) d, of w] number_tmp_nonempty [OF b(3), of digits w] b(2) by auto
qed

theorem vsprintf_unsigned_roundtrip_witness:
  "\<exists>ds. vsprintf [37, 120] [Word 0xBEEF] = Inr (ds, []) \<and> ds \<noteq> [] \<and> val_of 16 ds = 48879"
  using vsprintf_unsigned_roundtrip [of 120 16 "0xBEEF"] by simp

text \<open>
  Text around one \<open>%d\<close> is copied unchanged, and the conversion prints an optional
  minus sign and decimal digits whose value is the argument read as a signed 32-bit integer (the
  most negative one included).
\<close>
theorem vsprintf_decimal:
  assumes "37 \<notin> set pre" and "37 \<notin> set post"
  shows "\<exists>ds. vsprintf (pre @ [37, 100] @ post) [Word w]
      = Inr (pre @ (if sint w < 0 then [45] else []) @ ds @ post, [])
    \<and> ds \<noteq> [] \<and> int (val_of 10 ds) = \<bar>sint w\<bar>"
  using decimal_text [OF assms, of w] by blast

theorem vsprintf_decimal_witness:
  "\<exists>ds. vsprintf ([97, 61] @ [37, 100] @ [10]) [Word (-5)] = Inr ([97, 61] @ [45] @ ds @ [10], [])
    \<and> ds \<noteq> [] \<and> int (val_of 10 ds) = 5"
  using vsprintf_decimal [of "[97, 61]" "[10]" "-5"] by simp

text \<open>
  C35: The text of \<open>number\<close> is at least as wide as the field width, and no wider than the
  larger of the field width and the precision (at least 32 digits) with room for a sign and a
  \<open>0x\<close> prefix.
\<close>
theorem number_width:
  assumes "2 \<le> base" and "base \<le> 36"
  shows "\<exists>out. number num base sz precision type = Some out \<and> sz \<le> int (length out)
    \<and> int (length out) \<le> max sz (max precision 32 + 3)"
proof -
  obtain c sz' sign num' prefix digits type' where
    out: "number num base sz precision type
      = Some (number_layout type' c sz' precision sign prefix (number_tmp digits num' base))"
    and sz: "sz' = sz - int (length sign) - int (length prefix)"
    and len: "length sign \<le> 1" "length prefix \<le> 2"
    using number_cases [OF assms] by blast
  then show ?thesis
    using number_tmp_length [OF assms(1), of digits num']
    by (auto simp: length_number_layout)
qed

theorem number_width_witness:
  "\<exists>out. number 255 16 8 (-1) ZEROPAD = Some out \<and> 8 \<le> int (length out)
    \<and> int (length out) \<le> max 8 (max (-1) 32 + 3)"
  by (rule number_width) simp_all

text \<open>
  The digits that \<open>number\<close> collects never overrun its local buffer: at most 32
  of the 36 bytes of \<open>tmp\<close> are used, whatever the base from 2 on, and at least one.
\<close>
theorem number_buffer_bounds:
  assumes "2 \<le> base"
  shows "length (number_tmp digits num base) \<le> 32 \<and> number_tmp digits num base \<noteq> []"
  using number_tmp_length [OF assms] number_tmp_nonempty [OF assms] by blast

theorem number_buffer_bounds_witness:
  "length (number_tmp digits_upper (-1) 2) \<le> 32 \<and> number_tmp digits_upper (-1) 2 \<noteq> []"
  by (rule number_buffer_bounds) simp

text \<open>
  A \<open>*\<close> width takes the next argument but the format pointer is not moved
  past the star, so the star itself is printed, after a percent sign, and what follows it is
  taken as ordinary text: \<open>%*d\<close> never prints the number it was given.
\<close>
theorem vsprintf_star_not_consumed:
  "vsprintf (37 # 42 # fmt) (Word w # args)
     = vsprintf_loop fmt args [37, 42] []"
  by (simp add: vsprintf_def directive_simps)

end
