(* ===== verification/Descriptor_Tables.thy ===== *)
theory Descriptor_Tables
  imports Vsprintf
begin

text \<open>
  \<open>descriptor_tables.c\<close> and \<open>descriptor_tables.h\<close>: the segment descriptors (GDT), the interrupt
  gates (IDT) and the dispatch of interrupts to the registered C handlers. The addresses the
  linker gives to the tables and to the assembly entry points \<open>isr0\<close> and \<open>irq0\<close> are inputs
  (\<open>linkmap\<close>). A function pointer is the name of one of the handlers the kernel registers; the
  code a handler runs is the argument \<open>run\<close> of the two dispatchers.
\<close>

record gdt_entry =
  limit_low :: u16
  base_low :: u16
  base_middle :: u8
  seg_access :: u8
  granularity :: u8
  base_high :: u8

record idt_entry =
  base_lo :: u16
  gate_sel :: u16
  always0 :: u8
  gate_flags :: u8
  base_hi :: u16

text \<open>\<open>gdt_ptr_t\<close> and \<open>idt_ptr_t\<close> have the same two fields.\<close>

record table_ptr =
  tp_limit :: u16
  tp_base :: u32

text \<open>The register frame the assembly stubs push; the fields carry the prefix \<open>reg_\<close>.\<close>

record registers =
  reg_ds :: u32
  reg_edi :: u32
  reg_esi :: u32
  reg_ebp :: u32
  reg_esp :: u32
  reg_ebx :: u32
  reg_edx :: u32
  reg_ecx :: u32
  reg_eax :: u32
  int_no :: u32
  err_code :: u32
  reg_eip :: u32
  reg_cs :: u32
  reg_eflags :: u32
  reg_useresp :: u32
  reg_ss :: u32

datatype handler = Page_fault_handler | Timer_callback | Keyboard_handler

record linkmap =
  link_gdt_entries :: u32
  link_idt_entries :: u32
  link_isr0 :: u32
  link_irq0 :: u32

record descr = screen +
  gdt_entries :: "gdt_entry list"
  gdt_ptr :: table_ptr
  idt_entries :: "idt_entry list"
  idt_ptr :: table_ptr
  interrupt_handlers :: "handler option list"
  gdtr :: "table_ptr option"
  idtr :: "table_ptr option"

definition zero_gate :: idt_entry where
  "zero_gate = \<lparr>base_lo = 0, gate_sel = 0, always0 = 0, gate_flags = 0, base_hi = 0\<rparr>"

text \<open>The static variables before \<open>main\<close> runs, and inputs for examples.\<close>

definition boot_descr :: descr where
  "boot_descr = \<lparr>mem = (\<lambda>_. 0), outp = [], in_ports = (\<lambda>_. 0), in_words = (\<lambda>_. 0), cursor_x = 0, cursor_y = 0,
      gdt_entries = replicate 5 \<lparr>limit_low = 0, base_low = 0, base_middle = 0, seg_access = 0,
        granularity = 0, base_high = 0\<rparr>,
      gdt_ptr = \<lparr>tp_limit = 0, tp_base = 0\<rparr>, idt_entries = replicate 256 zero_gate,
      idt_ptr = \<lparr>tp_limit = 0, tp_base = 0\<rparr>, interrupt_handlers = replicate 256 None,
      gdtr = None, idtr = None\<rparr>"

definition zero_registers :: registers where
  "zero_registers = \<lparr>reg_ds = 0, reg_edi = 0, reg_esi = 0, reg_ebp = 0, reg_esp = 0, reg_ebx = 0,
     reg_edx = 0, reg_ecx = 0, reg_eax = 0, int_no = 0, err_code = 0, reg_eip = 0, reg_cs = 0,
     reg_eflags = 0, reg_useresp = 0, reg_ss = 0\<rparr>"

definition example_linkmap :: linkmap where
  "example_linkmap = \<lparr>link_gdt_entries = 0x203000, link_idt_entries = 0x203040, link_isr0 = 0x201000,
     link_irq0 = 0x201200\<rparr>"

section \<open>The global descriptor table\<close>

definition gdt_gate :: "u32 \<Rightarrow> u32 \<Rightarrow> u8 \<Rightarrow> u8 \<Rightarrow> gdt_entry" where
  "gdt_gate b l acc gran =
     \<lparr>limit_low = ucast (l AND 0xFFFF),
      base_low = ucast (b AND 0xFFFF),
      base_middle = ucast (drop_bit 16 b AND 0xFF),
      seg_access = acc,
      granularity = ucast (drop_bit 16 l AND 0x0F) OR (gran AND 0xF0),
      base_high = ucast (drop_bit 24 b AND 0xFF)\<rparr>"

definition gdt_set_gate ::
  "nat \<Rightarrow> u32 \<Rightarrow> u32 \<Rightarrow> u8 \<Rightarrow> u8 \<Rightarrow> 'a descr_scheme \<Rightarrow> kerror + 'a descr_scheme" where
  "gdt_set_gate num b l acc gran s =
     (if num < length (gdt_entries s)
      then Inr (s\<lparr>gdt_entries := (gdt_entries s)[num := gdt_gate b l acc gran]\<rparr>)
      else Inl BadIndex)"

definition gdt_flush :: "'a descr_scheme \<Rightarrow> 'a descr_scheme" where
  "gdt_flush s = s\<lparr>gdtr := Some (gdt_ptr s)\<rparr>"

definition init_gdt :: "linkmap \<Rightarrow> 'a descr_scheme \<Rightarrow> kerror + 'a descr_scheme" where
  "init_gdt lm s =
     (let s = s\<lparr>gdt_ptr := \<lparr>tp_limit = 8 * 5 - 1, tp_base = link_gdt_entries lm\<rparr>\<rparr> in
      ebind (gdt_set_gate 0 0 0 0 0 s) (\<lambda>s.
      ebind (gdt_set_gate 1 0 0xFFFFF 0x9A 0xCF s) (\<lambda>s.
      ebind (gdt_set_gate 2 0 0xFFFFF 0x92 0xCF s) (\<lambda>s.
      ebind (gdt_set_gate 3 0 0xFFFFFFFF 0xFA 0xCF s) (\<lambda>s.
      ebind (gdt_set_gate 4 0 0xFFFFFFFF 0xF2 0xCF s) (\<lambda>s.
      Inr (gdt_flush s)))))))"

section \<open>The interrupt descriptor table\<close>

definition idt_gate :: "u32 \<Rightarrow> u16 \<Rightarrow> u8 \<Rightarrow> idt_entry" where
  "idt_gate b sl fl =
     \<lparr>base_lo = ucast (b AND 0xFFFF), gate_sel = sl, always0 = 0, gate_flags = fl,
      base_hi = ucast (drop_bit 16 b AND 0xFFFF)\<rparr>"

definition idt_set_gate :: "u8 \<Rightarrow> u32 \<Rightarrow> u16 \<Rightarrow> u8 \<Rightarrow> 'a descr_scheme \<Rightarrow> kerror + 'a descr_scheme" where
  "idt_set_gate num b sl fl s =
     (if unat num < length (idt_entries s)
      then Inr (s\<lparr>idt_entries := (idt_entries s)[unat num := idt_gate b sl fl]\<rparr>)
      else Inl BadIndex)"

definition idt_flush :: "'a descr_scheme \<Rightarrow> 'a descr_scheme" where
  "idt_flush s = s\<lparr>idtr := Some (idt_ptr s)\<rparr>"

text \<open>The two \<open>for\<close> loops of \<open>init_idt\<close>: gates \<open>i .. < hi\<close> at \<open>entry + i - lo\<close>.\<close>

function set_gates :: "nat \<Rightarrow> nat \<Rightarrow> nat \<Rightarrow> u32 \<Rightarrow> 'a descr_scheme \<Rightarrow> kerror + 'a descr_scheme" where
  "set_gates i lo hi entry s =
     (if i < hi
      then ebind (idt_set_gate (of_nat i) (entry + of_nat i - of_nat lo) 0x08 0x8E s)
             (set_gates (i + 1) lo hi entry)
      else Inr s)"
  by pat_completeness auto
termination
  by (relation "measure (\<lambda>(i, lo, hi, entry, s). hi - i)") auto

declare set_gates.simps [simp del]

definition pic_remap :: "(u16 \<times> u8) list" where
  "pic_remap = [(0x20, 0x11), (0xA0, 0x11), (0x21, 0x20), (0xA1, 0x28), (0x21, 0x04), (0xA1, 0x02),
                (0x21, 0x01), (0xA1, 0x01), (0x21, 0x0), (0xA1, 0x0)]"

fun outb_all :: "(u16 \<times> u8) list \<Rightarrow> 'a machine_scheme \<Rightarrow> 'a machine_scheme" where
  "outb_all [] s = s"
| "outb_all ((p, v) # rest) s = outb_all rest (outb p v s)"

definition init_idt :: "linkmap \<Rightarrow> 'a descr_scheme \<Rightarrow> kerror + 'a descr_scheme" where
  "init_idt lm s =
     (let s = s\<lparr>interrupt_handlers := replicate 256 None\<rparr>;
          s = s\<lparr>idt_ptr := \<lparr>tp_limit = 8 * 256 - 1, tp_base = link_idt_entries lm\<rparr>\<rparr>;
          s = s\<lparr>idt_entries := replicate 256 zero_gate\<rparr>;
          s = outb_all pic_remap s
      in ebind (set_gates 0 0 32 (link_isr0 lm) s) (\<lambda>s.
         ebind (set_gates 32 32 48 (link_irq0 lm) s) (\<lambda>s.
         Inr (idt_flush s))))"

definition init_descriptor_tables :: "linkmap \<Rightarrow> 'a descr_scheme \<Rightarrow> kerror + 'a descr_scheme" where
  "init_descriptor_tables lm s = ebind (init_gdt lm s) (init_idt lm)"

section \<open>Dispatch\<close>

definition register_interrupt_handler ::
  "u8 \<Rightarrow> handler \<Rightarrow> 'a descr_scheme \<Rightarrow> kerror + 'a descr_scheme" where
  "register_interrupt_handler n h s =
     (if unat n < length (interrupt_handlers s)
      then Inr (s\<lparr>interrupt_handlers := (interrupt_handlers s)[unat n := Some h]\<rparr>)
      else Inl BadIndex)"

definition handler_at :: "u32 \<Rightarrow> 'a descr_scheme \<Rightarrow> kerror + handler option" where
  "handler_at n s =
     (if unat n < length (interrupt_handlers s) then Inr (interrupt_handlers s ! unat n)
      else Inl BadIndex)"

definition idt_handler ::
  "(handler \<Rightarrow> registers \<Rightarrow> 'a descr_scheme \<Rightarrow> kerror + 'a descr_scheme)
     \<Rightarrow> registers \<Rightarrow> 'a descr_scheme \<Rightarrow> kerror + 'a descr_scheme" where
  "idt_handler run regs s =
     ebind (handler_at (int_no regs) s) (\<lambda>h.
       case h of
         Some h \<Rightarrow> run h regs s
       | None \<Rightarrow> ebind (printk (bytes ''Unhandled interrupt: %d'' @ [10]) [Word (int_no regs)] s)
                   (\<lambda>s. Inl (Panic ''Unhandled interrupt'')))"

definition irq_handler ::
  "(handler \<Rightarrow> registers \<Rightarrow> 'a descr_scheme \<Rightarrow> kerror + 'a descr_scheme)
     \<Rightarrow> registers \<Rightarrow> 'a descr_scheme \<Rightarrow> kerror + 'a descr_scheme" where
  "irq_handler run regs s =
     (let s = (if 40 \<le> int_no regs then outb 0xA0 0x20 s else s);
          s = outb 0x20 0x20 s
      in ebind (handler_at (int_no regs) s) (\<lambda>h.
           case h of Some h \<Rightarrow> run h regs s | None \<Rightarrow> Inr s))"

section \<open>What the processor reads from a descriptor\<close>

definition seg_base :: "gdt_entry \<Rightarrow> u32" where
  "seg_base e = ucast (base_low e) OR push_bit 16 (ucast (base_middle e)) OR push_bit 24 (ucast (base_high e))"

definition seg_limit :: "gdt_entry \<Rightarrow> u32" where
  "seg_limit e = ucast (limit_low e) OR push_bit 16 (ucast (granularity e AND mask 4))"

definition gate_offset :: "idt_entry \<Rightarrow> u32" where
  "gate_offset e = ucast (base_lo e) OR push_bit 16 (ucast (base_hi e))"

lemma masks:
  "(0xFFFF :: u32) = mask 16" "(0xFF :: u32) = mask 8" "(0x0F :: u32) = mask 4" "(0xFFFFF :: u32) = mask 20"
  "(0xF0 :: u8) = NOT (mask 4)"
  by (simp_all add: mask_eq_exp_minus_1)

lemma seg_base_gate: "seg_base (gdt_gate b l a g) = b"
proof (rule bit_eqI)
  fix n :: nat
  assume "possible_bit TYPE(32 word) n"
  then have n: "n < 32" by simp
  consider "n < 16" | "16 \<le> n" "n < 24" | "24 \<le> n" by linarith
  then show "bit (seg_base (gdt_gate b l a g)) n \<longleftrightarrow> bit b n"
    by cases (use n in \<open>auto simp: seg_base_def gdt_gate_def masks bit_simps\<close>)
qed

lemma seg_limit_gate: "seg_limit (gdt_gate b l a g) = l AND 0xFFFFF"
proof (rule bit_eqI)
  fix n :: nat
  assume "possible_bit TYPE(32 word) n"
  then have n: "n < 32" by simp
  consider "n < 16" | "16 \<le> n" "n < 20" | "20 \<le> n" by linarith
  then show "bit (seg_limit (gdt_gate b l a g)) n \<longleftrightarrow> bit (l AND 0xFFFFF) n"
    by cases (use n in \<open>auto simp: seg_limit_def gdt_gate_def masks bit_simps\<close>)
qed

lemma gran_gate: "granularity (gdt_gate b l a g) AND 0xF0 = g AND 0xF0"
  by (rule bit_eqI) (auto simp: gdt_gate_def masks bit_simps)

lemma gate_offset_gate: "gate_offset (idt_gate b sl fl) = b"
proof (rule bit_eqI)
  fix n :: nat
  assume "possible_bit TYPE(32 word) n"
  then have n: "n < 32" by simp
  consider "n < 16" | "16 \<le> n" by linarith
  then show "bit (gate_offset (idt_gate b sl fl)) n \<longleftrightarrow> bit b n"
    by cases (use n in \<open>auto simp: gate_offset_def idt_gate_def masks bit_simps\<close>)
qed

lemma gate_fields:
  "seg_access (gdt_gate b l a g) = a" "gate_sel (idt_gate b sl fl) = sl" "gate_flags (idt_gate b sl fl) = fl"
  by (simp_all add: gdt_gate_def idt_gate_def)

lemma set_gates_ok:
  assumes "length (idt_entries s) = 256" "hi \<le> 256"
  shows "\<exists>es. set_gates i lo hi entry s = Inr (s\<lparr>idt_entries := es\<rparr>) \<and> length es = 256
    \<and> (\<forall>k<256. es ! k = (if i \<le> k \<and> k < hi then idt_gate (entry + of_nat k - of_nat lo) 0x08 0x8E
                          else idt_entries s ! k))"
  using assms
proof (induction i lo hi entry s rule: set_gates.induct)
  case (1 i lo hi entry s)
  show ?case
  proof (cases "i < hi")
    case True
    then have i: "i < 256" "unat (of_nat i :: u8) = i" using "1.prems"(2) by (simp_all add: unat_small8)
    let ?g = "idt_gate (entry + of_nat i - of_nat lo) 0x08 0x8E"
    let ?s = "s\<lparr>idt_entries := (idt_entries s)[i := ?g]\<rparr>"
    have set1: "idt_set_gate (of_nat i) (entry + of_nat i - of_nat lo) 0x08 0x8E s = Inr ?s"
      using i "1.prems"(1) by (simp add: idt_set_gate_def)
    obtain es where es: "set_gates (i + 1) lo hi entry ?s = Inr (?s\<lparr>idt_entries := es\<rparr>)" "length es = 256"
      "\<forall>k<256. es ! k = (if i + 1 \<le> k \<and> k < hi then idt_gate (entry + of_nat k - of_nat lo) 0x08 0x8E
                        else idt_entries ?s ! k)"
      using "1.IH" [OF True set1] "1.prems" by auto
    have "set_gates i lo hi entry s = Inr (s\<lparr>idt_entries := es\<rparr>)"
      using True set1 es(1) by (subst set_gates.simps) simp
    moreover have "\<forall>k<256. es ! k = (if i \<le> k \<and> k < hi then idt_gate (entry + of_nat k - of_nat lo) 0x08 0x8E
        else idt_entries s ! k)"
      using es(3) i(1) True "1.prems"(1) by (auto simp: nth_list_update)
    ultimately show ?thesis using es(2) by blast
  next
    case False
    then have "set_gates i lo hi entry s = Inr (s\<lparr>idt_entries := idt_entries s\<rparr>)"
      by (subst set_gates.simps) simp
    then show ?thesis using False "1.prems"(1) by (intro exI [of _ "idt_entries s"]) auto
  qed
qed

lemma outb_all_simps [simp]:
  "outp (outb_all ps s) = outp s @ ps" "mem (outb_all ps s) = mem s" "machine.more (outb_all ps s) = machine.more s"
  by (induction ps s rule: outb_all.induct) (simp_all add: outb_def)

lemma outb_all_eq: "outb_all ps s = s\<lparr>outp := outp s @ ps\<rparr>"
  by (induction ps s rule: outb_all.induct) (simp_all add: outb_def)

text \<open>The states behind \<open>init_gdt\<close> and \<open>init_idt\<close>.\<close>

definition gdt_loaded :: "linkmap \<Rightarrow> gdt_entry list \<Rightarrow> 'a descr_scheme \<Rightarrow> 'a descr_scheme" where
  "gdt_loaded lm es s = s\<lparr>gdt_ptr := \<lparr>tp_limit = 39, tp_base = link_gdt_entries lm\<rparr>, gdt_entries := es,
     gdtr := Some \<lparr>tp_limit = 39, tp_base = link_gdt_entries lm\<rparr>\<rparr>"

definition idt_loaded :: "linkmap \<Rightarrow> idt_entry list \<Rightarrow> 'a descr_scheme \<Rightarrow> 'a descr_scheme" where
  "idt_loaded lm es s = s\<lparr>interrupt_handlers := replicate 256 None,
     idt_ptr := \<lparr>tp_limit = 2047, tp_base = link_idt_entries lm\<rparr>, idt_entries := es, outp := outp s @ pic_remap,
     idtr := Some \<lparr>tp_limit = 2047, tp_base = link_idt_entries lm\<rparr>\<rparr>"

lemma init_gdt_eq:
  assumes "length (gdt_entries s) = 5"
  shows "init_gdt lm s = Inr (gdt_loaded lm [gdt_gate 0 0 0 0, gdt_gate 0 0xFFFFF 0x9A 0xCF, gdt_gate 0 0xFFFFF 0x92 0xCF,
    gdt_gate 0 0xFFFFFFFF 0xFA 0xCF, gdt_gate 0 0xFFFFFFFF 0xF2 0xCF] s)"
proof -
  obtain e0 e1 e2 e3 e4 where e: "gdt_entries s = [e0, e1, e2, e3, e4]"
    using assms by (auto simp: numeral_eq_Suc length_Suc_conv)
  show ?thesis by (simp add: init_gdt_def gdt_set_gate_def e gdt_flush_def Let_def gdt_loaded_def)
qed

lemma init_idt_eq:
  obtains es where "init_idt lm s = Inr (idt_loaded lm es s)" "length es = 256"
    "\<forall>k<256. es ! k = (if k < 32 then idt_gate (link_isr0 lm + of_nat k) 0x08 0x8E
        else if k < 48 then idt_gate (link_irq0 lm + of_nat (k - 32)) 0x08 0x8E else zero_gate)"
proof -
  let ?s0 = "s\<lparr>interrupt_handlers := replicate 256 None,
    idt_ptr := \<lparr>tp_limit = 2047, tp_base = link_idt_entries lm\<rparr>,
    idt_entries := replicate 256 zero_gate, outp := outp s @ pic_remap\<rparr>"
  obtain e1 where e1: "set_gates 0 0 32 (link_isr0 lm) ?s0 = Inr (?s0\<lparr>idt_entries := e1\<rparr>)" "length e1 = 256"
    "\<forall>k<256. e1 ! k = (if k < 32 then idt_gate (link_isr0 lm + of_nat k) 0x08 0x8E else zero_gate)"
    using set_gates_ok [of ?s0 32 0 0 "link_isr0 lm"] by auto
  obtain e2 where e2: "set_gates 32 32 48 (link_irq0 lm) (?s0\<lparr>idt_entries := e1\<rparr>)
      = Inr (?s0\<lparr>idt_entries := e2\<rparr>)" "length e2 = 256"
    "\<forall>k<256. e2 ! k = (if 32 \<le> k \<and> k < 48 then idt_gate (link_irq0 lm + of_nat k - 32) 0x08 0x8E else e1 ! k)"
    using set_gates_ok [of "?s0\<lparr>idt_entries := e1\<rparr>" 48 32 32 "link_irq0 lm"] e1(2) by auto
  have "init_idt lm s = Inr (idt_loaded lm e2 s)"
    using e1(1) e2(1) by (simp add: init_idt_def Let_def outb_all_eq idt_flush_def idt_loaded_def)
  then show thesis by (rule that) (use e1(3) e2(2,3) in \<open>auto simp: of_nat_diff algebra_simps\<close>)
qed

text \<open>The sizes of the tables, as \<open>descriptor_tables.c\<close> declares them.\<close>

definition tables_wf :: "'a descr_scheme \<Rightarrow> bool" where
  "tables_wf s \<longleftrightarrow> length (gdt_entries s) = 5 \<and> length (idt_entries s) = 256 \<and> length (interrupt_handlers s) = 256"

lemma unat_u8_256: "unat (n :: u8) < 256"
  using unsigned_less [of n, where ?'a = nat] by simp

text \<open>Registering handlers one after the other; the last one for a vector stays.\<close>

fun register_all :: "(u8 \<times> handler) list \<Rightarrow> 'a descr_scheme \<Rightarrow> kerror + 'a descr_scheme" where
  "register_all [] s = Inr s"
| "register_all ((n, h) # rs) s = ebind (register_interrupt_handler n h s) (register_all rs)"

lemma register_all_ok:
  assumes "tables_wf s"
  shows "\<exists>s'. register_all rs s = Inr s' \<and> tables_wf s'
    \<and> (\<forall>n :: u8. interrupt_handlers s' ! unat n
        = (case map_of (rev rs) n of Some h \<Rightarrow> Some h | None \<Rightarrow> interrupt_handlers s ! unat n))"
  using assms
proof (induction rs arbitrary: s)
  case (Cons r rs)
  obtain n h where r: "r = (n, h)" by (cases r)
  let ?s = "s\<lparr>interrupt_handlers := (interrupt_handlers s)[unat n := Some h]\<rparr>"
  have run: "register_interrupt_handler n h s = Inr ?s" "tables_wf ?s"
    using Cons.prems by (simp_all add: register_interrupt_handler_def tables_wf_def unat_u8_256)
  have at: "interrupt_handlers ?s ! unat k = (if k = n then Some h else interrupt_handlers s ! unat k)" for k
    using Cons.prems unat_u8_256 [of n] by (auto simp: tables_wf_def nth_list_update word_unat_eq_iff)
  show ?case
    using Cons.IH [OF run(2)] run(1) unfolding r at by (auto simp: map_add_def split: option.split)
qed simp

lemma init_descriptor_tables_eq:
  assumes "length (gdt_entries s) = 5"
  obtains gs es where "init_descriptor_tables lm s = Inr (idt_loaded lm es (gdt_loaded lm gs s))" "length gs = 5" "length es = 256"
    "\<forall>k<256. es ! k = (if k < 32 then idt_gate (link_isr0 lm + of_nat k) 0x08 0x8E
        else if k < 48 then idt_gate (link_irq0 lm + of_nat (k - 32)) 0x08 0x8E else zero_gate)"
proof -
  note g = init_gdt_eq [OF assms, of lm]
  show thesis
    by (rule init_idt_eq [of lm "gdt_loaded lm [gdt_gate 0 0 0 0, gdt_gate 0 0xFFFFF 0x9A 0xCF, gdt_gate 0 0xFFFFF 0x92 0xCF,
        gdt_gate 0 0xFFFFFFFF 0xFA 0xCF, gdt_gate 0 0xFFFFFFFF 0xF2 0xCF] s"])
      (rule that, simp add: init_descriptor_tables_def g, simp, assumption+)
qed

section \<open>Properties\<close>

text \<open>
  The scattered fields of a segment descriptor, read back the way the processor
  does, give the base address, the 20-bit limit, the access byte and the flag nibble that were
  stored.
\<close>
theorem gdt_gate_roundtrip:
  "seg_base (gdt_gate b l a g) = b \<and> seg_limit (gdt_gate b l a g) = l AND 0xFFFFF
   \<and> seg_access (gdt_gate b l a g) = a \<and> granularity (gdt_gate b l a g) AND 0xF0 = g AND 0xF0"
  by (simp add: seg_base_gate seg_limit_gate gran_gate gate_fields)

text \<open>
  \<open>init_gdt\<close> loads a table of five descriptors: a null one and four flat segments of
  base 0 and the whole 4 GB in pages, kernel code and data, then user code and data.
\<close>
theorem init_gdt_flat:
  assumes "length (gdt_entries s) = 5"
  shows "\<exists>s'. init_gdt lm s = Inr s' \<and> gdtr s' = Some \<lparr>tp_limit = 39, tp_base = link_gdt_entries lm\<rparr>
    \<and> map seg_access (gdt_entries s') = [0, 0x9A, 0x92, 0xFA, 0xF2]
    \<and> (\<forall>e \<in> set (tl (gdt_entries s')). seg_base e = 0 \<and> seg_limit e = 0xFFFFF \<and> granularity e AND 0xF0 = 0xC0)"
  by (simp add: init_gdt_eq [OF assms] gdt_loaded_def seg_base_gate seg_limit_gate gran_gate gate_fields)

theorem init_gdt_flat_witness:
  "\<exists>s'. init_gdt example_linkmap boot_descr = Inr s'
    \<and> gdtr s' = Some \<lparr>tp_limit = 39, tp_base = 0x203000\<rparr>
    \<and> map seg_access (gdt_entries s') = [0, 0x9A, 0x92, 0xFA, 0xF2]"
  using init_gdt_flat [of boot_descr example_linkmap]
  by (auto simp: boot_descr_def example_linkmap_def)

text \<open>
  \<open>init_idt\<close> clears the handler table, sends the remapping sequence to the two
  interrupt controllers and loads 256 gates: gate \<open>i\<close> below 32 at \<open>isr0 + i\<close> bytes, gate \<open>i\<close>
  from 32 to 47 at \<open>irq0 + i - 32\<close> bytes, present kernel interrupt gates, the others empty. (The
  offset is added to the address of the first stub, so gate \<open>i\<close> is the entry of stub \<open>i\<close> only
  where the stubs lie one byte apart.)
\<close>
theorem init_idt_gates:
  "\<exists>s'. init_idt lm s = Inr s' \<and> idtr s' = Some \<lparr>tp_limit = 2047, tp_base = link_idt_entries lm\<rparr>
    \<and> interrupt_handlers s' = replicate 256 None \<and> outp s' = outp s @ pic_remap
    \<and> length (idt_entries s') = 256
    \<and> (\<forall>k<32. gate_offset (idt_entries s' ! k) = link_isr0 lm + of_nat k)
    \<and> (\<forall>k. 32 \<le> k \<and> k < 48 \<longrightarrow> gate_offset (idt_entries s' ! k) = link_irq0 lm + of_nat (k - 32))
    \<and> (\<forall>k<48. gate_sel (idt_entries s' ! k) = 8 \<and> gate_flags (idt_entries s' ! k) = 0x8E)
    \<and> (\<forall>k. 48 \<le> k \<and> k < 256 \<longrightarrow> idt_entries s' ! k = zero_gate)"
proof -
  obtain es where "init_idt lm s = Inr (idt_loaded lm es s)" "length es = 256"
    "\<forall>k<256. es ! k = (if k < 32 then idt_gate (link_isr0 lm + of_nat k) 0x08 0x8E
        else if k < 48 then idt_gate (link_irq0 lm + of_nat (k - 32)) 0x08 0x8E else zero_gate)"
    using init_idt_eq [of lm s] .
  then show ?thesis by (auto simp: idt_loaded_def gate_offset_gate gate_fields)
qed

theorem init_idt_gates_witness:
  "\<exists>s'. init_idt example_linkmap boot_descr = Inr s' \<and> gate_offset (idt_entries s' ! 14) = 0x20100E
    \<and> gate_offset (idt_entries s' ! 33) = 0x201201 \<and> idt_entries s' ! 255 = zero_gate"
proof -
  obtain s' where s': "init_idt example_linkmap boot_descr = Inr s'"
    "\<forall>k<32. gate_offset (idt_entries s' ! k) = link_isr0 example_linkmap + of_nat k"
    "\<forall>k. 32 \<le> k \<and> k < 48 \<longrightarrow> gate_offset (idt_entries s' ! k) = link_irq0 example_linkmap + of_nat (k - 32)"
    "\<forall>k. 48 \<le> k \<and> k < 256 \<longrightarrow> idt_entries s' ! k = zero_gate"
    using init_idt_gates [of example_linkmap boot_descr] by blast
  show ?thesis
    using s'(1) s'(2) [rule_format, of 14] s'(3) [rule_format, of 33] s'(4) [rule_format, of 255]
    by (simp add: example_linkmap_def)
qed

text \<open>
  After a handler is registered for a vector, an exception or interrupt with
  that number runs it on the pushed registers, and the dispatch of every other vector is as before.
\<close>
theorem registered_handler_runs:
  assumes "register_interrupt_handler n h s = Inr s'"
  shows "(\<forall>regs. unat (int_no regs) = unat n \<longrightarrow> idt_handler run regs s' = run h regs s')
    \<and> (\<forall>m. unat m \<noteq> unat n \<longrightarrow> handler_at m s' = handler_at m s)"
  using assms by (auto simp: register_interrupt_handler_def idt_handler_def handler_at_def split: if_splits)

theorem registered_handler_runs_witness:
  "\<exists>s'. register_interrupt_handler 14 Page_fault_handler boot_descr = Inr s'
    \<and> idt_handler (\<lambda>h regs s. Inr (outb 0x80 (ucast (int_no regs)) s))
          (zero_registers\<lparr>int_no := 14\<rparr>) s' = Inr (outb 0x80 14 s')"
proof -
  obtain s' where s': "register_interrupt_handler 14 Page_fault_handler boot_descr = Inr s'"
    by (simp add: register_interrupt_handler_def boot_descr_def)
  show ?thesis
    using registered_handler_runs [OF s', of "\<lambda>h regs s. Inr (outb 0x80 (ucast (int_no regs)) s)"] s'
    by auto
qed

text \<open>
  A hardware interrupt is acknowledged before its handler runs, at the slave
  controller first when it came from there (vector 40 or above) and always at the master; without
  a registered handler nothing else happens.
\<close>
theorem irq_acknowledged_first:
  assumes "handler_at (int_no regs) s = Inr h"
  shows "irq_handler run regs s
    = (let s' = s\<lparr>outp := outp s @ (if 40 \<le> int_no regs then [(0xA0, 0x20)] else []) @ [(0x20, 0x20)]\<rparr>
       in case h of Some f \<Rightarrow> run f regs s' | None \<Rightarrow> Inr s')"
proof -
  have "handler_at (int_no regs) (s\<lparr>outp := t\<rparr>) = Inr h" for t
    using assms by (auto simp: handler_at_def split: if_splits)
  from this [of "outp s @ [(0xA0, 0x20), (0x20, 0x20)]"] this [of "outp s @ [(0x20, 0x20)]"]
  show ?thesis by (cases h) (simp_all add: irq_handler_def outb_def Let_def)
qed

theorem irq_acknowledged_first_witness:
  "irq_handler (\<lambda>h regs s. Inr s) (zero_registers\<lparr>int_no := 44\<rparr>) boot_descr
    = Inr (boot_descr\<lparr>outp := [(0xA0, 0x20), (0x20, 0x20)]\<rparr>)"
proof -
  have "handler_at (int_no (zero_registers\<lparr>int_no := 44\<rparr>)) boot_descr = Inr None"
    by (simp add: handler_at_def boot_descr_def)
  from irq_acknowledged_first [OF this, of "\<lambda>h regs s. Inr s"] show ?thesis
    by (simp add: boot_descr_def boot_screen_def)
qed

text \<open>
  An exception with no registered handler prints its number and ends in a
  panic; it never returns to the interrupted code.
\<close>
theorem unhandled_exception_panics:
  assumes "handler_at (int_no regs) s = Inr None"
  shows "idt_handler run regs s = Inl (Panic ''Unhandled interrupt'')"
proof -
  have fmt: "bytes ''Unhandled interrupt: %d'' @ [10]
      = bytes ''Unhandled interrupt: '' @ [37, 100] @ [10]"
    by (simp add: bytes_def of_char_def)
  have "37 \<notin> set (bytes ''Unhandled interrupt: '')" "length (bytes ''Unhandled interrupt: '') \<le> 100"
    by (simp_all add: bytes_def of_char_def)
  then obtain cs where "printk (bytes ''Unhandled interrupt: '' @ [37, 100] @ [10]) [Word (int_no regs)] s
      = Inr (screen_write cs s)"
    using printk_decimal [of "bytes ''Unhandled interrupt: ''" "[10]" "int_no regs" s] by auto
  then show ?thesis using assms unfolding idt_handler_def fmt by simp
qed

theorem unhandled_exception_panics_witness:
  "idt_handler (\<lambda>h regs s. Inr s) (zero_registers\<lparr>int_no := 3\<rparr>) boot_descr
    = Inl (Panic ''Unhandled interrupt'')"
  by (rule unhandled_exception_panics) (simp add: handler_at_def boot_descr_def)

end
