(* ===== verification/Paging.thy ===== *)
theory Paging
  imports Sorted_Array Descriptor_Tables
begin

text \<open>
  \<open>paging.c\<close>: the bitset of physical frames, page-table entries, the two-level lookup of the
  entry of a virtual address, and the page-fault handler. Entries, tables, directories and the
  bitset are in memory at the addresses the code uses; \<open>vm_page\<close> is the layout of the bit-fields
  of one entry. \<open>get_page\<close> takes the allocator it calls for a new table as an argument, because
  the heap's own allocation calls \<open>get_page\<close> again (see the theory of the heap).
\<close>

record vm_page =
  p_present :: "1 word"
  p_rw :: "1 word"
  p_user :: "1 word"
  p_accessed :: "1 word"
  p_dirty :: "1 word"
  p_unused :: "7 word"
  p_frame :: "20 word"

definition page_of :: "u32 \<Rightarrow> vm_page" where
  "page_of w = \<lparr>p_present = ucast w, p_rw = ucast (drop_bit 1 w), p_user = ucast (drop_bit 2 w),
     p_accessed = ucast (drop_bit 3 w), p_dirty = ucast (drop_bit 4 w),
     p_unused = ucast (drop_bit 5 w), p_frame = ucast (drop_bit 12 w)\<rparr>"

definition page_bits :: "vm_page \<Rightarrow> u32" where
  "page_bits p = ucast (p_present p) OR push_bit 1 (ucast (p_rw p)) OR push_bit 2 (ucast (p_user p))
     OR push_bit 3 (ucast (p_accessed p)) OR push_bit 4 (ucast (p_dirty p))
     OR push_bit 5 (ucast (p_unused p)) OR push_bit 12 (ucast (p_frame p))"

text \<open>\<open>frames\<close> is the address of the bitset; \<open>cr0\<close>, \<open>cr2\<close> and \<open>cr3\<close> are the control registers.\<close>

record paging = descr +
  frames :: u32
  nframes :: u32
  kernel_directory :: u32
  current_directory :: u32
  cr0 :: u32
  cr2 :: u32
  cr3 :: u32

section \<open>The bitset of frames\<close>

definition INDEX_FROM_BIT :: "u32 \<Rightarrow> u32" where "INDEX_FROM_BIT a = a div (8 * 4)"
definition OFFSET_FROM_BIT :: "u32 \<Rightarrow> u32" where "OFFSET_FROM_BIT a = a mod (8 * 4)"

definition frame_word :: "u32 \<Rightarrow> 'a paging_scheme \<Rightarrow> u32" where
  "frame_word idx s = read32 (mem s) (frames s + 4 * idx)"

definition set_frame :: "u32 \<Rightarrow> 'a paging_scheme \<Rightarrow> 'a paging_scheme" where
  "set_frame frame_addr s =
     (let frame = frame_addr div 0x1000; idx = INDEX_FROM_BIT frame; off = OFFSET_FROM_BIT frame
      in s\<lparr>mem := write32 (frames s + 4 * idx) (frame_word idx s OR push_bit (unat off) 1) (mem s)\<rparr>)"

definition clear_frame :: "u32 \<Rightarrow> 'a paging_scheme \<Rightarrow> 'a paging_scheme" where
  "clear_frame frame_addr s =
     (let frame = frame_addr div 0x1000; idx = INDEX_FROM_BIT frame; off = OFFSET_FROM_BIT frame
      in s\<lparr>mem := write32 (frames s + 4 * idx) (frame_word idx s AND NOT (push_bit (unat off) 1)) (mem s)\<rparr>)"

definition test_frame :: "u32 \<Rightarrow> 'a paging_scheme \<Rightarrow> u32" where
  "test_frame frame_addr s =
     (let frame = frame_addr div 0x1000; idx = INDEX_FROM_BIT frame; off = OFFSET_FROM_BIT frame
      in frame_word idx s AND push_bit (unat off) 1)"

text \<open>The inner loop of \<open>first_frame\<close> over the bits of one word.\<close>

function zero_bit :: "nat \<Rightarrow> u32 \<Rightarrow> nat option" where
  "zero_bit j w = (if j < 32 then if w AND push_bit j 1 = 0 then Some j else zero_bit (j + 1) w else None)"
  by pat_completeness auto
termination
  by (relation "measure (\<lambda>(j, w). 32 - j)") auto

function first_frame_from :: "u32 \<Rightarrow> 'a paging_scheme \<Rightarrow> u32" where
  "first_frame_from i s =
     (if i < INDEX_FROM_BIT (nframes s)
      then if frame_word i s = 0xFFFFFFFF then first_frame_from (i + 1) s
        else case zero_bit 0 (frame_word i s) of
               Some j \<Rightarrow> i * 4 * 8 + of_nat j
             | None \<Rightarrow> first_frame_from (i + 1) s
      else -1)"
  by pat_completeness auto
termination
  by (relation "measure (\<lambda>(i, s). unat (INDEX_FROM_BIT (nframes s)) - unat i)")
    (auto simp: unat_Suc32 word_less_nat_alt)

declare zero_bit.simps [simp del] first_frame_from.simps [simp del]

definition first_frame :: "'a paging_scheme \<Rightarrow> u32" where
  "first_frame s = first_frame_from 0 s"

section \<open>Pages\<close>

definition page_at :: "'a paging_scheme \<Rightarrow> u32 \<Rightarrow> vm_page" where
  "page_at s p = page_of (read32 (mem s) p)"

definition set_page :: "u32 \<Rightarrow> vm_page \<Rightarrow> 'a paging_scheme \<Rightarrow> 'a paging_scheme" where
  "set_page p pg s = s\<lparr>mem := write32 p (page_bits pg) (mem s)\<rparr>"

definition alloc_frame :: "u32 \<Rightarrow> u32 \<Rightarrow> u32 \<Rightarrow> 'a paging_scheme \<Rightarrow> kerror + 'a paging_scheme" where
  "alloc_frame p is_kernel is_writeable s =
     (if p_frame (page_at s p) \<noteq> 0 then Inr s
      else
        let idx = first_frame s in
        if idx = -1 then Inl (Panic ''No free frame.'')
        else
          let s = set_frame (idx * 0x1000) s in
          Inr (set_page p ((page_at s p)\<lparr>p_present := 1, p_frame := ucast idx,
                 p_rw := (if is_writeable \<noteq> 0 then 1 else 0),
                 p_user := (if is_kernel \<noteq> 0 then 0 else 1)\<rparr>) s))"

definition free_frame :: "u32 \<Rightarrow> 'a paging_scheme \<Rightarrow> 'a paging_scheme" where
  "free_frame p s =
     (if p_frame (page_at s p) = 0 then s
      else
        let s = clear_frame (ucast (p_frame (page_at s p))) s in
        set_page p ((page_at s p)\<lparr>p_frame := 0\<rparr>) s)"

text \<open>
  A directory at \<open>dir\<close> holds the 1024 table pointers \<open>pd_tables\<close>, then the 1024 physical
  addresses \<open>pd_tblphys\<close>, then \<open>pd_tblphys_addr\<close>; a table holds 1024 entries of four bytes.
\<close>

definition SIZEOF_vm_page_table :: u32 where "SIZEOF_vm_page_table = 1024 * 4"
definition SIZEOF_vm_page_directory :: u32 where "SIZEOF_vm_page_directory = 1024 * 4 + 1024 * 4 + 4"

definition pd_tables :: "u32 \<Rightarrow> u32 \<Rightarrow> u32" where "pd_tables dir i = dir + 4 * i"
definition pd_tblphys :: "u32 \<Rightarrow> u32 \<Rightarrow> u32" where "pd_tblphys dir i = dir + 1024 * 4 + 4 * i"
definition pt_pages :: "u32 \<Rightarrow> u32 \<Rightarrow> u32" where "pt_pages tbl i = tbl + 4 * i"

definition switch_page_directory :: "u32 \<Rightarrow> 'a paging_scheme \<Rightarrow> 'a paging_scheme" where
  "switch_page_directory dir s =
     s\<lparr>current_directory := dir, cr3 := pd_tblphys dir 0, cr0 := cr0 s OR 0x80000000\<rparr>"

definition get_page ::
  "(u32 \<Rightarrow> 'a paging_scheme \<Rightarrow> kerror + u32 \<times> u32 \<times> 'a paging_scheme) \<Rightarrow> u32 \<Rightarrow> bool \<Rightarrow> u32
     \<Rightarrow> 'a paging_scheme \<Rightarrow> kerror + u32 \<times> 'a paging_scheme" where
  "get_page kmalloc0_ap address create dir s =
     (let address = address div 0x1000;
          table_idx = address div 1024;
          tbl = read32 (mem s) (pd_tables dir table_idx)
      in if tbl \<noteq> 0 then Inr (pt_pages tbl (address mod 1024), s)
      else if create then
        ebind (kmalloc0_ap SIZEOF_vm_page_table s) (\<lambda>(addr, tmp, s).
          let s = s\<lparr>mem := write32 (pd_tables dir table_idx) addr (mem s)\<rparr>;
              s = s\<lparr>mem := write32 (pd_tblphys dir table_idx) (tmp OR 0x7) (mem s)\<rparr>
          in Inr (pt_pages (read32 (mem s) (pd_tables dir table_idx)) (address mod 1024), s))
      else Inr (0, s))"

text \<open>The \<open>if\<close> statements of \<open>page_fault_handler\<close>, each printing one word of the error code.\<close>

definition print_if :: "bool \<Rightarrow> string \<Rightarrow> 'a screen_scheme \<Rightarrow> kerror + 'a screen_scheme" where
  "print_if c msg s = (if c then printk (bytes msg) [] s else Inr s)"

definition page_fault_handler :: "registers \<Rightarrow> 'a paging_scheme \<Rightarrow> kerror + 'a paging_scheme" where
  "page_fault_handler regs s =
     (let faulting_address = cr2 s;
          present = (err_code regs AND 0x1 = 0);
          rw = (err_code regs AND 0x2 \<noteq> 0);
          us = (err_code regs AND 0x4 \<noteq> 0);
          reserved = (err_code regs AND 0x8 \<noteq> 0)
      in ebind (printk (bytes ''Page fault ('') [] s) (\<lambda>s.
         ebind (print_if present ''present '' s) (\<lambda>s.
         ebind (print_if rw ''read-only '' s) (\<lambda>s.
         ebind (print_if us ''user-mode '' s) (\<lambda>s.
         ebind (print_if reserved ''reserved '' s) (\<lambda>s.
         ebind (printk (bytes '') at %x'' @ [10]) [Word faulting_address] s) (\<lambda>s.
         Inl (Panic ''Page fault''))))))))"

section \<open>Page entries\<close>

lemma bit_one_word: "bit (w :: 1 word) k \<Longrightarrow> k = 0"
  using bit_imp_le_length by fastforce

lemma bit_seven_word: "bit (w :: 7 word) k \<Longrightarrow> k < 7"
  using bit_imp_le_length by fastforce

lemma bit_page_bits:
  assumes "n < 32"
  shows "bit (page_bits p) n \<longleftrightarrow> n = 0 \<and> bit (p_present p) 0 \<or> n = 1 \<and> bit (p_rw p) 0
    \<or> n = 2 \<and> bit (p_user p) 0 \<or> n = 3 \<and> bit (p_accessed p) 0 \<or> n = 4 \<and> bit (p_dirty p) 0
    \<or> 5 \<le> n \<and> n < 12 \<and> bit (p_unused p) (n - 5) \<or> 12 \<le> n \<and> bit (p_frame p) (n - 12)"
proof -
  have shift: "bit (push_bit k (ucast (w :: 'b::len word)) :: u32) n \<longleftrightarrow> k \<le> n \<and> bit w (n - k)" for k and w :: "'b::len word"
    using assms by (auto simp: bit_simps)
  have one: "k \<le> n \<and> bit w (n - k) \<longleftrightarrow> n = k \<and> bit w 0" for k and w :: "1 word"
    using bit_one_word [of w "n - k"] by auto
  have seven: "5 \<le> n \<and> bit w (n - 5) \<longleftrightarrow> 5 \<le> n \<and> n < 12 \<and> bit w (n - 5)" for w :: "7 word"
    using bit_seven_word [of w "n - 5"] by auto
  have zero: "bit (ucast w :: u32) n \<longleftrightarrow> n = 0 \<and> bit w 0" for w :: "1 word"
    using shift [of 0 w] one [of 0 w] by simp
  show ?thesis
    unfolding page_bits_def bit_or_iff shift zero one seven by blast
qed

lemma page_bits_of: "page_bits (page_of w) = w"
proof (rule bit_eqI)
  fix n :: nat
  assume "possible_bit TYPE(32 word) n"
  then have n: "n < 32" by simp
  then consider "n = 0" | "n = 1" | "n = 2" | "n = 3" | "n = 4" | "5 \<le> n" "n < 12" | "12 \<le> n" by linarith
  then show "bit (page_bits (page_of w)) n \<longleftrightarrow> bit w n"
    unfolding bit_page_bits [OF n]
    by cases (use n in \<open>auto simp: page_of_def bit_simps simp del: One_nat_def drop_bit_Suc\<close>)
qed

lemma page_of_bits: "page_of (page_bits p) = p"
proof (rule vm_page.equality)
  have one: "ucast (drop_bit k w) = (v :: 1 word)" if "bit w k = bit v 0" for k and w :: u32 and v
  proof (rule bit_eqI)
    fix n assume "possible_bit TYPE(1 word) n"
    then show "bit (ucast (drop_bit k w) :: 1 word) n \<longleftrightarrow> bit v n" using that by (simp add: bit_simps)
  qed
  show "p_present (page_of (page_bits p)) = p_present p"
    using one [of "page_bits p" 0] by (simp add: page_of_def bit_page_bits)
  show "p_rw (page_of (page_bits p)) = p_rw p" "p_user (page_of (page_bits p)) = p_user p"
    "p_accessed (page_of (page_bits p)) = p_accessed p" "p_dirty (page_of (page_bits p)) = p_dirty p"
    by (simp_all only: page_of_def vm_page.select_convs) (rule one, subst bit_page_bits; simp)+
  show "p_unused (page_of (page_bits p)) = p_unused p"
    by (rule bit_eqI) (simp add: page_of_def bit_simps bit_page_bits)
  show "p_frame (page_of (page_bits p)) = p_frame p"
    by (rule bit_eqI) (simp add: page_of_def bit_simps bit_page_bits)
qed simp

lemma page_at_set_page [simp]: "page_at (set_page p pg s) p = pg"
  by (simp add: page_at_def set_page_def page_of_bits)

section \<open>Frames\<close>

definition nbits :: "'a paging_scheme \<Rightarrow> nat" where
  "nbits s = 32 * (unat (nframes s) div 32)"

definition bitset_wf :: "'a paging_scheme \<Rightarrow> bool" where
  "bitset_wf s \<longleftrightarrow> unat (frames s) + 4 * (unat (nframes s) div 32) \<le> 2 ^ 32 \<and> unat (nframes s) \<le> 2 ^ 20"

definition bitset_region :: "'a paging_scheme \<Rightarrow> u32 set" where
  "bitset_region s = addr_range (frames s) (4 * (unat (nframes s) div 32))"

definition frame_used :: "'a paging_scheme \<Rightarrow> nat \<Rightarrow> bool" where
  "frame_used s f \<longleftrightarrow> bit (frame_word (of_nat (f div 32)) s) (f mod 32)"

lemma unat_index: "unat (INDEX_FROM_BIT n) = unat n div 32"
  by (simp add: INDEX_FROM_BIT_def unat_div_distrib)

lemma unat_offset: "unat (OFFSET_FROM_BIT n) = unat n mod 32"
  by (simp add: OFFSET_FROM_BIT_def unat_mod_distrib)

lemma index_less:
  assumes "f < nbits s" "unat n = f"
  shows "INDEX_FROM_BIT n < INDEX_FROM_BIT (nframes s)"
  using assms by (simp add: word_less_nat_alt unat_index nbits_def)

lemma index_of_nat:
  assumes "unat n = f"
  shows "INDEX_FROM_BIT n = of_nat (f div 32)"
proof -
  have "f div 32 < 4294967296" using assms unat_lt32 [of n] by (simp add: less_mult_imp_div_less)
  then show ?thesis using assms by (simp add: word_unat_eq_iff unat_index unat_of_nat32)
qed

lemma frame_addr_div:
  fixes idx :: u32
  assumes "unat idx < 2 ^ 20"
  shows "idx * 0x1000 div 0x1000 = idx"
proof -
  have "unat (idx * 0x1000) = unat idx * 4096"
    using assms by (subst unat_mult_nowrap) simp_all
  then show ?thesis by (simp add: word_unat_eq_iff unat_div_distrib)
qed

lemma bitset_slots: "bitset_wf s \<Longrightarrow> unat (frames s) + 4 * unat (INDEX_FROM_BIT (nframes s)) \<le> 2 ^ 32"
  by (simp add: bitset_wf_def unat_index)

lemma and_single_bit: "w AND 2 ^ j = 0 \<longleftrightarrow> \<not> bit (w :: u32) j" if "j < 32"
proof
  assume "w AND 2 ^ j = 0"
  then have "\<not> bit (w AND 2 ^ j) j" by simp
  then show "\<not> bit w j" using that by (simp add: bit_simps)
next
  assume "\<not> bit w j"
  then show "w AND 2 ^ j = 0" by (intro bit_eqI) (auto simp: bit_simps)
qed

text \<open>Writing one word of the bitset changes the frames of that word only.\<close>

lemma frame_used_write:
  assumes wf: "bitset_wf s" and n: "unat n < nbits s" and g: "g < nbits s"
  shows "frame_used (s\<lparr>mem := write32 (frames s + 4 * INDEX_FROM_BIT n) v (mem s)\<rparr>) g
    = (if g div 32 = unat n div 32 then bit v (g mod 32) else frame_used s g)"
proof -
  have gl: "g div 32 < unat (nframes s) div 32"
    using g by (simp add: nbits_def less_mult_imp_div_less mult.commute)
  have g32: "g div 32 < 4294967296"
    using gl unat_lt32 [of "nframes s"] by (meson div_le_dividend le_less_trans less_trans)
  then have ug: "unat (of_nat (g div 32) :: u32) = g div 32" by (rule unat_of_nat32)
  then have gi: "of_nat (g div 32) < INDEX_FROM_BIT (nframes s)"
    using gl by (simp add: word_less_nat_alt unat_index)
  have eq: "of_nat (g div 32) = INDEX_FROM_BIT n \<longleftrightarrow> g div 32 = unat n div 32"
    using ug by (simp add: word_unat_eq_iff unat_index)
  show ?thesis
    using read32_write32_slot [OF bitset_slots [OF wf] index_less [OF n refl] gi, of v "mem s"] eq
    by (simp add: frame_used_def frame_word_def)
qed

lemma write_word_outside:
  assumes "bitset_wf s" "unat n < nbits s" "x \<notin> bitset_region s"
  shows "write32 (frames s + 4 * INDEX_FROM_BIT n) v m x = m x"
  using assms slot32_range [OF bitset_slots [OF assms(1)] index_less [OF assms(2) refl]]
  by (intro write32_outside) (auto simp: bitset_region_def unat_index simp del: addr_range_code)

lemma set_frame_used:
  assumes "bitset_wf s" "unat idx < nbits s" "g < nbits s"
  shows "frame_used (set_frame (idx * 0x1000) s) g \<longleftrightarrow> g = unat idx \<or> frame_used s g"
proof -
  have idx: "unat idx < 2 ^ 20" using assms by (auto simp: bitset_wf_def nbits_def)
  have split: "g = unat idx \<longleftrightarrow> g div 32 = unat idx div 32 \<and> g mod 32 = unat idx mod 32"
    by (metis div_mult_mod_eq)
  have own: "g div 32 = unat idx div 32 \<Longrightarrow> frame_used s g = bit (frame_word (INDEX_FROM_BIT idx) s) (g mod 32)"
    by (simp add: frame_used_def index_of_nat [OF refl])
  show ?thesis
    unfolding set_frame_def Let_def frame_addr_div [OF idx] frame_used_write [OF assms] split
    using own by (auto simp: bit_simps unat_offset)
qed

lemma clear_frame_used:
  assumes "bitset_wf s" "unat a div 4096 < nbits s" "g < nbits s"
  shows "frame_used (clear_frame a s) g \<longleftrightarrow> g \<noteq> unat a div 4096 \<and> frame_used s g"
proof -
  have u: "unat (a div 0x1000) = unat a div 4096" by (simp add: unat_div_distrib)
  then have n: "unat (a div 0x1000) < nbits s" using assms(2) by simp
  have split: "g = unat a div 4096
      \<longleftrightarrow> g div 32 = unat (a div 0x1000) div 32 \<and> g mod 32 = unat (a div 0x1000) mod 32"
    unfolding u by (metis div_mult_mod_eq)
  have own: "g div 32 = unat (a div 0x1000) div 32
      \<Longrightarrow> frame_used s g = bit (frame_word (INDEX_FROM_BIT (a div 0x1000)) s) (g mod 32)"
    by (simp add: frame_used_def index_of_nat [OF refl])
  show ?thesis
    unfolding clear_frame_def Let_def frame_used_write [OF assms(1) n assms(3)] split
    using own by (auto simp: bit_simps unat_offset)
qed

lemma test_frame_used:
  assumes "unat idx < 2 ^ 20"
  shows "test_frame (idx * 0x1000) s \<noteq> 0 \<longleftrightarrow> frame_used s (unat idx)"
  unfolding test_frame_def Let_def frame_addr_div [OF assms] frame_used_def
  by (simp add: and_single_bit unat_offset index_of_nat [OF refl])

lemma zero_bit_spec:
  "case zero_bit j w of
     Some k \<Rightarrow> j \<le> k \<and> k < 32 \<and> \<not> bit w k \<and> (\<forall>i. j \<le> i \<and> i < k \<longrightarrow> bit w i)
   | None \<Rightarrow> \<forall>i. j \<le> i \<and> i < 32 \<longrightarrow> bit w i"
proof (induction j w rule: zero_bit.induct)
  case (1 j w)
  show ?case
  proof (cases "j < 32 \<and> bit w j")
    case True
    then have "zero_bit j w = zero_bit (j + 1) w"
      by (subst zero_bit.simps) (simp add: and_single_bit)
    moreover have "\<And>i. j \<le> i \<longleftrightarrow> i = j \<or> j + 1 \<le> i" by auto
    ultimately show ?thesis
      using "1.IH" True by (auto simp: and_single_bit split: option.splits)
  next
    case False
    then show ?thesis by (subst zero_bit.simps) (auto simp: and_single_bit)
  qed
qed

lemma frame_used_index:
  assumes "k < 32" "i < INDEX_FROM_BIT (nframes s)"
  shows "frame_used s (32 * unat i + k) \<longleftrightarrow> bit (frame_word i s) k"
  using assms by (simp add: frame_used_def)

text \<open>One round of the outer loop: a word of used frames is skipped, otherwise its first free
  frame is returned.\<close>

lemma first_frame_round:
  assumes i: "i < INDEX_FROM_BIT (nframes s)"
  shows "(\<forall>k<32. frame_used s (32 * unat i + k)) \<and> first_frame_from i s = first_frame_from (i + 1) s
    \<or> (\<exists>j<32. \<not> frame_used s (32 * unat i + j) \<and> (\<forall>k<j. frame_used s (32 * unat i + k))
        \<and> first_frame_from i s = of_nat (32 * unat i + j))"
proof (cases "zero_bit 0 (frame_word i s)")
  case None
  then have "first_frame_from i s = first_frame_from (i + 1) s"
    using i by (subst first_frame_from.simps) simp
  then show ?thesis
    using zero_bit_spec [of 0 "frame_word i s"] None frame_used_index [OF _ i] by simp
next
  case (Some j)
  then have j: "j < 32" "\<not> bit (frame_word i s) j" "\<forall>k<j. bit (frame_word i s) k"
    using zero_bit_spec [of 0 "frame_word i s"] by auto
  have ones: "(0xFFFFFFFF :: u32) = mask 32" by (simp add: mask_eq_exp_minus_1)
  have "bit (0xFFFFFFFF :: u32) j" unfolding ones using j(1) by (simp add: bit_mask_iff)
  then have "frame_word i s \<noteq> 0xFFFFFFFF" using j(2) by auto
  then have "first_frame_from i s = of_nat (32 * unat i + j)"
    using i Some by (subst first_frame_from.simps) simp
  then show ?thesis using j frame_used_index [OF _ i] by auto
qed

definition first_free_from :: "nat \<Rightarrow> 'a paging_scheme \<Rightarrow> u32 \<Rightarrow> bool" where
  "first_free_from lo s r \<longleftrightarrow>
     (\<exists>f. lo \<le> f \<and> f < nbits s \<and> \<not> frame_used s f \<and> (\<forall>g. lo \<le> g \<and> g < f \<longrightarrow> frame_used s g) \<and> r = of_nat f)
     \<or> (\<forall>f. lo \<le> f \<and> f < nbits s \<longrightarrow> frame_used s f) \<and> r = -1"

lemma first_free_from_skip:
  assumes "\<forall>k<32. frame_used s (lo + k)" "first_free_from (lo + 32) s r"
  shows "first_free_from lo s r"
proof -
  have used: "frame_used s g" if "lo \<le> g" "\<not> lo + 32 \<le> g" for g
    using assms(1) [rule_format, of "g - lo"] that by simp
  from assms(2) show ?thesis unfolding first_free_from_def
  proof (elim disjE exE)
    fix f assume f: "lo + 32 \<le> f \<and> f < nbits s \<and> \<not> frame_used s f
        \<and> (\<forall>g. lo + 32 \<le> g \<and> g < f \<longrightarrow> frame_used s g) \<and> r = of_nat f"
    have "\<forall>g. lo \<le> g \<and> g < f \<longrightarrow> frame_used s g" using f used by blast
    then show "(\<exists>f. lo \<le> f \<and> f < nbits s \<and> \<not> frame_used s f
          \<and> (\<forall>g. lo \<le> g \<and> g < f \<longrightarrow> frame_used s g) \<and> r = of_nat f)
        \<or> (\<forall>f. lo \<le> f \<and> f < nbits s \<longrightarrow> frame_used s f) \<and> r = -1"
      using f by (intro disjI1 exI [of _ f]) simp
  next
    assume "(\<forall>f. lo + 32 \<le> f \<and> f < nbits s \<longrightarrow> frame_used s f) \<and> r = -1"
    then show "(\<exists>f. lo \<le> f \<and> f < nbits s \<and> \<not> frame_used s f
          \<and> (\<forall>g. lo \<le> g \<and> g < f \<longrightarrow> frame_used s g) \<and> r = of_nat f)
        \<or> (\<forall>f. lo \<le> f \<and> f < nbits s \<longrightarrow> frame_used s f) \<and> r = -1"
      using used by blast
  qed
qed

lemma first_frame_from_spec: "first_free_from (32 * unat i) s (first_frame_from i s)"
proof (induction "unat (INDEX_FROM_BIT (nframes s)) - unat i" arbitrary: i rule: less_induct)
  case less
  show ?case
  proof (cases "i < INDEX_FROM_BIT (nframes s)")
    case True
    have suc: "unat (i + 1) = Suc (unat i)" by (rule unat_Suc32 [OF True])
    have nb: "32 * unat i + 32 \<le> nbits s"
      using True by (simp add: word_less_nat_alt unat_index nbits_def)
    have "first_free_from (32 * unat (i + 1)) s (first_frame_from (i + 1) s)"
      using True suc by (intro less) (auto simp: word_less_nat_alt)
    moreover have "32 * unat (i + 1) = 32 * unat i + 32" by (simp add: suc)
    ultimately have IH: "first_free_from (32 * unat i + 32) s (first_frame_from (i + 1) s)"
      by (simp only:)
    consider "\<forall>k<32. frame_used s (32 * unat i + k)" "first_frame_from i s = first_frame_from (i + 1) s"
      | j where "j < 32" "\<not> frame_used s (32 * unat i + j)" "\<forall>k<j. frame_used s (32 * unat i + k)"
        "first_frame_from i s = of_nat (32 * unat i + j)"
      using first_frame_round [OF True] by blast
    then show ?thesis
    proof cases
      case 1
      then show ?thesis using first_free_from_skip IH by simp
    next
      case 2
      have "frame_used s g" if "32 * unat i \<le> g" "g < 32 * unat i + j" for g
        using 2(3) [rule_format, of "g - 32 * unat i"] that by simp
      then show ?thesis unfolding first_free_from_def using 2 nb
        by (intro disjI1 exI [of _ "32 * unat i + j"]) auto
    qed
  next
    case False
    then have "\<not> (32 * unat i \<le> f \<and> f < nbits s)" for f
      by (auto simp: word_less_nat_alt unat_index nbits_def)
    then show ?thesis using False unfolding first_free_from_def by (subst (1 2) first_frame_from.simps) auto
  qed
qed

section \<open>Allocating a frame\<close>

definition page_apart :: "'a paging_scheme \<Rightarrow> u32 \<Rightarrow> bool" where
  "page_apart s p \<longleftrightarrow> addr_range p 4 \<inter> bitset_region s = {}"

lemma frame_used_cong:
  assumes "nframes s' = nframes s" "frames s' = frames s" "bitset_wf s" "f < nbits s"
    and "\<And>x. x \<in> bitset_region s \<Longrightarrow> mem s' x = mem s x"
  shows "frame_used s' f = frame_used s f"
proof -
  have fl: "f div 32 < unat (nframes s) div 32"
    using assms(4) by (simp add: nbits_def less_mult_imp_div_less mult.commute)
  have f32: "f div 32 < 4294967296"
    using fl unat_lt32 [of "nframes s"] by (meson div_le_dividend le_less_trans less_trans)
  have "(of_nat (f div 32) :: u32) < INDEX_FROM_BIT (nframes s)"
    using fl by (simp add: word_less_nat_alt unat_index unat_of_nat32 [OF f32])
  from slot32_range [OF bitset_slots [OF assms(3)] this]
  have "addr_range (frames s + 4 * of_nat (f div 32)) 4 \<subseteq> bitset_region s"
    by (simp only: bitset_region_def unat_index)
  then have "read32 (mem s') (frames s + 4 * of_nat (f div 32)) = read32 (mem s) (frames s + 4 * of_nat (f div 32))"
    by (intro read32_cong assms(5)) blast
  then show ?thesis using assms(2) by (simp add: frame_used_def frame_word_def)
qed

lemma set_page_simps [simp]:
  "nframes (set_page p pg s) = nframes s" "frames (set_page p pg s) = frames s"
  "mem (set_page p pg s) = write32 p (page_bits pg) (mem s)"
  by (simp_all add: set_page_def)

lemma set_frame_simps [simp]:
  "nframes (set_frame a s) = nframes s" "frames (set_frame a s) = frames s"
  by (simp_all add: set_frame_def Let_def)

lemma frame_used_set_page:
  assumes "bitset_wf s" "page_apart s p" "f < nbits s"
  shows "frame_used (set_page p pg s) f = frame_used s f"
proof (rule frame_used_cong [OF _ _ assms(1,3)])
  fix x assume "x \<in> bitset_region s"
  then have "x \<notin> addr_range p 4" using assms(2) unfolding page_apart_def by blast
  then show "mem (set_page p pg s) x = mem s x" by (simp add: write32_outside)
qed simp_all

lemma set_frame_outside:
  assumes "bitset_wf s" "unat idx < nbits s" "x \<notin> bitset_region s"
  shows "mem (set_frame (idx * 0x1000) s) x = mem s x"
proof -
  have "unat idx < 2 ^ 20" using assms by (auto simp: bitset_wf_def nbits_def)
  then show ?thesis
    using write_word_outside [OF assms] by (simp add: set_frame_def Let_def frame_addr_div)
qed

lemma page_at_cong: "(\<And>x. x \<in> addr_range p 4 \<Longrightarrow> mem s' x = mem s x) \<Longrightarrow> page_at s' p = page_at s p"
  unfolding page_at_def by (subst read32_cong) auto

text \<open>What a page entry becomes when it is given the frame \<open>f\<close>.\<close>

definition mapped_page :: "u32 \<Rightarrow> u32 \<Rightarrow> nat \<Rightarrow> vm_page \<Rightarrow> vm_page" where
  "mapped_page is_kernel is_writeable f pg = pg\<lparr>p_present := 1, p_frame := of_nat f,
     p_rw := (if is_writeable \<noteq> 0 then 1 else 0), p_user := (if is_kernel \<noteq> 0 then 0 else 1)\<rparr>"

lemma alloc_frame_step:
  assumes wf: "bitset_wf s" and apart: "page_apart s p" and new: "p_frame (page_at s p) = 0"
    and f: "f < nbits s" "\<not> frame_used s f" "\<And>g. g < f \<Longrightarrow> frame_used s g"
  obtains s' where "alloc_frame p k w s = Inr s'"
    and "nframes s' = nframes s" "frames s' = frames s"
    and "\<And>g. g < nbits s \<Longrightarrow> frame_used s' g \<longleftrightarrow> g = f \<or> frame_used s g"
    and "page_at s' p = mapped_page k w f (page_at s p)"
    and "\<And>x. x \<notin> addr_range p 4 \<union> bitset_region s \<Longrightarrow> mem s' x = mem s x"
proof -
  have f20: "f < 2 ^ 20" using f(1) wf by (auto simp: bitset_wf_def nbits_def)
  then have f32: "f < 4294967296" by simp
  have uf: "unat (of_nat f :: u32) = f" using f32 by (rule unat_of_nat32)
  have "first_free_from 0 s (first_frame s)" using first_frame_from_spec [of 0 s] by (simp add: first_frame_def)
  then have ff: "first_frame s = of_nat f" unfolding first_free_from_def
  proof (elim disjE exE)
    fix f' assume f': "0 \<le> f' \<and> f' < nbits s \<and> \<not> frame_used s f' \<and> (\<forall>g. 0 \<le> g \<and> g < f' \<longrightarrow> frame_used s g)
        \<and> first_frame s = of_nat f'"
    have "f' = f" using f' f(2,3) by (metis le0 linorder_neqE_nat)
    then show ?thesis using f' by simp
  qed (use f in auto)
  have nm: "(of_nat f :: u32) \<noteq> -1"
  proof
    assume eq: "(of_nat f :: u32) = -1"
    have "unat (-1 :: u32) = 4294967295" by (simp add: unsigned_minus_1_eq_mask mask_eq_exp_minus_1)
    then show False using uf eq f20 by simp
  qed
  define s1 where "s1 = set_frame (of_nat f * 0x1000) s"
  have fit: "unat (of_nat f :: u32) < nbits s" using uf f(1) by simp
  have same: "page_at s1 p = page_at s p"
  proof (rule page_at_cong)
    fix x assume "x \<in> addr_range p 4"
    then have "x \<notin> bitset_region s" using apart unfolding page_apart_def by blast
    then show "mem s1 x = mem s x" unfolding s1_def by (rule set_frame_outside [OF wf fit])
  qed
  have uc: "(ucast (of_nat f :: u32) :: 20 word) = of_nat f" by (simp add: unsigned_of_nat take_bit_nat_eq_self f32)
  define s' where "s' = set_page p (mapped_page k w f (page_at s p)) s1"
  have run: "alloc_frame p k w s = Inr s'"
    using new ff nm same uc by (simp add: alloc_frame_def Let_def s'_def mapped_page_def flip: s1_def)
  have wf1: "bitset_wf s1" "page_apart s1 p" "nbits s1 = nbits s"
    using wf apart by (simp_all add: s1_def bitset_wf_def page_apart_def bitset_region_def nbits_def)
  have used: "frame_used s' g \<longleftrightarrow> g = f \<or> frame_used s g" if "g < nbits s" for g
    using frame_used_set_page [OF wf1(1,2)] set_frame_used [OF wf fit that] that wf1(3) uf
    by (simp add: s'_def s1_def)
  have out: "mem s' x = mem s x" if "x \<notin> addr_range p 4 \<union> bitset_region s" for x
    using that set_frame_outside [OF wf fit, of x] by (simp add: s'_def s1_def write32_outside del: addr_range_code)
  have fields: "nframes s' = nframes s" "frames s' = frames s" by (simp_all add: s'_def s1_def)
  show thesis
    by (rule that [OF run fields used _ out]) (simp_all add: s'_def)
qed

lemma alloc_frame_no_free:
  assumes "p_frame (page_at s p) = 0" "\<And>f. f < nbits s \<Longrightarrow> frame_used s f"
  shows "alloc_frame p k w s = Inl (Panic ''No free frame.'')"
proof -
  have "first_free_from 0 s (first_frame s)" using first_frame_from_spec [of 0 s] by (simp add: first_frame_def)
  then have "first_frame s = -1" using assms(2) unfolding first_free_from_def by auto
  then show ?thesis using assms(1) by (simp add: alloc_frame_def)
qed

lemma alloc_frame_Inr:
  assumes "bitset_wf s" "page_apart s p" "p_frame (page_at s p) = 0" "alloc_frame p k w s = Inr s'"
  obtains f where "f < nbits s" "\<not> frame_used s f" "nframes s' = nframes s" "frames s' = frames s"
    "\<And>g. g < nbits s \<Longrightarrow> frame_used s' g \<longleftrightarrow> g = f \<or> frame_used s g"
    "page_at s' p = mapped_page k w f (page_at s p)"
    "\<And>x. x \<notin> addr_range p 4 \<union> bitset_region s \<Longrightarrow> mem s' x = mem s x"
proof -
  define f where "f = (LEAST f. f < nbits s \<and> \<not> frame_used s f)"
  have "\<exists>f. f < nbits s \<and> \<not> frame_used s f"
    using alloc_frame_no_free [OF assms(3)] assms(4) by fastforce
  from LeastI_ex [OF this] have f: "f < nbits s" "\<not> frame_used s f" by (simp_all add: f_def)
  have least: "frame_used s g" if "g < f" for g
    using not_less_Least [of g "\<lambda>f. f < nbits s \<and> \<not> frame_used s f"] that f(1) by (auto simp: f_def)
  show thesis
    by (rule alloc_frame_step [OF assms(1-3) f least, of k w])
      (use that [of f] f assms(4) in auto)
qed

section \<open>The interface to the allocator of page tables\<close>

text \<open>The page table and the physical address of a virtual address in the kernel's own directory, the way the code reads them.\<close>

definition kernel_table :: "'a paging_scheme \<Rightarrow> u32 \<Rightarrow> u32" where
  "kernel_table s va = read32 (mem s) (pd_tables (kernel_directory s) (va div 0x1000 div 1024))"

definition kernel_phys :: "'a paging_scheme \<Rightarrow> u32 \<Rightarrow> u32" where
  "kernel_phys s va =
     (let t = kernel_table s va
      in ucast (p_frame (page_at s (if t = 0 then 0 else pt_pages t (va div 0x1000 mod 1024)))) * 0x1000 + (va AND 0xFFF))"

text \<open>
  What \<open>get_page\<close> needs of \<open>kmalloc0_ap\<close>: in a state that is ready for the memory below \<open>b\<close>, a new table
  is page-aligned, zero, at or above \<open>b\<close>, its physical address is the one \<open>placed\<close> states, and nothing below \<open>b\<close> changes.
\<close>

locale table_allocator =
  fixes kz :: "u32 \<Rightarrow> 'a paging_scheme \<Rightarrow> kerror + u32 \<times> u32 \<times> 'a paging_scheme"
    and ready :: "nat \<Rightarrow> 'a paging_scheme \<Rightarrow> bool"
    and placed :: "nat \<Rightarrow> 'a paging_scheme \<Rightarrow> u32 \<Rightarrow> u32 \<Rightarrow> bool"
  assumes fresh: "ready b s \<Longrightarrow> \<exists>addr phys s'. kz SIZEOF_vm_page_table s = Inr (addr, phys, s')
      \<and> b \<le> unat addr \<and> unat addr + 4096 \<le> 2 ^ 32 \<and> unat addr mod 4096 = 0 \<and> placed b s addr phys
      \<and> (\<forall>x. unat addr \<le> unat x \<and> unat x < unat addr + 4096 \<longrightarrow> mem s' x = 0)
      \<and> (\<forall>x. unat x < b \<longrightarrow> mem s' x = mem s x)"
begin

lemma get_page_creates:
  assumes "ready b s" "unat dir + 8196 \<le> b" "read32 (mem s) (pd_tables dir (a div 0x1000 div 1024)) = 0"
  shows "\<exists>tbl phys s'. get_page kz a True dir s = Inr (pt_pages tbl (a div 0x1000 mod 1024), s')
    \<and> tbl \<noteq> 0 \<and> unat tbl mod 4096 = 0 \<and> placed b s tbl phys
    \<and> read32 (mem s') (pd_tables dir (a div 0x1000 div 1024)) = tbl
    \<and> read32 (mem s') (pd_tblphys dir (a div 0x1000 div 1024)) = phys OR 0x7
    \<and> (\<forall>j < 1024. read32 (mem s') (pt_pages tbl j) = 0)
    \<and> (\<forall>i < 1024. i \<noteq> a div 0x1000 div 1024 \<longrightarrow> read32 (mem s') (pd_tables dir i) = read32 (mem s) (pd_tables dir i)
        \<and> read32 (mem s') (pd_tblphys dir i) = read32 (mem s) (pd_tblphys dir i))"
proof -
  let ?i = "a div 0x1000 div 1024 :: u32"
  obtain tbl phys s1 where f: "kz SIZEOF_vm_page_table s = Inr (tbl, phys, s1)" "b \<le> unat tbl"
    "unat tbl + 4096 \<le> 2 ^ 32" "unat tbl mod 4096 = 0 \<and> placed b s tbl phys"
    "\<forall>x. unat tbl \<le> unat x \<and> unat x < unat tbl + 4096 \<longrightarrow> mem s1 x = 0"
    "\<forall>x. unat x < b \<longrightarrow> mem s1 x = mem s x"
    using fresh [OF assms(1)] by (elim exE conjE) metis
  have dir: "unat dir + 4 * unat (1024 :: u32) \<le> 2 ^ 32" "unat dir + 8196 \<le> unat tbl"
    using assms(2) f(2,3) by simp_all
  have ui: "unat ?i < 1024"
    using unat_lt32 [of a] by (simp add: unat_div_distrib div_mult2_eq [symmetric] less_mult_imp_div_less)
  then have i: "?i < 1024" by (simp add: word_less_nat_alt)
  have slot: "unat (pd_tables dir j) = unat dir + 4 * unat j" if "j < 1024" for j
    unfolding pd_tables_def by (rule slot32_unat [OF dir(1) that])
  have "unat (dir + 1024 * 4) = unat dir + 4096" using dir(2) f(3) by (subst unat_add_nowrap) simp_all
  then have top: "unat (dir + 1024 * 4) + 4 * unat (1024 :: u32) \<le> 2 ^ 32"
    and base: "unat (dir + 1024 * 4) = unat dir + 4096" using dir(2) f(3) by simp_all
  have phys_slot: "unat (pd_tblphys dir j) = unat dir + 4096 + 4 * unat j" if "j < 1024" for j
    unfolding pd_tblphys_def using slot32_unat [OF top that] base by simp
  note phy = phys_slot [OF i]
  define m2 where "m2 = write32 (pd_tables dir ?i) tbl (mem s1)"
  define m3 where "m3 = write32 (pd_tblphys dir ?i) (phys OR 0x7) m2"
  have small: "unat j < 1024" if "j < 1024" for j :: u32 using that by (simp add: word_less_nat_alt)
  have low: "read32 m3 (pd_tables dir j) = (if j = ?i then tbl else read32 (mem s) (pd_tables dir j))" if "j < 1024" for j
  proof -
    have "read32 m3 (pd_tables dir j) = read32 m2 (pd_tables dir j)"
      unfolding m3_def using slot [OF that] phy small [OF that] ui dir(2) f(3)
      by (intro read32_write32_apart) simp
    also have "\<dots> = (if j = ?i then tbl else read32 (mem s1) (pd_tables dir j))"
      unfolding m2_def pd_tables_def by (rule read32_write32_slot [OF dir(1) i that])
    also have "read32 (mem s1) (pd_tables dir j) = read32 (mem s) (pd_tables dir j)"
    proof (rule read32_cong, rule f(6) [rule_format])
      fix x assume "x \<in> addr_range (pd_tables dir j) 4"
      moreover have "unat (pd_tables dir j) + 4 \<le> 2 ^ 32" using slot [OF that] small [OF that] dir by simp
      ultimately have "unat x < unat (pd_tables dir j) + 4" using addr_range_nowrap by blast
      then show "unat x < b" using slot [OF that] small [OF that] assms(2) by simp
    qed
    finally show ?thesis .
  qed
  have high: "read32 m3 (pd_tblphys dir j) = (if j = ?i then phys OR 0x7 else read32 (mem s) (pd_tblphys dir j))" if "j < 1024" for j
  proof -
    have "read32 m3 (pd_tblphys dir j) = (if j = ?i then phys OR 0x7 else read32 m2 (pd_tblphys dir j))"
      unfolding m3_def pd_tblphys_def by (rule read32_write32_slot [OF top i that])
    also have "read32 m2 (pd_tblphys dir j) = read32 (mem s1) (pd_tblphys dir j)"
      unfolding m2_def using slot [OF i] phys_slot [OF that] small [OF that] ui dir(2) f(3)
      by (intro read32_write32_apart) simp
    also have "read32 (mem s1) (pd_tblphys dir j) = read32 (mem s) (pd_tblphys dir j)"
    proof (rule read32_cong, rule f(6) [rule_format])
      fix x assume "x \<in> addr_range (pd_tblphys dir j) 4"
      moreover have "unat (pd_tblphys dir j) + 4 \<le> 2 ^ 32" using phys_slot [OF that] small [OF that] dir(2) f(3) by simp
      ultimately have "unat x < unat (pd_tblphys dir j) + 4" using addr_range_nowrap by blast
      then show "unat x < b" using phys_slot [OF that] small [OF that] assms(2) by simp
    qed
    finally show ?thesis .
  qed
  have zero: "read32 m3 (pt_pages tbl j) = 0" if "j < 1024" for j
  proof -
    have t: "unat tbl + 4 * unat (1024 :: u32) \<le> 2 ^ 32" using f(3) by simp
    have e: "unat (pt_pages tbl j) = unat tbl + 4 * unat j" "unat (pt_pages tbl j) + 4 \<le> 2 ^ 32"
      unfolding pt_pages_def using slot32_unat [OF t that] slot32_end(2) [OF t that] .
    have "read32 m3 (pt_pages tbl j) = read32 m2 (pt_pages tbl j)"
      unfolding m3_def using e phy ui dir(2) by (intro read32_write32_apart) simp
    also have "\<dots> = read32 (mem s1) (pt_pages tbl j)"
      unfolding m2_def using e slot [OF i] ui dir(2) by (intro read32_write32_apart) simp
    also have "\<dots> = 0"
    proof (rule read32_zero, rule f(5) [rule_format], intro conjI)
      fix x assume "x \<in> addr_range (pt_pages tbl j) 4"
      then have "unat (pt_pages tbl j) \<le> unat x \<and> unat x < unat (pt_pages tbl j) + 4"
        using addr_range_nowrap [OF e(2)] by blast
      then show "unat tbl \<le> unat x" "unat x < unat tbl + 4096" using e(1) small [OF that] by simp_all
    qed
    finally show ?thesis .
  qed
  have run: "get_page kz a True dir s = Inr (pt_pages tbl (a div 0x1000 mod 1024), s1\<lparr>mem := m3\<rparr>)"
    using assms(3) f(1) low [OF i] by (simp add: get_page_def Let_def m2_def m3_def)
  have "tbl \<noteq> 0" using dir(2) by auto
  then show ?thesis
    using run low zero high low [OF i] high [OF i] f(4)
    by (intro exI [of _ tbl] exI [of _ phys] exI [of _ "s1\<lparr>mem := m3\<rparr>"]) simp
qed

end

section \<open>Properties\<close>

text \<open>A state for examples: no page tables, every frame of 16 MB free.\<close>

definition boot_paging :: paging where
  "boot_paging = descr.extend boot_descr
     \<lparr>frames = 0x300000, nframes = 4096, kernel_directory = 0x301000, current_directory = 0,
      cr0 = 0x11, cr2 = 0, cr3 = 0\<rparr>"

lemma boot_paging_simps [simp]:
  "mem boot_paging = (\<lambda>_. 0)" "frames boot_paging = 0x300000" "nframes boot_paging = 4096"
  "kernel_directory boot_paging = 0x301000"
  by (simp_all add: boot_paging_def descr.extend_def boot_descr_def)

lemma read32_zeros [simp]: "read32 (\<lambda>_. 0) a = 0"
  by (rule read32_zero) simp

lemma boot_paging_wf:
  "bitset_wf boot_paging" "nbits boot_paging = 4096" "\<not> frame_used boot_paging f"
  "p_frame (page_at boot_paging p) = 0"
  by (simp_all add: bitset_wf_def nbits_def frame_used_def frame_word_def page_at_def page_of_def)

lemma boot_page_apart:
  assumes "unat p + 4 \<le> 0x300000"
  shows "page_apart boot_paging p"
  unfolding page_apart_def bitset_region_def using assms by (intro addr_range_disjoint) simp_all

text \<open>
  The bit-fields of a page-table entry and its 32-bit word determine each
  other: every entry read back from its word is the entry, and every word is the word of its entry.
\<close>
theorem page_entry_roundtrip:
  "page_of (page_bits pg) = pg \<and> page_bits (page_of w) = w"
  by (simp add: page_of_bits page_bits_of)

text \<open>
  \<open>first_frame\<close> returns the least frame that is free in the bitset, and
  -1 exactly when there is none.
\<close>
theorem first_frame_least:
  "(\<exists>f < nbits s. \<not> frame_used s f \<and> (\<forall>g < f. frame_used s g) \<and> first_frame s = of_nat f)
    \<or> (\<forall>f < nbits s. frame_used s f) \<and> first_frame s = -1"
  using first_frame_from_spec [of 0 s] unfolding first_free_from_def first_frame_def by auto

theorem first_frame_least_witness: "first_frame boot_paging = 0"
proof -
  have some: "\<exists>f < nbits boot_paging. \<not> frame_used boot_paging f"
    by (rule exI [of _ 0]) (simp add: boot_paging_wf)
  have "f = 0" if "\<forall>g < f. frame_used boot_paging g" for f
    using that boot_paging_wf(3) [of 0] by (cases f) simp_all
  then show ?thesis using first_frame_least [of boot_paging] some by fastforce
qed

text \<open>
  C17: For a page without a frame, \<open>alloc_frame\<close> marks exactly the least free
  frame as used and writes it to the entry with the present, write and user bits of the call; no
  memory outside the entry and the bitset changes.
\<close>
theorem alloc_frame_takes_least:
  assumes "bitset_wf s" "page_apart s p" "p_frame (page_at s p) = 0"
    and "f < nbits s" "\<not> frame_used s f" "\<forall>g < f. frame_used s g"
  shows "\<exists>s'. alloc_frame p is_kernel is_writeable s = Inr s'
    \<and> (\<forall>g < nbits s. frame_used s' g \<longleftrightarrow> g = f \<or> frame_used s g)
    \<and> page_at s' p = mapped_page is_kernel is_writeable f (page_at s p)
    \<and> (\<forall>x. x \<notin> addr_range p 4 \<union> bitset_region s \<longrightarrow> mem s' x = mem s x)"
proof -
  from assms(6) have least: "\<And>g. g < f \<Longrightarrow> frame_used s g" by blast
  show ?thesis
    by (rule alloc_frame_step [OF assms(1-5) least, of is_kernel is_writeable]) blast+
qed

theorem alloc_frame_takes_least_witness:
  "\<exists>s'. alloc_frame 0x200000 0 1 boot_paging = Inr s' \<and> frame_used s' 0 \<and> \<not> frame_used s' 1
    \<and> p_present (page_at s' 0x200000) = 1"
proof -
  have "page_apart boot_paging 0x200000" by (rule boot_page_apart) simp
  from alloc_frame_takes_least [OF boot_paging_wf(1) this boot_paging_wf(4), of 0 0 1]
  show ?thesis using boot_paging_wf by (auto simp: mapped_page_def)
qed

text \<open>
  When every frame of the bitset is used, giving a frame to a page that has
  none panics with the message of the code, and nothing is written.
\<close>
theorem alloc_frame_exhausted:
  assumes "p_frame (page_at s p) = 0" "\<forall>f < nbits s. frame_used s f"
  shows "alloc_frame p is_kernel is_writeable s = Inl (Panic ''No free frame.'')"
  by (rule alloc_frame_no_free) (use assms in auto)

theorem alloc_frame_exhausted_witness:
  "alloc_frame 0x200000 0 0 (boot_paging\<lparr>nframes := 31\<rparr>) = Inl (Panic ''No free frame.'')"
  by (rule alloc_frame_exhausted) (simp_all add: nbits_def page_at_def page_of_def)

text \<open>
  Two page entries that do not overlap are given different frames, both of them
  free before and used afterwards.
\<close>
theorem alloc_frame_disjoint:
  assumes "bitset_wf s" "page_apart s p" "page_apart s q" "addr_range p 4 \<inter> addr_range q 4 = {}"
    and "p_frame (page_at s p) = 0" "p_frame (page_at s q) = 0"
    and "alloc_frame p k w s = Inr s1" "alloc_frame q k' w' s1 = Inr s2"
  shows "\<exists>f g. f \<noteq> g \<and> f < nbits s \<and> g < nbits s \<and> \<not> frame_used s f \<and> \<not> frame_used s g
    \<and> frame_used s2 f \<and> frame_used s2 g
    \<and> p_frame (page_at s2 p) = of_nat f \<and> p_frame (page_at s2 q) = of_nat g"
proof -
  obtain f where f: "f < nbits s" "\<not> frame_used s f" "nframes s1 = nframes s" "frames s1 = frames s"
    "\<And>g. g < nbits s \<Longrightarrow> frame_used s1 g \<longleftrightarrow> g = f \<or> frame_used s g"
    "page_at s1 p = mapped_page k w f (page_at s p)"
    "\<And>x. x \<notin> addr_range p 4 \<union> bitset_region s \<Longrightarrow> mem s1 x = mem s x"
    using alloc_frame_Inr [OF assms(1,2,5,7)] by metis
  have s1: "bitset_wf s1" "page_apart s1 p" "page_apart s1 q" "nbits s1 = nbits s" "bitset_region s1 = bitset_region s"
    using assms f(3,4) by (simp_all add: bitset_wf_def page_apart_def bitset_region_def nbits_def)
  have "page_at s1 q = page_at s q"
    by (rule page_at_cong, rule f(7)) (use assms(3,4) in \<open>unfold page_apart_def, blast\<close>)
  with assms(6) have "p_frame (page_at s1 q) = 0" by simp
  then obtain g where g: "g < nbits s1" "\<not> frame_used s1 g"
    "\<And>h. h < nbits s1 \<Longrightarrow> frame_used s2 h \<longleftrightarrow> h = g \<or> frame_used s1 h"
    "page_at s2 q = mapped_page k' w' g (page_at s1 q)"
    "\<And>x. x \<notin> addr_range q 4 \<union> bitset_region s1 \<Longrightarrow> mem s2 x = mem s1 x"
    using alloc_frame_Inr [OF s1(1,3) _ assms(8)] by metis
  have "page_at s2 p = page_at s1 p"
    by (rule page_at_cong, rule g(5)) (use s1(2) assms(4) in \<open>unfold page_apart_def, blast\<close>)
  then show ?thesis
    using f(1,2,5,6) g(1-4) s1(4) by (intro exI [of _ f] exI [of _ g]) (auto simp: mapped_page_def)
qed

theorem alloc_frame_disjoint_witness:
  "\<exists>s1 s2. alloc_frame 0x200000 0 0 boot_paging = Inr s1 \<and> alloc_frame 0x200004 0 0 s1 = Inr s2
    \<and> p_frame (page_at s2 0x200000) \<noteq> p_frame (page_at s2 0x200004)"
proof -
  have a: "page_apart boot_paging 0x200000" "page_apart boot_paging 0x200004"
    by (simp_all add: boot_page_apart)
  have d: "addr_range 0x200000 4 \<inter> addr_range 0x200004 4 = {}"
    by (rule addr_range_disjoint) simp_all
  obtain s1 where s1: "alloc_frame 0x200000 0 0 boot_paging = Inr s1" "nframes s1 = 4096" "frames s1 = 0x300000"
    "\<And>g. g < 4096 \<Longrightarrow> frame_used s1 g \<longleftrightarrow> g = 0"
    "\<And>x. x \<notin> addr_range 0x200000 4 \<union> bitset_region boot_paging \<Longrightarrow> mem s1 x = 0"
    by (rule alloc_frame_step [OF boot_paging_wf(1) a(1) boot_paging_wf(4), of 0 0 0])
      (use boot_paging_wf in auto)
  have "page_at s1 0x200004 = page_at boot_paging 0x200004"
  proof (rule page_at_cong)
    fix x assume "x \<in> addr_range 0x200004 4"
    then have "x \<notin> addr_range 0x200000 4 \<union> bitset_region boot_paging"
      using a(2) d unfolding page_apart_def by blast
    then show "mem s1 x = mem boot_paging x" using s1(5) by simp
  qed
  then have q: "p_frame (page_at s1 0x200004) = 0" using boot_paging_wf(4) by simp
  have w: "bitset_wf s1" "page_apart s1 0x200004" "nbits s1 = 4096"
    using boot_paging_wf(1) a(2) s1(2,3)
    by (simp_all add: bitset_wf_def page_apart_def bitset_region_def nbits_def)
  have u: "\<not> frame_used s1 1" "\<And>g. g < 1 \<Longrightarrow> frame_used s1 g" using s1(4) by simp_all
  obtain s2 where s2: "alloc_frame 0x200004 0 0 s1 = Inr s2"
    by (rule alloc_frame_step [OF w(1,2) q _ u, of 0 0]) (use w in simp_all)
  obtain f g where fg: "f \<noteq> g" "f < 4096" "g < 4096"
    "p_frame (page_at s2 0x200000) = of_nat f" "p_frame (page_at s2 0x200004) = of_nat g"
    using alloc_frame_disjoint [OF boot_paging_wf(1) a d boot_paging_wf(4) boot_paging_wf(4) s1(1) s2]
    unfolding boot_paging_wf(2) by blast
  have "unat (of_nat f :: 20 word) = f" "unat (of_nat g :: 20 word) = g" using fg(2,3) by (simp_all add: unat_of_nat)
  then show ?thesis using s1(1) s2 fg by (metis)
qed

text \<open>
  \<open>free_frame\<close> passes the number of the frame where \<open>clear_frame\<close> expects
  its address: the entry loses its frame, but the frame stays marked as used, and the bit that is
  cleared is that of frame number \<open>f div 4096\<close>, which another page may own. The present bit stays.
\<close>
theorem free_frame_keeps_own_frame:
  assumes "bitset_wf s" "page_apart s p" "unat (p_frame (page_at s p)) = f" "0 < f" "f < nbits s"
    and "frame_used s f"
  shows "p_frame (page_at (free_frame p s) p) = 0
    \<and> p_present (page_at (free_frame p s) p) = p_present (page_at s p)
    \<and> (\<forall>g < nbits s. frame_used (free_frame p s) g \<longleftrightarrow> g \<noteq> f div 4096 \<and> frame_used s g)
    \<and> frame_used (free_frame p s) f"
proof -
  define a :: u32 where "a = ucast (p_frame (page_at s p))"
  have "f < 2 ^ 20" using assms(1,5) by (auto simp: bitset_wf_def nbits_def)
  then have ua: "unat a = f" using assms(3) by (simp add: a_def unat_ucast_mod)
  have lt: "f div 4096 < f" using assms(4) by simp
  then have n: "unat a div 4096 < nbits s" using ua assms(5) by simp
  have u: "unat (a div 0x1000) = unat a div 4096" by (simp add: unat_div_distrib)
  define s1 where "s1 = clear_frame a s"
  have s1: "nframes s1 = nframes s" "frames s1 = frames s" by (simp_all add: s1_def clear_frame_def Let_def)
  then have w1: "bitset_wf s1" "page_apart s1 p" "nbits s1 = nbits s"
    using assms(1,2) by (simp_all add: bitset_wf_def page_apart_def bitset_region_def nbits_def)
  have "page_at s1 p = page_at s p"
  proof (rule page_at_cong)
    fix x assume "x \<in> addr_range p 4"
    then have "x \<notin> bitset_region s" using assms(2) unfolding page_apart_def by blast
    then show "mem s1 x = mem s x"
      using write_word_outside [OF assms(1), of "a div 0x1000" x] n u
      by (simp add: s1_def clear_frame_def Let_def)
  qed
  moreover have "p_frame (page_at s p) \<noteq> 0" using assms(3,4) by auto
  ultimately have run: "free_frame p s = set_page p ((page_at s p)\<lparr>p_frame := 0\<rparr>) s1"
    by (simp add: free_frame_def Let_def s1_def a_def)
  have "frame_used (free_frame p s) g \<longleftrightarrow> g \<noteq> f div 4096 \<and> frame_used s g" if "g < nbits s" for g
    using frame_used_set_page [OF w1(1,2)] clear_frame_used [OF assms(1) n that] that w1(3) ua
    by (simp add: run s1_def)
  then show ?thesis using assms(5,6) lt by (simp add: run)
qed

text \<open>The entry at address 0 owns frame 37, and the bitset marks exactly the frames 0 and 37.\<close>

definition one_page :: paging where
  "one_page = boot_paging\<lparr>mem := write32 0x300000 1 (write32 0x300004 0x20 (write32 0 0x25001 (\<lambda>_. 0)))\<rparr>"

theorem free_frame_keeps_own_frame_witness:
  "frame_used one_page 0 \<and> p_frame (page_at one_page 0) = 37
    \<and> \<not> frame_used (free_frame 0 one_page) 0 \<and> frame_used (free_frame 0 one_page) 37"
proof -
  have w: "bitset_wf one_page" "nbits one_page = 4096" using boot_paging_wf(1) by (simp_all add: one_page_def bitset_wf_def nbits_def)
  have a: "page_apart one_page 0"
    using boot_page_apart [of 0] by (simp add: one_page_def page_apart_def bitset_region_def)
  have p: "unat (p_frame (page_at one_page 0)) = 37"
    by (simp add: one_page_def page_at_def read32_write32_apart page_of_def)
  have u: "frame_used one_page 37" "frame_used one_page 0"
    by (simp_all add: one_page_def frame_used_def frame_word_def read32_write32_apart)
  have "p_frame (page_at one_page 0) = 37" using p by (simp add: word_unat_eq_iff)
  then show ?thesis
    using free_frame_keeps_own_frame [OF w(1) a p _ _ u(1)] u(2) w(2) by simp
qed

text \<open>
  The page-fault handler prints the fault and ends in a panic for every error code,
  so a faulting access is never retried.
\<close>
theorem page_fault_fatal: "page_fault_handler regs s = Inl (Panic ''Page fault'')"
proof -
  have fmt: "bytes '') at %x'' @ [10] = bytes '') at '' @ [37, 120] @ [10]"
    by (simp add: bytes_def of_char_def)
  have "37 \<notin> set (bytes '') at '')" "length (bytes '') at '') \<le> 100" by (simp_all add: bytes_def of_char_def)
  then have last: "\<exists>cs. printk (bytes '') at %x'' @ [10]) [Word w] s = Inr (screen_write cs s)" for w and s :: "'a paging_scheme"
    unfolding fmt using printk_hex [of "bytes '') at ''" "[10]" w s] by auto
  have plain: "\<exists>s'. printk (bytes msg) [] s = Inr s'"
    if "msg \<in> {''Page fault ('', ''present '', ''read-only '', ''user-mode '', ''reserved ''}" for msg and s :: "'a paging_scheme"
    using that printk_plain [of "bytes msg" s] by (auto simp: bytes_def of_char_def)
  have opt: "\<exists>s'. print_if c msg s = Inr s'"
    if "msg \<in> {''Page fault ('', ''present '', ''read-only '', ''user-mode '', ''reserved ''}" for c msg and s :: "'a paging_scheme"
    using plain [OF that, of s] by (simp add: print_if_def)
  have bind: "ebind r k = Inl e" if "\<exists>s'. r = Inr s'" "\<And>s'. k s' = Inl e" for r :: "kerror + 'a paging_scheme" and k and e :: kerror
    using that by auto
  show ?thesis unfolding page_fault_handler_def Let_def
    by (intro bind plain opt) (use last in auto)
qed

end
