(* ===== verification/Heap.thy ===== *)
theory Heap
  imports Paging
begin

text \<open>
  \<open>heap.c\<close> and \<open>kmalloc.c\<close>: the kernel heap. A heap is a run of blocks in memory, each with a
  header (\<open>hh_magic\<close>, \<open>hh_is_hole\<close>, \<open>hh_size\<close>) and a footer (\<open>hf_magic\<close>, \<open>hf_header\<close>), and a sorted
  array of the headers of the holes. \<open>struct vm_heap\<close> is the record \<open>vm_heap\<close>; the heaps are kept
  in a store indexed by their address. The recursion of the code \<open>alloc\<close>, \<open>expand\<close>, \<open>get_page\<close>,
  \<open>kmalloc0_ap\<close>, \<open>alloc\<close> is cut in two: \<open>_kmalloc\<close> takes the \<open>alloc\<close> it calls as an argument, and
  \<open>alloc\<close> counts the depth of its own recursion.
\<close>

record vm_heap =
  h_index :: sorted_array
  h_addr_start :: u32
  h_addr_end :: u32
  h_addr_max :: u32
  h_su :: u32
  h_ro :: u32

record kmem = paging +
  placement_address :: u32
  kernel_heap :: u32
  heaps :: "u32 \<Rightarrow> vm_heap"

definition VM_KERN_HEAP_START :: u32 where "VM_KERN_HEAP_START = 0xC0000000"
definition VM_KERN_HEAP_INITIAL_SIZE :: u32 where "VM_KERN_HEAP_INITIAL_SIZE = 0x100000"
definition VM_HEAP_INDEX_SIZE :: u32 where "VM_HEAP_INDEX_SIZE = 0x20000"
definition VM_HEAP_HDR_MAGIC :: u32 where "VM_HEAP_HDR_MAGIC = 0x123890AB"
definition VM_HEAP_FTR_MAGIC :: u32 where "VM_HEAP_FTR_MAGIC = 0xBA098321"
definition VM_HEAP_MIN_SIZE :: u32 where "VM_HEAP_MIN_SIZE = 0x70000"

lemmas heap_consts = VM_KERN_HEAP_START_def VM_KERN_HEAP_INITIAL_SIZE_def VM_HEAP_INDEX_SIZE_def
  VM_HEAP_HDR_MAGIC_def VM_HEAP_FTR_MAGIC_def VM_HEAP_MIN_SIZE_def

text \<open>\<open>sizeof\<close> of \<open>struct vm_heap_header\<close>, \<open>struct vm_heap_footer\<close> and \<open>struct vm_heap\<close>.\<close>

definition SIZEOF_header :: u32 where "SIZEOF_header = 12"
definition SIZEOF_footer :: u32 where "SIZEOF_footer = 8"
definition SIZEOF_vm_heap :: u32 where "SIZEOF_vm_heap = 36"

lemmas sizeof_defs = SIZEOF_header_def SIZEOF_footer_def SIZEOF_vm_heap_def

section \<open>Headers and footers\<close>

definition hh_magic :: "mem \<Rightarrow> u32 \<Rightarrow> u32" where "hh_magic m a = read32 m a"
definition hh_is_hole :: "mem \<Rightarrow> u32 \<Rightarrow> u32" where "hh_is_hole m a = read32 m (a + 4)"
definition hh_size :: "mem \<Rightarrow> u32 \<Rightarrow> u32" where "hh_size m a = read32 m (a + 8)"
definition hf_magic :: "mem \<Rightarrow> u32 \<Rightarrow> u32" where "hf_magic m a = read32 m a"
definition hf_header :: "mem \<Rightarrow> u32 \<Rightarrow> u32" where "hf_header m a = read32 m (a + 4)"

definition set_hh_size :: "u32 \<Rightarrow> u32 \<Rightarrow> mem \<Rightarrow> mem" where
  "set_hh_size a v m = write32 (a + 8) v m"

definition set_hh_is_hole :: "u32 \<Rightarrow> u32 \<Rightarrow> mem \<Rightarrow> mem" where
  "set_hh_is_hole a v m = write32 (a + 4) v m"

definition set_hf_header :: "u32 \<Rightarrow> u32 \<Rightarrow> mem \<Rightarrow> mem" where
  "set_hf_header a v m = write32 (a + 4) v m"

definition put_header :: "u32 \<Rightarrow> u32 \<Rightarrow> u32 \<Rightarrow> mem \<Rightarrow> mem" where
  "put_header a is_hole sz m =
     set_hh_size a sz (set_hh_is_hole a is_hole (write32 a VM_HEAP_HDR_MAGIC m))"

definition put_footer :: "u32 \<Rightarrow> u32 \<Rightarrow> mem \<Rightarrow> mem" where
  "put_footer a hdr m = set_hf_header a hdr (write32 a VM_HEAP_FTR_MAGIC m)"

definition vm_heap_header_cmp :: cmp_func_t where
  "vm_heap_header_cmp m a b = sint (hh_size m a - hh_size m b)"

section \<open>find_smallest_hole\<close>

text \<open>The alignment padding of a hole at \<open>location\<close>, and the two tests of the loop.\<close>

definition align_offset :: "u32 \<Rightarrow> u32" where
  "align_offset location =
     (if (location + SIZEOF_header) AND 0xFFFFF000 \<noteq> 0
      then 0x1000 - (location + SIZEOF_header) mod 0x1000 else 0)"

definition hole_fits :: "u32 \<Rightarrow> u32 \<Rightarrow> mem \<Rightarrow> u32 \<Rightarrow> bool" where
  "hole_fits sz page_align m hdr =
     (if page_align \<noteq> 0 then sint sz \<le> sint (hh_size m hdr - align_offset hdr)
      else sz \<le> hh_size m hdr)"

function find_hole_from :: "u32 \<Rightarrow> u32 \<Rightarrow> sorted_array \<Rightarrow> mem \<Rightarrow> u32 \<Rightarrow> kerror + u32" where
  "find_hole_from sz page_align ix m i =
     (if i < sa_size ix
      then ebind (lookup_sorted_array ix i m) (\<lambda>hdr.
        if hole_fits sz page_align m hdr then Inr i else find_hole_from sz page_align ix m (i + 1))
      else Inr i)"
  by pat_completeness auto
termination
  by (relation "measure (\<lambda>(sz, page_align, ix, m, i). unat (sa_size ix) - unat i)")
    (auto simp: unat_Suc32 word_less_nat_alt)

definition find_smallest_hole :: "u32 \<Rightarrow> u32 \<Rightarrow> vm_heap \<Rightarrow> mem \<Rightarrow> kerror + u32" where
  "find_smallest_hole sz page_align heap m =
     ebind (find_hole_from sz page_align (h_index heap) m 0) (\<lambda>i.
       Inr (if i = sa_size (h_index heap) then -1 else i))"

section \<open>_kmalloc\<close>

definition M_ALIGNED :: u32 where "M_ALIGNED = 0x1"
definition M_ZERO :: u32 where "M_ZERO = 0x2"

text \<open>
  \<open>kmalloc_internal\<close> is \<open>_kmalloc\<close>; \<open>alloc'\<close> is the \<open>alloc\<close> it calls, \<open>phys\<close> says whether the pointer
  argument is not NULL, and the result is the address, the value stored through that pointer (0 without
  it) and the new state. The \<open>get_page\<close> inside does not create tables, so its allocator is not called.
\<close>

type_synonym 'a alloc_fun = "u32 \<Rightarrow> u32 \<Rightarrow> u32 \<Rightarrow> 'a kmem_scheme \<Rightarrow> kerror + u32 \<times> 'a kmem_scheme"

definition no_table_alloc :: "u32 \<Rightarrow> 'a kmem_scheme \<Rightarrow> kerror + u32 \<times> u32 \<times> 'a kmem_scheme" where
  "no_table_alloc len s = Inl OutOfFuel"

definition placement_alloc :: "u32 \<Rightarrow> u32 \<Rightarrow> 'a kmem_scheme \<Rightarrow> u32 \<times> u32 \<times> 'a kmem_scheme" where
  "placement_alloc len flags s =
     (let s = (if flags AND M_ALIGNED \<noteq> 0 \<and> placement_address s AND 0xFFFFF000 \<noteq> 0
               then s\<lparr>placement_address := (placement_address s AND 0xFFFFF000) + 0x1000\<rparr> else s);
          phys = placement_address s;
          s = s\<lparr>placement_address := placement_address s + len\<rparr>
      in (placement_address s - len, phys, s))"

definition kmalloc_internal ::
  "'a alloc_fun \<Rightarrow> u32 \<Rightarrow> bool \<Rightarrow> u32 \<Rightarrow> 'a kmem_scheme \<Rightarrow> kerror + u32 \<times> u32 \<times> 'a kmem_scheme" where
  "kmalloc_internal alloc' len phys flags s =
     ebind (if kernel_heap s = 0
            then case placement_alloc len flags s of (addr, p, s) \<Rightarrow> Inr (addr, if phys then p else 0, s)
            else ebind (alloc' len (flags AND M_ALIGNED) (kernel_heap s) s) (\<lambda>(addr, s).
              if phys
              then ebind (get_page no_table_alloc addr False (kernel_directory s) s) (\<lambda>(page, s).
                Inr (addr, ucast (p_frame (page_at s page)) * 0x1000 + (addr AND 0xFFF), s))
              else Inr (addr, 0, s)))
       (\<lambda>(addr, p, s).
          Inr (addr, p, if flags AND M_ZERO \<noteq> 0 then s\<lparr>mem := bzero addr len (mem s)\<rparr> else s))"

section \<open>expand, contract\<close>

text \<open>
  \<open>align_up\<close> is the rounding of the code: an address at or above 4096 is moved to the next page boundary
  even when it is on one, and a smaller one stays.
\<close>

definition align_up :: "u32 \<Rightarrow> u32" where
  "align_up a = (if a AND 0xFFFFF000 \<noteq> 0 then (a AND 0xFFFFF000) + 0x1000 else a)"

definition upd_heap :: "u32 \<Rightarrow> (vm_heap \<Rightarrow> vm_heap) \<Rightarrow> 'a kmem_scheme \<Rightarrow> 'a kmem_scheme" where
  "upd_heap h f s = s\<lparr>heaps := (heaps s)(h := f (heaps s h))\<rparr>"

definition heap_len :: "u32 \<Rightarrow> 'a kmem_scheme \<Rightarrow> u32" where
  "heap_len h s = h_addr_end (heaps s h) - h_addr_start (heaps s h)"

text \<open>The page loops run at most once per page of the address space: \<open>page_fuel\<close> is their bound.\<close>

definition page_fuel :: nat where "page_fuel = 2 ^ 20 + 1"

fun expand_pages ::
  "nat \<Rightarrow> (u32 \<Rightarrow> 'a kmem_scheme \<Rightarrow> kerror + u32 \<times> u32 \<times> 'a kmem_scheme) \<Rightarrow> u32 \<Rightarrow> u32 \<Rightarrow> u32
     \<Rightarrow> 'a kmem_scheme \<Rightarrow> kerror + 'a kmem_scheme" where
  "expand_pages 0 kz i new_size h s = Inl OutOfFuel"
| "expand_pages (Suc n) kz i new_size h s =
     (if i < new_size
      then ebind (get_page kz (h_addr_start (heaps s h) + i) True (kernel_directory s) s) (\<lambda>(page, s).
           ebind (alloc_frame page (h_su (heaps s h)) (h_ro (heaps s h)) s) (\<lambda>s.
             expand_pages n kz (i + 0x1000) new_size h s))
      else Inr s)"

definition expand ::
  "(u32 \<Rightarrow> 'a kmem_scheme \<Rightarrow> kerror + u32 \<times> u32 \<times> 'a kmem_scheme) \<Rightarrow> u32 \<Rightarrow> u32
     \<Rightarrow> 'a kmem_scheme \<Rightarrow> kerror + 'a kmem_scheme" where
  "expand kz new_size h s =
     ebind (kassert ''expand to a greater size'' (heap_len h s < new_size)) (\<lambda>_.
       let new_size = align_up new_size in
       ebind (kassert ''don't overflow the heap''
                (h_addr_start (heaps s h) + new_size \<le> h_addr_max (heaps s h))) (\<lambda>_.
         ebind (expand_pages page_fuel kz (heap_len h s) new_size h s) (\<lambda>s.
           Inr (upd_heap h (\<lambda>hp. hp\<lparr>h_addr_end := h_addr_start hp + new_size\<rparr>) s))))"

fun contract_pages :: "nat \<Rightarrow> u32 \<Rightarrow> u32 \<Rightarrow> u32 \<Rightarrow> 'a kmem_scheme \<Rightarrow> kerror + 'a kmem_scheme" where
  "contract_pages 0 i new_size h s = Inl OutOfFuel"
| "contract_pages (Suc n) i new_size h s =
     (if new_size < i
      then ebind (get_page no_table_alloc (h_addr_start (heaps s h) + i) False (kernel_directory s) s)
             (\<lambda>(page, s). contract_pages n (i - 0x1000) new_size h (free_frame page s))
      else Inr s)"

definition contract :: "u32 \<Rightarrow> u32 \<Rightarrow> 'a kmem_scheme \<Rightarrow> kerror + u32 \<times> 'a kmem_scheme" where
  "contract new_size h s =
     ebind (kassert ''expand contract a smaller size'' (new_size < heap_len h s)) (\<lambda>_.
       let new_size = (if new_size AND 0x1000 \<noteq> 0 then (new_size AND 0x1000) + 0x1000 else new_size);
           new_size = (if new_size < VM_HEAP_MIN_SIZE then VM_HEAP_MIN_SIZE else new_size)
       in ebind (contract_pages page_fuel (heap_len h s - 0x1000) new_size h s) (\<lambda>s.
            Inr (new_size, upd_heap h (\<lambda>hp. hp\<lparr>h_addr_end := h_addr_start hp + new_size\<rparr>) s)))"

section \<open>init_heap\<close>

text \<open>The calls \<open>insert_sorted_array(&heap->h_index, el)\<close> and \<open>remove_sorted_array(&heap->h_index, i)\<close>.\<close>

definition index_insert :: "u32 \<Rightarrow> u32 \<Rightarrow> 'a kmem_scheme \<Rightarrow> kerror + 'a kmem_scheme" where
  "index_insert h el s =
     ebind (insert_sorted_array (h_index (heaps s h)) el (mem s)) (\<lambda>(ix, m).
       Inr (upd_heap h (\<lambda>hp. hp\<lparr>h_index := ix\<rparr>) (s\<lparr>mem := m\<rparr>)))"

definition index_remove :: "u32 \<Rightarrow> u32 \<Rightarrow> 'a kmem_scheme \<Rightarrow> kerror + 'a kmem_scheme" where
  "index_remove h i s =
     ebind (remove_sorted_array (h_index (heaps s h)) i (mem s)) (\<lambda>(ix, m).
       Inr (upd_heap h (\<lambda>hp. hp\<lparr>h_index := ix\<rparr>) (s\<lparr>mem := m\<rparr>)))"

definition init_heap ::
  "u32 \<Rightarrow> u32 \<Rightarrow> u32 \<Rightarrow> u32 \<Rightarrow> u32 \<Rightarrow> u32 \<Rightarrow> 'a kmem_scheme \<Rightarrow> kerror + 'a kmem_scheme" where
  "init_heap heap start e mx su ro s =
     ebind (kassert ''start of the heap is page aligned'' (start mod 0x1000 = 0)) (\<lambda>_.
     ebind (kassert ''end of the heap is page aligned'' (e mod 0x1000 = 0)) (\<lambda>_.
       case place_sorted_array start VM_HEAP_INDEX_SIZE (Some vm_heap_header_cmp) (mem s) of (ix, m) \<Rightarrow>
       let start = align_up (start + 4 * VM_HEAP_INDEX_SIZE);
           s = upd_heap heap (\<lambda>hp. \<lparr>h_index = ix, h_addr_start = start, h_addr_end = e,
                 h_addr_max = mx, h_su = su, h_ro = ro\<rparr>) (s\<lparr>mem := m\<rparr>)
       in index_insert heap start (s\<lparr>mem := put_header start 1 (e - start) (mem s)\<rparr>)))"

section \<open>alloc\<close>

text \<open>The search for the endmost header after the heap has grown: \<open>idx\<close> is -1 when the index is empty.\<close>

function endmost_header :: "sorted_array \<Rightarrow> mem \<Rightarrow> u32 \<Rightarrow> u32 \<Rightarrow> u32 \<Rightarrow> kerror + u32" where
  "endmost_header ix m i idx val =
     (if i < sa_size ix
      then ebind (lookup_sorted_array ix i m) (\<lambda>tmp.
        if val < tmp then endmost_header ix m (i + 1) i tmp else endmost_header ix m (i + 1) idx val)
      else Inr idx)"
  by pat_completeness auto
termination
  by (relation "measure (\<lambda>(ix, m, i, idx, val). unat (sa_size ix) - unat i)")
    (auto simp: unat_Suc32 word_less_nat_alt)

declare find_hole_from.simps [simp del] endmost_header.simps [simp del]

text \<open>The branch of \<open>alloc\<close> without a fitting hole, up to the recursive call.\<close>

definition alloc_grow ::
  "(u32 \<Rightarrow> 'a kmem_scheme \<Rightarrow> kerror + u32 \<times> u32 \<times> 'a kmem_scheme) \<Rightarrow> u32 \<Rightarrow> u32
     \<Rightarrow> 'a kmem_scheme \<Rightarrow> kerror + 'a kmem_scheme" where
  "alloc_grow kz new_size h s =
     (let old_length = heap_len h s; old_end_address = h_addr_end (heaps s h)
      in ebind (expand kz (old_length + new_size) h s) (\<lambda>s.
        let new_length = heap_len h s
        in ebind (endmost_header (h_index (heaps s h)) (mem s) 0 (-1) 0) (\<lambda>idx.
          if idx = -1
          then
            let header = old_end_address;
                m = put_header header 1 (new_length - old_length) (mem s);
                m = put_footer (old_end_address + hh_size m header - SIZEOF_footer) header m
            in index_insert h header (s\<lparr>mem := m\<rparr>)
          else ebind (lookup_sorted_array (h_index (heaps s h)) idx (mem s)) (\<lambda>header.
            let m = set_hh_size header (hh_size (mem s) header + (new_length - old_length)) (mem s);
                m = put_footer (header + hh_size m header - SIZEOF_footer) header m
            in Inr (s\<lparr>mem := m\<rparr>)))))"

text \<open>
  The rest of \<open>alloc\<close>, for the hole number \<open>i\<close>. \<open>carve_front\<close> is the code that handles the alignment or
  takes the hole out of the index; it returns the position and size of the space the block is cut
  from. \<open>carve_block\<close> writes the block and the hole that remains.
\<close>

definition carve_front :: "u32 \<Rightarrow> u32 \<Rightarrow> u32 \<Rightarrow> u32 \<Rightarrow> u32 \<Rightarrow> 'a kmem_scheme \<Rightarrow> kerror + u32 \<times> u32 \<times> 'a kmem_scheme" where
  "carve_front page_align i pos sz h s =
     (if page_align \<noteq> 0 \<and> pos AND 0xFFFFF000 \<noteq> 0
      then
        let new_location = pos + 0x1000 - (pos AND 0xFFF) - SIZEOF_header;
            m = put_header pos 1 (0x1000 - (pos AND 0xFFF) - SIZEOF_header) (mem s);
            m = put_footer (new_location - SIZEOF_footer) pos m
        in Inr (new_location, sz - hh_size m pos, s\<lparr>mem := m\<rparr>)
      else ebind (index_remove h i s) (\<lambda>s. Inr (pos, sz, s)))"

definition carve_block :: "u32 \<Rightarrow> u32 \<Rightarrow> u32 \<Rightarrow> u32 \<Rightarrow> u32 \<Rightarrow> 'a kmem_scheme \<Rightarrow> kerror + u32 \<times> 'a kmem_scheme" where
  "carve_block sz new_size pos orig_hole_size h s =
     (let m = put_header pos 0 new_size (mem s);
          m = put_footer (pos + SIZEOF_header + sz) pos m;
          s = s\<lparr>mem := m\<rparr>
      in ebind
        (if 0 < orig_hole_size - new_size
         then
           let hole_header = pos + SIZEOF_header + sz + SIZEOF_footer;
               m = put_header hole_header 1 (orig_hole_size - new_size) (mem s);
               hole_footer = hole_header + orig_hole_size - new_size - SIZEOF_footer;
               m = (if hole_footer < h_addr_end (heaps s h) then put_footer hole_footer hole_header m else m)
           in index_insert h hole_header (s\<lparr>mem := m\<rparr>)
         else Inr s)
        (\<lambda>s. Inr (pos + SIZEOF_header, s)))"

definition alloc_carve :: "u32 \<Rightarrow> u32 \<Rightarrow> u32 \<Rightarrow> u32 \<Rightarrow> u32 \<Rightarrow> 'a kmem_scheme \<Rightarrow> kerror + u32 \<times> 'a kmem_scheme" where
  "alloc_carve sz new_size page_align i h s =
     ebind (lookup_sorted_array (h_index (heaps s h)) i (mem s)) (\<lambda>pos.
       let orig_hole_size = hh_size (mem s) pos;
           small = orig_hole_size - new_size < SIZEOF_header + SIZEOF_footer;
           sz = (if small then sz + (orig_hole_size - new_size) else sz);
           new_size = (if small then orig_hole_size else new_size)
       in ebind (carve_front page_align i pos orig_hole_size h s) (\<lambda>(pos, orig_hole_size, s).
            carve_block sz new_size pos orig_hole_size h s))"

fun alloc :: "nat \<Rightarrow> 'a alloc_fun" where
  "alloc 0 sz page_align h s = Inl OutOfFuel"
| "alloc (Suc n) sz page_align h s =
     (let new_size = sz + SIZEOF_header + SIZEOF_footer
      in ebind (find_smallest_hole new_size page_align (heaps s h) (mem s)) (\<lambda>i.
        if i = -1
        then ebind (alloc_grow (\<lambda>len s. kmalloc_internal (alloc n) len True (M_ALIGNED OR M_ZERO) s) new_size h s)
               (\<lambda>s. alloc n sz page_align h s)
        else alloc_carve sz new_size page_align i h s))"

section \<open>free\<close>

text \<open>The three stages of \<open>free\<close> after the checks; each returns the current \<open>header\<close> and \<open>footer\<close>.\<close>

definition unify_left :: "u32 \<Rightarrow> u32 \<Rightarrow> mem \<Rightarrow> u32 \<times> bool \<times> mem" where
  "unify_left header footer m =
     (let test_footer = header - SIZEOF_footer
      in if hf_magic m test_footer = VM_HEAP_FTR_MAGIC \<and> hh_is_hole m (hf_header m test_footer) = 1
         then
           let cache_size = hh_size m header;
               header = hf_header m test_footer;
               m = set_hf_header footer header m;
               m = set_hh_size header (hh_size m header + cache_size) m
           in (header, False, m)
         else (header, True, m))"

function index_scan :: "sorted_array \<Rightarrow> mem \<Rightarrow> u32 \<Rightarrow> u32 \<Rightarrow> kerror + u32" where
  "index_scan ix m target i =
     (if i < sa_size ix
      then ebind (lookup_sorted_array ix i m) (\<lambda>el. if el \<noteq> target then index_scan ix m target (i + 1) else Inr i)
      else Inr i)"
  by pat_completeness auto
termination
  by (relation "measure (\<lambda>(ix, m, target, i). unat (sa_size ix) - unat i)")
    (auto simp: unat_Suc32 word_less_nat_alt)

declare index_scan.simps [simp del]

definition unify_right :: "u32 \<Rightarrow> u32 \<Rightarrow> u32 \<Rightarrow> 'a kmem_scheme \<Rightarrow> kerror + u32 \<times> 'a kmem_scheme" where
  "unify_right header footer h s =
     (let test_header = footer + SIZEOF_footer
      in if hh_magic (mem s) test_header = VM_HEAP_HDR_MAGIC \<and> hh_is_hole (mem s) test_header \<noteq> 0
         then
           let m = set_hh_size header (hh_size (mem s) header + hh_size (mem s) test_header) (mem s);
               footer = test_header + hh_size m test_header - SIZEOF_footer;
               s = s\<lparr>mem := m\<rparr>
           in ebind (index_scan (h_index (heaps s h)) (mem s) test_header 0) (\<lambda>i.
              ebind (kassert ''found an item while unifying right'' (i < sa_size (h_index (heaps s h)))) (\<lambda>_.
              ebind (index_remove h i s) (\<lambda>s. Inr (footer, s))))
         else Inr (footer, s))"

definition release_tail :: "u32 \<Rightarrow> u32 \<Rightarrow> u32 \<Rightarrow> u32 \<Rightarrow> 'a kmem_scheme \<Rightarrow> kerror + 'a kmem_scheme" where
  "release_tail header footer test_header h s =
     (if footer + SIZEOF_footer = h_addr_end (heaps s h)
      then
        let old_length = heap_len h s
        in ebind (contract (header - h_addr_start (heaps s h)) h s) (\<lambda>(new_length, s).
          if 0 < hh_size (mem s) header - (old_length - new_length)
          then
            let m = set_hh_size header (hh_size (mem s) header - (old_length - new_length)) (mem s)
            in Inr (s\<lparr>mem := put_footer (header + hh_size m header - SIZEOF_footer) header m\<rparr>)
          else
            ebind (index_scan (h_index (heaps s h)) (mem s) test_header 0) (\<lambda>i.
              if i < sa_size (h_index (heaps s h)) then index_remove h i s else Inr s))
      else Inr s)"

definition free :: "u32 \<Rightarrow> u32 \<Rightarrow> 'a kmem_scheme \<Rightarrow> kerror + 'a kmem_scheme" where
  "free p h s =
     (if p = 0 \<or> h = 0 then Inr s
      else
        let header = p - SIZEOF_header;
            footer = header + hh_size (mem s) header - SIZEOF_footer
        in ebind (kassert ''header magic match'' (hh_magic (mem s) header = VM_HEAP_HDR_MAGIC)) (\<lambda>_.
           ebind (kassert ''footer magic match'' (hf_magic (mem s) footer = VM_HEAP_FTR_MAGIC)) (\<lambda>_.
             let test_header = footer + SIZEOF_footer
             in case unify_left header footer (set_hh_is_hole header 1 (mem s)) of (header, do_add, m) \<Rightarrow>
               ebind (unify_right header footer h (s\<lparr>mem := m\<rparr>)) (\<lambda>(footer, s).
               ebind (release_tail header footer test_header h s) (\<lambda>s.
                 if do_add then index_insert h header s else Inr s)))))"

end
