(* ===== verification/Heap_Layout.thy ===== *)
theory Heap_Layout
  imports Heap
begin

text \<open>
  The layout of a heap in memory: the blocks from the start of the heap to its end, each with its
  header and footer, and the index that holds the addresses of the holes. \<open>heap_ok\<close> relates the state
  to the list of blocks; sizes and addresses in the list are natural numbers. The last block may be
  a hole without footer, as \<open>init_heap\<close> makes it.
\<close>

section \<open>Agreement of two memories on a range of addresses\<close>

definition agree :: "nat \<Rightarrow> nat \<Rightarrow> mem \<Rightarrow> mem \<Rightarrow> bool" where
  "agree lo hi m m' \<longleftrightarrow> (\<forall>x. lo \<le> unat x \<and> unat x < hi \<longrightarrow> m' x = m x)"

lemma agree_refl [simp]: "agree lo hi m m"
  by (simp add: agree_def)

lemma agree_trans: "agree lo hi m m' \<Longrightarrow> agree lo hi m' m'' \<Longrightarrow> agree lo hi m m''"
  by (simp add: agree_def)

lemma agree_sub: "agree lo hi m m' \<Longrightarrow> lo \<le> lo' \<Longrightarrow> hi' \<le> hi \<Longrightarrow> agree lo' hi' m m'"
  by (auto simp: agree_def)

lemma unat_lt_power [simp]: "unat (w :: u32) < 2 ^ 32"
  by simp

lemma nat_addr: "a + n \<le> 2 ^ 32 \<Longrightarrow> 0 < n \<Longrightarrow> unat (of_nat a :: u32) = a"
  by (rule unat_of_nat32) simp

lemma range_nat:
  assumes "a + n \<le> 2 ^ 32" "0 < n"
  shows "x \<in> addr_range (of_nat a) n \<longleftrightarrow> a \<le> unat x \<and> unat x < a + n"
  using addr_range_nowrap [of "of_nat a" n x] assms by (simp add: nat_addr [OF assms] del: addr_range_code)

lemma agree_write32:
  assumes "agree lo hi m m'" "a + 4 \<le> lo \<or> hi \<le> a" "a + 4 \<le> 2 ^ 32"
  shows "agree lo hi m (write32 (of_nat a) v m')"
  unfolding agree_def
proof (intro allI impI)
  fix x :: u32 assume x: "lo \<le> unat x \<and> unat x < hi"
  then have "x \<notin> addr_range (of_nat a) 4"
    using assms(2) by (simp add: range_nat [OF assms(3)] del: addr_range_code) linarith
  then show "write32 (of_nat a) v m' x = m x"
    using assms(1) x by (simp add: write32_outside agree_def del: addr_range_code)
qed

lemma read32_agree:
  assumes "agree lo hi m m'" "lo \<le> a" "a + 4 \<le> hi" "hi \<le> 2 ^ 32"
  shows "read32 m' (of_nat a) = read32 m (of_nat a)"
proof (rule read32_cong)
  fix x assume "x \<in> addr_range (of_nat a) 4"
  then have "a \<le> unat x \<and> unat x < a + 4" by (subst (asm) range_nat) (use assms(3,4) in auto)
  then show "m' x = m x" using assms(1-3) by (simp add: agree_def)
qed

lemma agree_put_header:
  assumes "agree lo hi m m'" "a + 12 \<le> lo \<or> hi \<le> a" "a + 12 \<le> 2 ^ 32"
  shows "agree lo hi m (put_header (of_nat a) f n m')"
proof -
  have "agree lo hi m (write32 (of_nat (a + 8)) n (write32 (of_nat (a + 4)) f (write32 (of_nat a) VM_HEAP_HDR_MAGIC m')))"
    by (intro agree_write32 assms(1)) (use assms(2,3) in auto)
  then show ?thesis by (simp add: put_header_def set_hh_size_def set_hh_is_hole_def)
qed

lemma agree_put_footer:
  assumes "agree lo hi m m'" "a + 8 \<le> lo \<or> hi \<le> a" "a + 8 \<le> 2 ^ 32"
  shows "agree lo hi m (put_footer (of_nat a) n m')"
proof -
  have "agree lo hi m (write32 (of_nat (a + 4)) n (write32 (of_nat a) VM_HEAP_FTR_MAGIC m'))"
    by (intro agree_write32 assms(1)) (use assms(2,3) in auto)
  then show ?thesis by (simp add: put_footer_def set_hf_header_def)
qed

lemma agree_set_hh_size:
  assumes "agree lo hi m m'" "a + 12 \<le> lo \<or> hi \<le> a + 8" "a + 12 \<le> 2 ^ 32"
  shows "agree lo hi m (set_hh_size (of_nat a) n m')"
  using agree_write32 [of lo hi m m' "a + 8" n] assms by (simp add: set_hh_size_def add.commute [of 12 a])

lemma agree_set_hh_is_hole:
  assumes "agree lo hi m m'" "a + 8 \<le> lo \<or> hi \<le> a + 4" "a + 8 \<le> 2 ^ 32"
  shows "agree lo hi m (set_hh_is_hole (of_nat a) n m')"
  using agree_write32 [of lo hi m m' "a + 4" n] assms by (simp add: set_hh_is_hole_def add.commute [of 8 a])

lemma agree_set_hf_header:
  assumes "agree lo hi m m'" "a + 8 \<le> lo \<or> hi \<le> a + 4" "a + 8 \<le> 2 ^ 32"
  shows "agree lo hi m (set_hf_header (of_nat a) n m')"
  using agree_write32 [of lo hi m m' "a + 4" n] assms by (simp add: set_hf_header_def add.commute [of 8 a])

text \<open>Fields of one header or footer do not overlap, also when the addresses wrap.\<close>

lemma words_apart: "d \<in> {4, 8, 12, -4, -8, -12} \<Longrightarrow> addr_range a 4 \<inter> addr_range (a + d) 4 = {}"
proof -
  assume "d \<in> {4, 8, 12, -4, -8, -12 :: u32}"
  then show ?thesis by (elim insertE; simp add: disjoint_iff range4 del: addr_range_code; auto simp: algebra_simps)
qed

lemma words_apart2: "addr_range (a + 4) 4 \<inter> addr_range (a + 8) 4 = {}"
  using words_apart [of 4 "a + 4"] by (simp add: algebra_simps)

lemma read_field:
  "read32 (write32 (a + 8) v m) a = read32 m a" "read32 (write32 (a + 4) v m) a = read32 m a"
  "read32 (write32 (a + 8) v m) (a + 4) = read32 m (a + 4)"
  "read32 (write32 (a + 4) v m) (a + 8) = read32 m (a + 8)"
  "read32 (write32 a v m) (a + 4) = read32 m (a + 4)" "read32 (write32 a v m) (a + 8) = read32 m (a + 8)"
  using words_apart [of 4 a] words_apart [of 8 a] words_apart2 [of a]
  by (simp_all add: read32_write32_other Int_commute)

lemmas field_defs = hh_magic_def hh_is_hole_def hh_size_def hf_magic_def hf_header_def
  put_header_def put_footer_def set_hh_size_def set_hh_is_hole_def set_hf_header_def

lemma header_of_put [simp]:
  "hh_magic (put_header a f n m) a = VM_HEAP_HDR_MAGIC" "hh_is_hole (put_header a f n m) a = f"
  "hh_size (put_header a f n m) a = n"
  by (simp_all add: field_defs read_field)

lemma footer_of_put [simp]:
  "hf_magic (put_footer a h m) a = VM_HEAP_FTR_MAGIC" "hf_header (put_footer a h m) a = h"
  by (simp_all add: field_defs read_field)

lemma header_of_set [simp]:
  "hh_magic (set_hh_size a n m) a = hh_magic m a" "hh_is_hole (set_hh_size a n m) a = hh_is_hole m a"
  "hh_size (set_hh_size a n m) a = n" "hh_magic (set_hh_is_hole a n m) a = hh_magic m a"
  "hh_is_hole (set_hh_is_hole a n m) a = n" "hh_size (set_hh_is_hole a n m) a = hh_size m a"
  by (simp_all add: field_defs read_field)

lemma footer_of_set [simp]:
  "hf_magic (set_hf_header a n m) a = hf_magic m a" "hf_header (set_hf_header a n m) a = n"
  by (simp_all add: field_defs read_field)

lemma header_agree:
  assumes "agree lo hi m m'" "lo \<le> a" "a + 12 \<le> hi" "hi \<le> 2 ^ 32"
  shows "hh_magic m' (of_nat a) = hh_magic m (of_nat a)" "hh_is_hole m' (of_nat a) = hh_is_hole m (of_nat a)"
    "hh_size m' (of_nat a) = hh_size m (of_nat a)"
  using read32_agree [OF assms(1), of a] read32_agree [OF assms(1), of "a + 4"]
    read32_agree [OF assms(1), of "a + 8"] assms(2-4)
  by (simp_all add: hh_magic_def hh_is_hole_def hh_size_def)

lemma footer_agree:
  assumes "agree lo hi m m'" "lo \<le> a" "a + 8 \<le> hi" "hi \<le> 2 ^ 32"
  shows "hf_magic m' (of_nat a) = hf_magic m (of_nat a)" "hf_header m' (of_nat a) = hf_header m (of_nat a)"
  using read32_agree [OF assms(1), of a] read32_agree [OF assms(1), of "a + 4"] assms(2-4)
  by (simp_all add: hf_magic_def hf_header_def)

section \<open>Blocks\<close>

text \<open>
  \<open>block_at m e a n f\<close>: at address \<open>a\<close> there is a block of \<open>n\<close> bytes, a hole if \<open>f\<close>, in a heap that ends
  at \<open>e\<close>. A footer is required of every block but a hole at the end.
\<close>

definition footer_at :: "mem \<Rightarrow> nat \<Rightarrow> nat \<Rightarrow> bool" where
  "footer_at m a n \<longleftrightarrow> hf_magic m (of_nat (a + n - 8)) = VM_HEAP_FTR_MAGIC
     \<and> hf_header m (of_nat (a + n - 8)) = of_nat a"

definition block_at :: "mem \<Rightarrow> nat \<Rightarrow> nat \<Rightarrow> nat \<Rightarrow> bool \<Rightarrow> bool" where
  "block_at m e a n f \<longleftrightarrow> 20 \<le> n \<and> hh_magic m (of_nat a) = VM_HEAP_HDR_MAGIC
     \<and> hh_is_hole m (of_nat a) = (if f then 1 else 0) \<and> hh_size m (of_nat a) = of_nat n
     \<and> (f \<and> a + n = e \<or> footer_at m a n)"

fun tiles :: "mem \<Rightarrow> nat \<Rightarrow> nat \<Rightarrow> (nat \<times> bool) list \<Rightarrow> bool" where
  "tiles m e a [] \<longleftrightarrow> True"
| "tiles m e a ((n, f) # bs) \<longleftrightarrow> block_at m e a n f \<and> tiles m e (a + n) bs"

abbreviation total :: "(nat \<times> bool) list \<Rightarrow> nat" where
  "total bs \<equiv> sum_list (map fst bs)"

text \<open>The addresses of the holes, and the blocks in use as pairs of payload address and size.\<close>

fun holes :: "nat \<Rightarrow> (nat \<times> bool) list \<Rightarrow> nat list" where
  "holes a [] = []"
| "holes a ((n, f) # bs) = (if f then a # holes (a + n) bs else holes (a + n) bs)"

fun payloads :: "nat \<Rightarrow> (nat \<times> bool) list \<Rightarrow> (nat \<times> nat) list" where
  "payloads a [] = []"
| "payloads a ((n, f) # bs) = (if f then payloads (a + n) bs else (a + 12, n - 20) # payloads (a + n) bs)"

lemma tiles_append: "tiles m e a (xs @ ys) \<longleftrightarrow> tiles m e a xs \<and> tiles m e (a + total xs) ys"
  by (induction m e a xs rule: tiles.induct) (auto simp: add.assoc)

lemma holes_append: "holes a (xs @ ys) = holes a xs @ holes (a + total xs) ys"
  by (induction a xs rule: holes.induct) (auto simp: add.assoc)

lemma payloads_append: "payloads a (xs @ ys) = payloads a xs @ payloads (a + total xs) ys"
  by (induction a xs rule: payloads.induct) (auto simp: add.assoc)

lemma footer_at_agree:
  assumes "agree a (a + n) m m'" "8 \<le> n" "a + n \<le> 2 ^ 32"
  shows "footer_at m' a n = footer_at m a n"
  using footer_agree [OF assms(1), of "a + n - 8"] assms(2,3) by (simp add: footer_at_def)

lemma block_at_agree:
  assumes "agree a (a + n) m m'" "a + n \<le> 2 ^ 32"
  shows "block_at m' e a n f = block_at m e a n f"
proof (cases "20 \<le> n")
  case True
  then show ?thesis
    using header_agree [OF assms(1), of a] footer_at_agree [OF assms(1)] assms(2) by (simp add: block_at_def)
qed (simp add: block_at_def)

lemma tiles_agree:
  assumes "agree a (a + total bs) m m'" "a + total bs \<le> 2 ^ 32"
  shows "tiles m' e a bs = tiles m e a bs"
  using assms
proof (induction m e a bs rule: tiles.induct)
  case (2 m e a n f bs)
  have "agree a (a + n) m m'" "agree (a + n) (a + n + total bs) m m'"
    using 2(2) by (auto simp: add.assoc intro: agree_sub)
  then show ?case using 2 block_at_agree [of a n m m'] by (simp add: add.assoc)
qed simp

lemma holes_split:
  assumes "h \<in> set (holes a bs)"
  shows "\<exists>xs n ys. bs = xs @ (n, True) # ys \<and> h = a + total xs"
  using assms
proof (induction bs arbitrary: a)
  case (Cons b bs)
  obtain n f where b: "b = (n, f)" by (cases b)
  show ?case
  proof (cases "f \<and> h = a")
    case True
    then show ?thesis using b by (intro exI [of _ "[]"]) simp
  next
    case False
    then have "h \<in> set (holes (a + n) bs)" using Cons.prems b by (auto split: if_splits)
    from Cons.IH [OF this] obtain xs k ys where "bs = xs @ (k, True) # ys" "h = a + n + total xs" by blast
    then show ?thesis using b by (intro exI [of _ "(n, f) # xs"]) simp
  qed
qed simp

section \<open>The heap invariant\<close>

definition heap_ok :: "u32 \<Rightarrow> (nat \<times> bool) list \<Rightarrow> 'a kmem_scheme \<Rightarrow> bool" where
  "heap_ok h bs s \<longleftrightarrow>
     (let hp = heaps s h; a = unat (h_addr_start hp); e = unat (h_addr_end hp); ix = h_index hp
      in a + total bs = e \<and> tiles (mem s) e a bs
       \<and> sa_wf ix \<and> sa_cmp ix = Some vm_heap_header_cmp
       \<and> unat (sa_array ix) + 4 * unat (sa_maxsize ix) \<le> a
       \<and> mset (sa_elems ix (mem s)) = mset (map of_nat (holes a bs)))"

abbreviation hstart :: "u32 \<Rightarrow> 'a kmem_scheme \<Rightarrow> nat" where
  "hstart h s \<equiv> unat (h_addr_start (heaps s h))"

abbreviation hend :: "u32 \<Rightarrow> 'a kmem_scheme \<Rightarrow> nat" where
  "hend h s \<equiv> unat (h_addr_end (heaps s h))"

lemma heap_okD:
  assumes "heap_ok h bs s"
  shows "hstart h s + total bs = hend h s" "tiles (mem s) (hend h s) (hstart h s) bs"
    "sa_wf (h_index (heaps s h))" "sa_cmp (h_index (heaps s h)) = Some vm_heap_header_cmp"
    "unat (sa_array (h_index (heaps s h))) + 4 * unat (sa_maxsize (h_index (heaps s h))) \<le> hstart h s"
    "mset (sa_elems (h_index (heaps s h)) (mem s)) = mset (map of_nat (holes (hstart h s) bs))"
  using assms by (simp_all add: heap_ok_def Let_def)

text \<open>For rewriting with nothing but the record updates.\<close>

lemma mem_update:
  fixes s :: "'a kmem_scheme"
  shows "mem (s\<lparr>mem := m\<rparr>) = m" "heaps (s\<lparr>mem := m\<rparr>) = heaps s" "s\<lparr>mem := m, mem := m'\<rparr> = s\<lparr>mem := m'\<rparr>"
    "kernel_directory (s\<lparr>mem := m\<rparr>) = kernel_directory s" "kernel_heap (s\<lparr>mem := m\<rparr>) = kernel_heap s"
  by simp_all

lemma upd_heap_simps [simp]:
  "heaps (upd_heap h f s) = (heaps s)(h := f (heaps s h))" "mem (upd_heap h f s) = mem s"
  "kernel_directory (upd_heap h f s) = kernel_directory s" "kernel_heap (upd_heap h f s) = kernel_heap s"
  "frames (upd_heap h f s) = frames s" "nframes (upd_heap h f s) = nframes s"
  by (simp_all add: upd_heap_def)

text \<open>The index lies below the heap, so writes above it leave its elements alone, and its own writes
  leave the blocks alone.\<close>

lemma index_agree:
  assumes "sa_wf ix" "unat (sa_array ix) + 4 * unat (sa_maxsize ix) \<le> a" "agree 0 a m m'"
  shows "sa_elems ix m' = sa_elems ix m"
proof (rule sa_elems_frame [OF assms(1)])
  fix x assume "x \<in> sa_region ix"
  then have "unat x < unat (sa_array ix) + 4 * unat (sa_maxsize ix)"
    using addr_range_nowrap [of "sa_array ix" "4 * unat (sa_maxsize ix)" x] assms(1)
    by (simp add: sa_region_def sa_wf_def del: addr_range_code)
  then show "m' x = m x" using assms(2,3) by (simp add: agree_def)
qed

lemma region_below:
  assumes "sa_wf ix" "unat (sa_array ix) + 4 * unat (sa_maxsize ix) \<le> a" "a \<le> unat x"
  shows "x \<notin> sa_region ix"
  using addr_range_nowrap [of "sa_array ix" "4 * unat (sa_maxsize ix)" x] assms
  by (simp add: sa_region_def sa_wf_def del: addr_range_code)

lemma frame_agree:
  assumes "sa_wf ix" "unat (sa_array ix) + 4 * unat (sa_maxsize ix) \<le> lo"
    and "\<And>x. x \<notin> sa_region ix \<Longrightarrow> \<not> (a \<le> unat x \<and> unat x < b) \<Longrightarrow> m' x = m x" "hi \<le> a \<or> b \<le> lo"
  shows "agree lo hi m m'"
  using assms(3,4) region_below [OF assms(1,2)] by (auto simp: agree_def)

lemma keeps_agree:
  assumes "sa_wf (fst c)" "unat (sa_array (fst c)) + 4 * unat (sa_maxsize (fst c)) \<le> a" "sa_keeps c c'"
  shows "agree a hi (snd c) (snd c')"
  unfolding agree_def
proof (intro allI impI)
  fix x :: u32 assume x: "a \<le> unat x \<and> unat x < hi"
  have "x \<notin> sa_region (fst c)"
    using addr_range_nowrap [of "sa_array (fst c)" "4 * unat (sa_maxsize (fst c))" x] assms(1,2) x
    by (simp add: sa_region_def sa_wf_def del: addr_range_code)
  then show "snd c' x = snd c x" using assms(3) by (simp add: sa_keeps_def)
qed

text \<open>A step of the heap changes memory and the heap records only.\<close>

definition only_heap :: "'a kmem_scheme \<Rightarrow> 'a kmem_scheme \<Rightarrow> bool" where
  "only_heap s s' \<longleftrightarrow> s' = s\<lparr>mem := mem s', heaps := heaps s'\<rparr>"

lemma only_heap_trans: "only_heap s s' \<Longrightarrow> only_heap s' s'' \<Longrightarrow> only_heap s s''"
  unfolding only_heap_def by (cases s; cases s'; cases s'') simp

lemma only_heap_mem: "only_heap s (s\<lparr>mem := m\<rparr>)"
  unfolding only_heap_def by (cases s) simp

lemma only_heapD:
  assumes "only_heap s s'"
  shows "kernel_heap s' = kernel_heap s" "kernel_directory s' = kernel_directory s" "kmem.more s' = kmem.more s"
  using assms unfolding only_heap_def by (cases s; cases s'; simp)+

text \<open>Index operations of a heap, seen as multiset operations. A step changes the index of one heap and
  memory inside the array only.\<close>

definition index_step :: "u32 \<Rightarrow> 'a kmem_scheme \<Rightarrow> 'a kmem_scheme \<Rightarrow> bool" where
  "index_step h s s' \<longleftrightarrow> (\<exists>ix m. s' = upd_heap h (\<lambda>hp. hp\<lparr>h_index := ix\<rparr>) (s\<lparr>mem := m\<rparr>)
     \<and> sa_wf ix \<and> sa_keeps (h_index (heaps s h), mem s) (ix, m))"

lemma index_insert_ok:
  assumes "sa_wf (h_index (heaps s h))" "sa_cmp (h_index (heaps s h)) = Some vm_heap_header_cmp"
    and "sa_size (h_index (heaps s h)) < sa_maxsize (h_index (heaps s h))"
  obtains s' where "index_insert h el s = Inr s'" "index_step h s s'"
    "mset (sa_elems (h_index (heaps s' h)) (mem s')) = add_mset el (mset (sa_elems (h_index (heaps s h)) (mem s)))"
proof -
  obtain ix m where r: "insert_sorted_array (h_index (heaps s h)) el (mem s) = Inr (ix, m)" "sa_wf ix"
    "sa_keeps (h_index (heaps s h), mem s) (ix, m)"
    "mset (sa_elems ix m) = add_mset el (mset (sa_elems (h_index (heaps s h)) (mem s)))"
    using sa.ins_mset [of "(h_index (heaps s h), mem s)" el] assms by auto
  show thesis
    by (rule that [of "upd_heap h (\<lambda>hp. hp\<lparr>h_index := ix\<rparr>) (s\<lparr>mem := m\<rparr>)"])
      (use r in \<open>auto simp: index_insert_def index_step_def\<close>)
qed

lemma index_remove_ok:
  assumes "sa_wf (h_index (heaps s h))" "sa_cmp (h_index (heaps s h)) = Some vm_heap_header_cmp"
    and "i < sa_size (h_index (heaps s h))"
  obtains s' where "index_remove h i s = Inr s'" "index_step h s s'"
    "sa_size (h_index (heaps s' h)) < sa_maxsize (h_index (heaps s' h))"
    "add_mset (sa_elems (h_index (heaps s h)) (mem s) ! unat i)
       (mset (sa_elems (h_index (heaps s' h)) (mem s'))) = mset (sa_elems (h_index (heaps s h)) (mem s))"
proof -
  obtain ix m where r: "remove_sorted_array (h_index (heaps s h)) i (mem s) = Inr (ix, m)" "sa_wf ix"
    "sa_size ix < sa_maxsize ix" "sa_keeps (h_index (heaps s h), mem s) (ix, m)"
    "add_mset (sa_elems (h_index (heaps s h)) (mem s) ! unat i) (mset (sa_elems ix m))
      = mset (sa_elems (h_index (heaps s h)) (mem s))"
    using sa.del_mset [of "(h_index (heaps s h), mem s)" i] assms by (auto simp: word_less_nat_alt)
  show thesis
    by (rule that [of "upd_heap h (\<lambda>hp. hp\<lparr>h_index := ix\<rparr>) (s\<lparr>mem := m\<rparr>)"])
      (use r in \<open>auto simp: index_remove_def index_step_def\<close>)
qed

lemma index_stepD:
  assumes "index_step h s s'" "sa_wf (h_index (heaps s h))"
    and "unat (sa_array (h_index (heaps s h))) + 4 * unat (sa_maxsize (h_index (heaps s h))) \<le> a"
  shows "hstart h s' = hstart h s" "hend h s' = hend h s" "sa_wf (h_index (heaps s' h))"
    "h_addr_start (heaps s' h) = h_addr_start (heaps s h)" "h_addr_end (heaps s' h) = h_addr_end (heaps s h)"
    "sa_array (h_index (heaps s' h)) = sa_array (h_index (heaps s h))"
    "sa_maxsize (h_index (heaps s' h)) = sa_maxsize (h_index (heaps s h))"
    "sa_cmp (h_index (heaps s' h)) = sa_cmp (h_index (heaps s h))"
    "agree a hi (mem s) (mem s')"
    "x \<notin> sa_region (h_index (heaps s h)) \<Longrightarrow> mem s' x = mem s x"
    "only_heap s s'"
proof -
  obtain ix m where s': "s' = upd_heap h (\<lambda>hp. hp\<lparr>h_index := ix\<rparr>) (s\<lparr>mem := m\<rparr>)" "sa_wf ix"
    "sa_keeps (h_index (heaps s h), mem s) (ix, m)"
    using assms(1) unfolding index_step_def by blast
  then show "agree a hi (mem s) (mem s')" using keeps_agree [OF _ _ s'(3), of a] assms(2,3) by simp
  show "x \<notin> sa_region (h_index (heaps s h)) \<Longrightarrow> mem s' x = mem s x" using s' by (simp add: sa_keeps_def)
  show "only_heap s s'" unfolding s'(1) only_heap_def upd_heap_def by (cases s) simp
  show "hstart h s' = hstart h s" "hend h s' = hend h s" "sa_wf (h_index (heaps s' h))"
    "h_addr_start (heaps s' h) = h_addr_start (heaps s h)" "h_addr_end (heaps s' h) = h_addr_end (heaps s h)"
    "sa_array (h_index (heaps s' h)) = sa_array (h_index (heaps s h))"
    "sa_maxsize (h_index (heaps s' h)) = sa_maxsize (h_index (heaps s h))"
    "sa_cmp (h_index (heaps s' h)) = sa_cmp (h_index (heaps s h))"
    using s' by (simp_all add: sa_keeps_def)
qed

section \<open>Writing a block\<close>

definition put_block :: "nat \<Rightarrow> nat \<Rightarrow> bool \<Rightarrow> mem \<Rightarrow> mem" where
  "put_block a n f m = put_footer (of_nat (a + n - 8)) (of_nat a)
     (put_header (of_nat a) (if f then 1 else 0) (of_nat n) m)"

lemma put_block_ok:
  assumes "20 \<le> n" "a + n \<le> 2 ^ 32"
  shows "block_at (put_block a n f m) e a n f" "agree 0 a m (put_block a n f m)"
    "agree (a + n) hi m (put_block a n f m)"
proof -
  let ?m1 = "put_header (of_nat a) (if f then 1 else 0) (of_nat n) m"
  have ag: "agree a (a + 12) ?m1 (put_block a n f m)"
    unfolding put_block_def by (rule agree_put_footer [OF agree_refl]) (use assms in auto)
  have "hh_magic (put_block a n f m) (of_nat a) = VM_HEAP_HDR_MAGIC"
    "hh_is_hole (put_block a n f m) (of_nat a) = (if f then 1 else 0)"
    "hh_size (put_block a n f m) (of_nat a) = of_nat n"
    using header_agree [OF ag, of a] assms by simp_all
  moreover have "footer_at (put_block a n f m) a n" by (simp add: put_block_def footer_at_def)
  ultimately show "block_at (put_block a n f m) e a n f" using assms(1) by (simp add: block_at_def)
  show "agree 0 a m (put_block a n f m)" "agree (a + n) hi m (put_block a n f m)"
    unfolding put_block_def
    by (rule agree_put_footer [OF agree_put_header [OF agree_refl]]; use assms in auto)+
qed

lemma tiles_small: "tiles m e a bs \<Longrightarrow> (n, f) \<in> set bs \<Longrightarrow> 20 \<le> n \<and> n \<le> total bs"
  by (induction m e a bs rule: tiles.induct) (auto simp: block_at_def)

section \<open>Blocks in use\<close>

lemma payloads_range:
  assumes "tiles m e a bs" "(p, l) \<in> set (payloads a bs)"
  shows "a + 12 \<le> p \<and> p + l + 8 \<le> a + total bs"
  using assms
proof (induction m e a bs rule: tiles.induct)
  case (2 m e a n f bs)
  then show ?case by (fastforce simp: block_at_def split: if_splits)
qed simp

text \<open>The payloads of a heap are in ascending order and do not overlap.\<close>

lemma payloads_disjoint:
  "tiles m e a bs \<Longrightarrow> sorted_wrt (\<lambda>(p, l) (q, k). p + l + 20 \<le> q) (payloads a bs)"
proof (induction m e a bs rule: tiles.induct)
  case (2 m e a n f bs)
  then have "20 \<le> n" by (simp add: block_at_def)
  then have "a + 12 + (n - 20) + 20 \<le> q" if "(q, k) \<in> set (payloads (a + n) bs)" for q k
    using payloads_range [OF _ that] 2(2) by fastforce
  then show ?case using 2 by auto
qed simp

text \<open>The blocks read from memory, by following the sizes in the headers.\<close>

function blocks_from :: "mem \<Rightarrow> nat \<Rightarrow> nat \<Rightarrow> (nat \<times> bool) list" where
  "blocks_from m a e =
     (let n = unat (hh_size m (of_nat a))
      in if a < e \<and> 20 \<le> n then (n, hh_is_hole m (of_nat a) \<noteq> 0) # blocks_from m (a + n) e else [])"
  by pat_completeness auto
termination
  by (relation "measure (\<lambda>(m, a, e). e - a)") auto

declare blocks_from.simps [simp del]

lemma tiles_blocks_from:
  assumes "tiles m e a bs" "a + total bs < 2 ^ 32"
  shows "blocks_from m a (a + total bs) = bs"
  using assms
proof (induction m e a bs rule: tiles.induct)
  case (1 m e a)
  then show ?case by (subst blocks_from.simps) simp
next
  case (2 m e a n f bs)
  have n: "20 \<le> n" "hh_size m (of_nat a) = of_nat n" "hh_is_hole m (of_nat a) = (if f then 1 else 0)"
    using 2(2) by (simp_all add: block_at_def)
  have "unat (of_nat n :: u32) = n" using 2(3) by (intro unat_of_nat32) simp
  then have "blocks_from m a (a + n + total bs) = (n, f) # blocks_from m (a + n) (a + n + total bs)"
    using n by (subst blocks_from.simps) simp
  then show ?case using 2 by (simp add: add.assoc)
qed

definition blocks_of :: "u32 \<Rightarrow> 'a kmem_scheme \<Rightarrow> (nat \<times> bool) list" where
  "blocks_of h s = blocks_from (mem s) (hstart h s) (hend h s)"

lemma heap_ok_blocks:
  assumes "heap_ok h bs s"
  shows "blocks_of h s = bs"
  using tiles_blocks_from [OF heap_okD(2) [OF assms]] heap_okD(1) [OF assms] unat_lt_power [of "h_addr_end (heaps s h)"]
  by (simp add: blocks_of_def)

lemma heap_ok_size:
  assumes "heap_ok h (xs @ (n, f) # ys) s"
  shows "20 \<le> n" "hstart h s + total xs + n < 2 ^ 32" "hh_size (mem s) (of_nat (hstart h s + total xs)) = of_nat n"
proof -
  have "tiles (mem s) (hend h s) (hstart h s + total xs) ((n, f) # ys)"
    using heap_okD(2) [OF assms] by (simp add: tiles_append)
  then show "20 \<le> n" "hh_size (mem s) (of_nat (hstart h s + total xs)) = of_nat n"
    by (simp_all add: block_at_def)
  have "hstart h s + total xs + n \<le> hend h s" using heap_okD(1) [OF assms] by simp
  then show "hstart h s + total xs + n < 2 ^ 32"
    using unat_lt_power [of "h_addr_end (heaps s h)"] by linarith
qed

text \<open>The elements of the index are the addresses of the holes.\<close>

lemma index_set:
  assumes "heap_ok h bs s"
  shows "set (sa_elems (h_index (heaps s h)) (mem s)) = of_nat ` set (holes (hstart h s) bs)"
  using heap_okD(6) [OF assms] by (metis image_set set_mset_mset)

section \<open>Parts of a heap\<close>

lemma heap_ok_parts:
  assumes "heap_ok h (xs @ os @ ys) s"
  defines "a \<equiv> hstart h s + total xs"
  shows "a + total os + total ys = hend h s" "a + total os < 2 ^ 32"
    "tiles (mem s) (hend h s) (hstart h s) xs" "tiles (mem s) (hend h s) a os"
    "tiles (mem s) (hend h s) (a + total os) ys"
proof -
  note ok = heap_okD [OF assms(1)]
  show "tiles (mem s) (hend h s) (hstart h s) xs" "tiles (mem s) (hend h s) a os"
    "tiles (mem s) (hend h s) (a + total os) ys"
    using ok(2) by (simp_all add: tiles_append a_def add.assoc)
  show e: "a + total os + total ys = hend h s" using ok(1) by (simp add: a_def)
  have "hend h s < 2 ^ 32" by simp
  then show "a + total os < 2 ^ 32" using e by linarith
qed

lemma heap_ok_split:
  assumes "heap_ok h (xs @ (n, f) # ys) s"
  defines "a \<equiv> hstart h s + total xs"
  shows "20 \<le> n" "a + n + total ys = hend h s" "a + n < 2 ^ 32"
    "tiles (mem s) (hend h s) (hstart h s) xs" "tiles (mem s) (hend h s) (a + n) ys"
    "block_at (mem s) (hend h s) a n f" "hh_size (mem s) (of_nat a) = of_nat n"
  using heap_ok_parts [of h xs "[(n, f)]" ys s] assms by (simp_all add: block_at_def)

text \<open>Replacing some blocks by new ones at the same place, when the index has been updated to match.\<close>

lemma heap_ok_replace:
  assumes ok: "heap_ok h (xs @ os @ ys) s"
  defines "a \<equiv> hstart h s + total xs"
  assumes zs: "total zs = total os" "tiles (mem s') (hend h s) a zs"
    and same: "h_addr_start (heaps s' h) = h_addr_start (heaps s h)" "h_addr_end (heaps s' h) = h_addr_end (heaps s h)"
      "sa_wf (h_index (heaps s' h))"
      "sa_array (h_index (heaps s' h)) = sa_array (h_index (heaps s h))"
      "sa_maxsize (h_index (heaps s' h)) = sa_maxsize (h_index (heaps s h))"
      "sa_cmp (h_index (heaps s' h)) = sa_cmp (h_index (heaps s h))"
    and fr: "\<And>x. x \<notin> sa_region (h_index (heaps s h)) \<Longrightarrow> \<not> (a \<le> unat x \<and> unat x < a + total os) \<Longrightarrow> mem s' x = mem s x"
    and ix: "mset (sa_elems (h_index (heaps s' h)) (mem s'))
      = mset (map of_nat (holes (hstart h s) xs @ holes a zs @ holes (a + total os) ys))"
  shows "heap_ok h (xs @ zs @ ys) s'"
proof -
  note sp = heap_ok_parts [OF ok, folded a_def]
  have ag: "agree (hstart h s) a (mem s) (mem s')"
    by (rule frame_agree [OF heap_okD(3,5) [OF ok] fr disjI1]) auto
  have below: "unat (sa_array (h_index (heaps s h))) + 4 * unat (sa_maxsize (h_index (heaps s h))) \<le> a + total os"
    using heap_okD(5) [OF ok] by (simp add: a_def)
  have ag2: "agree (a + total os) (2 ^ 32) (mem s) (mem s')"
    by (rule frame_agree [OF heap_okD(3) [OF ok] below fr disjI2]) auto
  have "tiles (mem s') (hend h s) (hstart h s) xs"
    using tiles_agree [of "hstart h s" xs "mem s" "mem s'" "hend h s"] ag sp(2,3) by (simp add: a_def)
  moreover have "tiles (mem s') (hend h s) (a + total os) ys"
    using tiles_agree [of "a + total os" ys "mem s" "mem s'" "hend h s"]
      agree_sub [OF ag2, of "a + total os" "a + total os + total ys"] sp(1,5)
      unat_lt32 [of "h_addr_end (heaps s h)"] by simp
  ultimately have "tiles (mem s') (hend h s) (hstart h s) (xs @ zs @ ys)"
    using zs by (simp add: tiles_append a_def)
  then show ?thesis
    using heap_okD [OF ok] sp(1) same ix zs(1)
    by (simp add: heap_ok_def Let_def holes_append a_def)
qed

section \<open>An example\<close>

text \<open>
  A heap at 0x2000 with six blocks of 40 bytes, the first and the fifth of them holes; its index is at 0x1000.
\<close>

definition example_blocks :: "(nat \<times> bool) list" where
  "example_blocks = [(40, True), (40, False), (40, False), (40, False), (40, True), (40, False)]"

definition example_heap_mem :: mem where
  "example_heap_mem = write32 0x1000 0x2000 (write32 0x1004 0x20A0
     (put_block 8192 40 True (put_block 8232 40 False (put_block 8272 40 False
     (put_block 8312 40 False (put_block 8352 40 True (put_block 8392 40 False (\<lambda>_. 0))))))))"

definition example_vm_heap :: vm_heap where
  "example_vm_heap = \<lparr>h_index = \<lparr>sa_array = 0x1000, sa_size = 2, sa_maxsize = 4, sa_cmp = Some vm_heap_header_cmp\<rparr>,
     h_addr_start = 0x2000, h_addr_end = 0x20F0, h_addr_max = 0x8000, h_su = 0, h_ro = 0\<rparr>"

definition boot_kmem :: kmem where
  "boot_kmem = paging.extend boot_paging
     \<lparr>placement_address = 0x200000, kernel_heap = 0, heaps = (\<lambda>_. example_vm_heap)\<rparr>"

definition example_heap :: kmem where
  "example_heap = boot_kmem\<lparr>mem := example_heap_mem, kernel_heap := 0x500\<rparr>"

lemma boot_kmem_simps [simp]:
  "mem boot_kmem = (\<lambda>_. 0)" "placement_address boot_kmem = 0x200000" "kernel_heap boot_kmem = 0"
  "heaps boot_kmem = (\<lambda>_. example_vm_heap)"
  by (simp_all add: boot_kmem_def paging.extend_def boot_paging_def descr.extend_def boot_descr_def)

lemma example_heap_simps [simp]:
  "mem example_heap = example_heap_mem" "heaps example_heap = (\<lambda>_. example_vm_heap)" "kernel_heap example_heap = 0x500"
  by (simp_all add: example_heap_def)

lemma example_heap_ok: "heap_ok h example_blocks example_heap"
proof -
  have s: "hstart h example_heap = 8192" "hend h example_heap = 8432" by (simp_all add: example_vm_heap_def)
  have t: "tiles example_heap_mem 8432 8192 example_blocks"
    by (simp add: example_blocks_def block_at_def footer_at_def example_heap_mem_def put_block_def field_defs
        read32_write32_apart)
  have e: "sa_elems (h_index example_vm_heap) example_heap_mem = [0x2000, 0x20A0]"
    by (simp add: example_vm_heap_def sa_elems_def sa_get_def upt_conv_Cons example_heap_mem_def read32_write32_apart)
  show ?thesis
    unfolding heap_ok_def Let_def s example_heap_simps e
    using t by (simp add: example_vm_heap_def sa_wf_def example_blocks_def)
qed

end
