(* ===== verification/Heap_Alloc.thy ===== *)
theory Heap_Alloc
  imports Heap_Layout
begin

text \<open>
  What \<open>find_smallest_hole\<close>, \<open>init_heap\<close> and \<open>alloc\<close> do to the layout of a heap.
\<close>

section \<open>find_smallest_hole\<close>

lemma find_hole_from_spec:
  assumes "sa_wf ix" "i \<le> sa_size ix"
  shows "\<exists>k. find_hole_from sz pa ix m i = Inr k \<and> i \<le> k \<and> k \<le> sa_size ix
    \<and> (\<forall>j. i \<le> j \<and> j < k \<longrightarrow> \<not> hole_fits sz pa m (sa_get ix m j))
    \<and> (k = sa_size ix \<or> hole_fits sz pa m (sa_get ix m k))"
  using assms
proof (induction sz pa ix m i rule: find_hole_from.induct)
  case (1 sz pa ix m i)
  show ?case
  proof (cases "i < sa_size ix")
    case True
    have look: "lookup_sorted_array ix i m = Inr (sa_get ix m i)"
      using True by (simp add: lookup_sorted_array_def)
    show ?thesis
    proof (cases "hole_fits sz pa m (sa_get ix m i)")
      case fits: True
      then show ?thesis using True look
        by (intro exI [of _ i]) (subst find_hole_from.simps, auto)
    next
      case no: False
      have suc: "unat (i + 1) = Suc (unat i)" by (rule unat_Suc32 [OF True])
      have le: "i + 1 \<le> sa_size ix" using True suc by (simp add: word_le_nat_alt word_less_nat_alt)
      have split: "i \<le> j \<longleftrightarrow> j = i \<or> i + 1 \<le> j" for j
        using suc by (auto simp: word_le_nat_alt word_unat_eq_iff)
      obtain k where k: "find_hole_from sz pa ix m (i + 1) = Inr k" "i + 1 \<le> k" "k \<le> sa_size ix"
        "\<forall>j. i + 1 \<le> j \<and> j < k \<longrightarrow> \<not> hole_fits sz pa m (sa_get ix m j)"
        "k = sa_size ix \<or> hole_fits sz pa m (sa_get ix m k)"
        using "1.IH" [OF True look no "1.prems"(1) le] by blast
      have "find_hole_from sz pa ix m i = Inr k"
        using True look no k(1) by (subst find_hole_from.simps) simp
      then show ?thesis using k no split by (intro exI [of _ k]) auto
    qed
  next
    case False
    then show ?thesis using "1.prems" by (intro exI [of _ i]) (subst find_hole_from.simps, auto)
  qed
qed

lemma index_size_small: "sa_wf ix \<Longrightarrow> unat (sa_size ix) \<le> 2 ^ 30"
  by (auto simp: sa_wf_def word_le_nat_alt)

lemma find_smallest_hole_spec:
  fixes hp m
  defines "es \<equiv> sa_elems (h_index hp) m"
  assumes "sa_wf (h_index hp)"
  shows "(\<exists>k < length es. hole_fits sz pa m (es ! k) \<and> (\<forall>j < k. \<not> hole_fits sz pa m (es ! j))
        \<and> find_smallest_hole sz pa hp m = Inr (of_nat k) \<and> of_nat k \<noteq> (-1 :: u32))
    \<or> (\<forall>j < length es. \<not> hole_fits sz pa m (es ! j)) \<and> find_smallest_hole sz pa hp m = Inr (-1)"
proof -
  let ?ix = "h_index hp"
  obtain k where k: "find_hole_from sz pa ?ix m 0 = Inr k" "k \<le> sa_size ?ix"
    "\<forall>j. j < k \<longrightarrow> \<not> hole_fits sz pa m (sa_get ?ix m j)"
    "k = sa_size ?ix \<or> hole_fits sz pa m (sa_get ?ix m k)"
    using find_hole_from_spec [OF assms(2), of 0 sz pa m] by auto
  have before: "\<not> hole_fits sz pa m (es ! j)" if "j < unat k" for j
  proof -
    have j32: "unat (of_nat j :: u32) = j"
      using that unat_lt32 [of k] by (intro unat_of_nat32) linarith
    then have "of_nat j < k" using that by (simp add: word_less_nat_alt)
    moreover have "es ! j = sa_get ?ix m (of_nat j)"
      using that k(2) unfolding es_def by (intro sa_elems_nth) (simp add: word_le_nat_alt)
    ultimately show ?thesis using k(3) by simp
  qed
  show ?thesis
  proof (cases "k = sa_size ?ix")
    case True
    then have "find_smallest_hole sz pa hp m = Inr (-1)" using k(1) by (simp add: find_smallest_hole_def)
    then show ?thesis using before True by (simp add: es_def)
  next
    case False
    then have lt: "k < sa_size ?ix" using k(2) by simp
    have "unat k < 2 ^ 30" using lt index_size_small [OF assms(2)] by (simp add: word_less_nat_alt)
    moreover have "unat (-1 :: u32) = 4294967295" by (simp add: unsigned_minus_1_eq_mask mask_eq_exp_minus_1)
    ultimately have "k \<noteq> -1" by auto
    moreover have "find_smallest_hole sz pa hp m = Inr k"
      using k(1) False by (simp add: find_smallest_hole_def)
    moreover have "es ! unat k = sa_get ?ix m k" using lt by (simp add: es_def sa_elems_nth_word)
    ultimately show ?thesis
      using before k(4) False lt
      by (intro disjI1 exI [of _ "unat k"]) (auto simp: es_def word_less_nat_alt)
  qed
qed

section \<open>Carving a block out of a hole\<close>

text \<open>The blocks that replace a hole of \<open>n\<close> bytes from which \<open>w\<close> bytes are taken.\<close>

definition cut_hole :: "nat \<Rightarrow> nat \<Rightarrow> (nat \<times> bool) list" where
  "cut_hole n w = (if n - w < 20 then [(n, False)] else [(w, False), (n - w, True)])"

lemma total_cut_hole: "w \<le> n \<Longrightarrow> total (cut_hole n w) = n"
  by (simp add: cut_hole_def)

lemma unat_diff_of_nat:
  assumes "w \<le> n" "n < 2 ^ 32"
  shows "unat (of_nat n - of_nat w :: u32) = n - w"
proof -
  have "(of_nat n - of_nat w :: u32) = of_nat (n - w)" by (rule of_nat_diff [OF assms(1), symmetric])
  then show ?thesis using assms by (simp only:) (rule unat_of_nat32, simp)
qed

lemma block_words:
  assumes "20 \<le> w" "w \<le> n"
  shows "of_nat a + SIZEOF_header + of_nat (w - 20) = (of_nat (a + w - 8) :: u32)"
    "of_nat (a + w - 8) + SIZEOF_footer = (of_nat (a + w) :: u32)"
    "of_nat (a + w) + of_nat n - of_nat w - SIZEOF_footer = (of_nat (a + n - 8) :: u32)"
proof -
  have 1: "a + w - 8 = a + 12 + (w - 20)" using assms by linarith
  show "of_nat a + SIZEOF_header + of_nat (w - 20) = (of_nat (a + w - 8) :: u32)"
    unfolding 1 by (simp add: SIZEOF_header_def)
  have "a + w - 8 + 8 = a + w" using assms by linarith
  then show "of_nat (a + w - 8) + SIZEOF_footer = (of_nat (a + w) :: u32)"
    unfolding SIZEOF_footer_def by (metis of_nat_add of_nat_numeral)
  have "a + n - 8 + 8 = a + n" using assms by linarith
  then have "of_nat (a + n - 8) + (8 :: u32) = of_nat (a + n)" by (metis of_nat_add of_nat_numeral)
  then show "of_nat (a + w) + of_nat n - of_nat w - SIZEOF_footer = (of_nat (a + n - 8) :: u32)"
    by (simp add: SIZEOF_footer_def algebra_simps)
qed

text \<open>The block at the front of the space, and the hole behind it.\<close>

lemma carve_block_full:
  assumes "20 \<le> n"
  shows "carve_block (of_nat (n - 20)) (of_nat n) (of_nat a) (of_nat n) h s
    = Inr (of_nat a + SIZEOF_header, s\<lparr>mem := put_block a n False (mem s)\<rparr>)"
  unfolding carve_block_def Let_def block_words(1) [OF assms order_refl] put_block_def by simp

lemma carve_block_split:
  assumes "20 \<le> w" "w + 20 \<le> n" "a + n \<le> hend h s"
  shows "carve_block (of_nat (w - 20)) (of_nat w) (of_nat a) (of_nat n) h s
    = ebind (index_insert h (of_nat (a + w)) (s\<lparr>mem := put_block (a + w) (n - w) True (put_block a w False (mem s))\<rparr>))
        (\<lambda>s. Inr (of_nat a + SIZEOF_header, s))"
proof -
  have n32: "n < 2 ^ 32" "a + n < 2 ^ 32" using assms(3) unat_lt_power [of "h_addr_end (heaps s h)"] by linarith+
  have le: "w \<le> n" using assms(2) by simp
  have d: "(of_nat n - of_nat w :: u32) = of_nat (n - w)" by (rule of_nat_diff [OF le, symmetric])
  have "unat (of_nat n - of_nat w :: u32) = n - w" by (rule unat_diff_of_nat [OF le n32(1)])
  then have pos: "((0 :: u32) < of_nat n - of_nat w) = True" using assms(2) by (simp add: word_less_nat_alt)
  have "unat (of_nat (a + n - 8) :: u32) = a + n - 8" using n32 by (intro unat_of_nat32) simp
  then have foot: "((of_nat (a + n - 8) :: u32) < h_addr_end (heaps s h)) = True"
    using assms by (simp add: word_less_nat_alt)
  have an: "a + w + (n - w) = a + n" using assms by simp
  show ?thesis
    unfolding carve_block_def Let_def put_block_def block_words [OF assms(1) le] pos
    by (simp only: mem_update foot an d if_True if_False simp_thms)
qed

text \<open>Both cases: the space becomes the blocks \<open>cut_hole n w\<close>, and the hole among them enters the index.\<close>

lemma carve_space:
  fixes s :: "'a kmem_scheme"
  assumes ix: "sa_wf (h_index (heaps s h))" "sa_cmp (h_index (heaps s h)) = Some vm_heap_header_cmp"
      "n - w < 20 \<or> sa_size (h_index (heaps s h)) < sa_maxsize (h_index (heaps s h))"
    and below: "unat (sa_array (h_index (heaps s h))) + 4 * unat (sa_maxsize (h_index (heaps s h))) \<le> a"
    and w: "20 \<le> w" "w \<le> n" "a + n \<le> hend h s"
  obtains s' where
    "(if n - w < 20 then carve_block (of_nat (n - 20)) (of_nat n) (of_nat a) (of_nat n) h s
      else carve_block (of_nat (w - 20)) (of_nat w) (of_nat a) (of_nat n) h s) = Inr (of_nat a + SIZEOF_header, s')"
    "tiles (mem s') (hend h s) a (cut_hole n w)"
    "mset (sa_elems (h_index (heaps s' h)) (mem s'))
      = mset (sa_elems (h_index (heaps s h)) (mem s)) + mset (map of_nat (holes a (cut_hole n w)))"
    "h_addr_start (heaps s' h) = h_addr_start (heaps s h)" "h_addr_end (heaps s' h) = h_addr_end (heaps s h)"
    "sa_wf (h_index (heaps s' h))" "sa_array (h_index (heaps s' h)) = sa_array (h_index (heaps s h))"
    "sa_maxsize (h_index (heaps s' h)) = sa_maxsize (h_index (heaps s h))" "sa_cmp (h_index (heaps s' h)) = sa_cmp (h_index (heaps s h))"
    "\<And>x. x \<notin> sa_region (h_index (heaps s h)) \<Longrightarrow> \<not> (a \<le> unat x \<and> unat x < a + n) \<Longrightarrow> mem s' x = mem s x"
    "only_heap s s'"
proof (cases "n - w < 20")
  case True
  have n: "20 \<le> n" "a + n \<le> 2 ^ 32" using w unat_lt_power [of "h_addr_end (heaps s h)"] by linarith+
  note pb = put_block_ok [OF n, where m = "mem s" and f = False]
  have els: "sa_elems (h_index (heaps s h)) (put_block a n False (mem s)) = sa_elems (h_index (heaps s h)) (mem s)"
    by (rule index_agree [OF ix(1) below pb(2)])
  have fr: "put_block a n False (mem s) x = mem s x" if "\<not> (a \<le> unat x \<and> unat x < a + n)" for x
    using that pb(2) pb(3) [of "2 ^ 32"] unat_lt_power [of x] by (auto simp: agree_def not_le)
  show thesis
    by (rule that [of "s\<lparr>mem := put_block a n False (mem s)\<rparr>"])
      (use True carve_block_full [OF n(1)] pb(1) [of "hend h s"] els fr ix only_heap_mem in \<open>simp_all add: cut_hole_def\<close>)
next
  case False
  have w20: "20 \<le> w" "w + 20 \<le> n" using False w by simp_all
  define m2 where "m2 = put_block (a + w) (n - w) True (put_block a w False (mem s))"
  have "a + n < 2 ^ 32" using w(3) unat_lt_power [of "h_addr_end (heaps s h)"] by linarith
  then have fit: "20 \<le> n - w" "a + w + (n - w) = a + n" "a + w \<le> 2 ^ 32" "a + w + (n - w) \<le> 2 ^ 32" "a + n \<le> 2 ^ 32"
    using w20 by linarith+
  note pb1 = put_block_ok [OF w20(1) fit(3), where m = "mem s" and f = False]
  note pb2 = put_block_ok [OF fit(1,4), where m = "put_block a w False (mem s)" and f = True]
  have first: "block_at m2 (hend h s) a w False"
    unfolding m2_def using block_at_agree [OF agree_sub [OF pb2(2)] fit(3)] pb1(1) by simp
  have second: "block_at m2 (hend h s) (a + w) (n - w) True" unfolding m2_def by (rule pb2(1))
  have "agree (a + w + (n - w)) (2 ^ 32) (mem s) m2"
    unfolding m2_def by (rule agree_trans [OF agree_sub [OF pb1(3) [of "2 ^ 32"]] pb2(3)]) simp_all
  moreover have "agree 0 a (mem s) m2"
    unfolding m2_def by (rule agree_trans [OF pb1(2) agree_sub [OF pb2(2)]]) simp_all
  ultimately have m2: "agree 0 a (mem s) m2" "agree (a + n) (2 ^ 32) (mem s) m2" by (simp_all only: fit(2))
  define s2 where "s2 = s\<lparr>mem := m2\<rparr>"
  have els: "sa_elems (h_index (heaps s2 h)) (mem s2) = sa_elems (h_index (heaps s h)) (mem s)"
    using index_agree [OF ix(1) below m2(1)] by (simp add: s2_def)
  obtain s' where s': "index_insert h (of_nat (a + w)) s2 = Inr s'" "index_step h s2 s'"
    "mset (sa_elems (h_index (heaps s' h)) (mem s')) = add_mset (of_nat (a + w)) (mset (sa_elems (h_index (heaps s2 h)) (mem s2)))"
    by (rule index_insert_ok [of s2 h "of_nat (a + w)"]) (use ix False in \<open>simp_all add: s2_def\<close>)
  have "sa_wf (h_index (heaps s2 h))" "unat (sa_array (h_index (heaps s2 h))) + 4 * unat (sa_maxsize (h_index (heaps s2 h))) \<le> a"
    using ix(1) below by (simp_all add: s2_def)
  note st2 = index_stepD [OF s'(2) this]
  note split = carve_block_split [OF w20 w(3)]
  have fr: "mem s' x = mem s x" if "x \<notin> sa_region (h_index (heaps s h))" "\<not> (a \<le> unat x \<and> unat x < a + n)" for x
  proof -
    have "mem s' x = mem s2 x" using st2(10) [of x] that(1) by (simp add: s2_def del: addr_range_code)
    then show ?thesis using that(2) m2 unat_lt_power [of x] by (auto simp: s2_def agree_def not_le)
  qed
  have ag: "agree a (a + n) m2 (mem s')" using st2(9) by (simp add: s2_def)
  have til: "tiles (mem s') (hend h s) a [(w, False), (n - w, True)]"
    using tiles_agree [OF agree_sub [OF ag], of a "[(w, False), (n - w, True)]" "hend h s"] first second w20 fit(5) by simp
  show thesis
    by (rule that [of s']) (use False split s'(1,3) els st2 fr til only_heap_trans [OF only_heap_mem st2(11) [unfolded s2_def]] in
        \<open>simp_all add: cut_hole_def s2_def m2_def\<close>)
qed

text \<open>The part of \<open>alloc\<close> behind the search, for a hole that is large enough and no alignment.\<close>

lemma alloc_carve_eq:
  assumes look: "lookup_sorted_array (h_index (heaps s h)) i (mem s) = Inr (of_nat a)"
    and size: "hh_size (mem s) (of_nat a) = of_nat n" and w: "w = unat sz + 20" "w \<le> n" "n < 2 ^ 32"
    and rem: "index_remove h i s = Inr s1"
  shows "alloc_carve sz (sz + SIZEOF_header + SIZEOF_footer) 0 i h s =
    (if n - w < 20 then carve_block (of_nat (n - 20)) (of_nat n) (of_nat a) (of_nat n) h s1
     else carve_block (of_nat (w - 20)) (of_nat w) (of_nat a) (of_nat n) h s1)"
proof -
  have sz: "sz = of_nat (w - 20)" using w(1) by simp
  have "w - 20 + 12 + 8 = w" using w(1) by simp
  then have new: "sz + SIZEOF_header + SIZEOF_footer = of_nat w"
    unfolding sz SIZEOF_header_def SIZEOF_footer_def by (metis of_nat_add of_nat_numeral)
  have "unat (SIZEOF_header + SIZEOF_footer) = 20" by (simp add: sizeof_defs)
  then have small: "(of_nat n - of_nat w < SIZEOF_header + SIZEOF_footer) = (n - w < 20)"
    by (simp only: word_less_nat_alt unat_diff_of_nat [OF w(2,3)])
  have "w - 20 + (n - w) = n - 20" using w(1,2) by simp
  then have grow: "sz + (of_nat n - of_nat w) = of_nat (n - 20)"
    unfolding sz by (metis of_nat_add of_nat_diff w(2))
  have front: "carve_front 0 i (of_nat a) (of_nat n) h s = Inr (of_nat a, of_nat n, s1)"
    by (simp add: carve_front_def rem)
  show ?thesis
  proof (cases "n - w < 20")
    case True
    then show ?thesis
      unfolding alloc_carve_def look ebind_Inr Let_def size new small grow front by (simp only: if_True ebind_Inr split)
  next
    case False
    then show ?thesis
      unfolding alloc_carve_def look ebind_Inr Let_def size new small grow front
      by (simp only: if_False ebind_Inr split) (simp only: sz)
  qed
qed

lemma alloc_carve_ok:
  assumes ok: "heap_ok h (xs @ (n, True) # ys) s"
  defines "a \<equiv> hstart h s + total xs"
  assumes i: "i < sa_size (h_index (heaps s h))" "sa_elems (h_index (heaps s h)) (mem s) ! unat i = of_nat a"
    and w: "w = unat sz + 20" "w \<le> n"
  obtains s' where "alloc_carve sz (sz + SIZEOF_header + SIZEOF_footer) 0 i h s = Inr (of_nat a + SIZEOF_header, s')"
    "heap_ok h (xs @ cut_hole n w @ ys) s'"
    "h_addr_start (heaps s' h) = h_addr_start (heaps s h)" "h_addr_end (heaps s' h) = h_addr_end (heaps s h)"
    "sa_region (h_index (heaps s' h)) = sa_region (h_index (heaps s h))"
    "\<And>x. x \<notin> sa_region (h_index (heaps s h)) \<Longrightarrow> \<not> (a \<le> unat x \<and> unat x < a + n) \<Longrightarrow> mem s' x = mem s x"
    "only_heap s s'"
proof -
  note okd = heap_okD [OF ok]
  note sp = heap_ok_split [OF ok, folded a_def]
  have ha: "hstart h s \<le> a" by (simp add: a_def)
  have look: "lookup_sorted_array (h_index (heaps s h)) i (mem s) = Inr (of_nat a)"
    using i by (simp add: lookup_sorted_array_eq word_less_nat_alt)
  have n32: "n < 2 ^ 32" using sp(3) by linarith
  obtain s1 where s1: "index_remove h i s = Inr s1" "index_step h s s1"
    "sa_size (h_index (heaps s1 h)) < sa_maxsize (h_index (heaps s1 h))"
    "add_mset (of_nat a) (mset (sa_elems (h_index (heaps s1 h)) (mem s1))) = mset (sa_elems (h_index (heaps s h)) (mem s))"
    using index_remove_ok [OF okd(3,4) i(1)] i(2) by metis
  note st1 = index_stepD [OF s1(2) okd(3,5)]
  have idx1: "mset (sa_elems (h_index (heaps s1 h)) (mem s1)) = mset (map of_nat (holes (hstart h s) xs @ holes (a + n) ys))"
    using s1(4) okd(6) by (simp add: holes_append a_def)
  have below1: "unat (sa_array (h_index (heaps s1 h))) + 4 * unat (sa_maxsize (h_index (heaps s1 h))) \<le> a"
    using okd(5) ha by (simp add: st1(6,7))
  note eq = alloc_carve_eq [OF look sp(7) w n32 s1(1)]
  have fr1: "mem s1 x = mem s x" if "x \<notin> sa_region (h_index (heaps s h))" for x
    using st1(10) [of x] that by blast
  have end1: "a + n \<le> hend h s1" using sp(2) st1(2) by simp
  have w20: "20 \<le> w" using w(1) by simp
  have cmp1: "sa_cmp (h_index (heaps s1 h)) = Some vm_heap_header_cmp" using okd(4) st1(8) by simp
  obtain s' where c: "(if n - w < 20 then carve_block (of_nat (n - 20)) (of_nat n) (of_nat a) (of_nat n) h s1
      else carve_block (of_nat (w - 20)) (of_nat w) (of_nat a) (of_nat n) h s1) = Inr (of_nat a + SIZEOF_header, s')"
    "tiles (mem s') (hend h s1) a (cut_hole n w)"
    "mset (sa_elems (h_index (heaps s' h)) (mem s'))
      = mset (sa_elems (h_index (heaps s1 h)) (mem s1)) + mset (map of_nat (holes a (cut_hole n w)))"
    "h_addr_start (heaps s' h) = h_addr_start (heaps s1 h)" "h_addr_end (heaps s' h) = h_addr_end (heaps s1 h)"
    "sa_wf (h_index (heaps s' h))" "sa_array (h_index (heaps s' h)) = sa_array (h_index (heaps s1 h))"
    "sa_maxsize (h_index (heaps s' h)) = sa_maxsize (h_index (heaps s1 h))" "sa_cmp (h_index (heaps s' h)) = sa_cmp (h_index (heaps s1 h))"
    "\<And>x. x \<notin> sa_region (h_index (heaps s1 h)) \<Longrightarrow> \<not> (a \<le> unat x \<and> unat x < a + n) \<Longrightarrow> mem s' x = mem s1 x"
    "only_heap s1 s'"
    by (rule carve_space [OF st1(3) cmp1 disjI2 [OF s1(3)] below1 w20 w(2) end1]) (rule that, assumption+)
  have run: "alloc_carve sz (sz + SIZEOF_header + SIZEOF_footer) 0 i h s = Inr (of_nat a + SIZEOF_header, s')"
    unfolding eq by (rule c(1))
  have reg: "sa_region (h_index (heaps s1 h)) = sa_region (h_index (heaps s h))" using st1 by (simp add: sa_region_def)
  have fr: "mem s' x = mem s x" if "x \<notin> sa_region (h_index (heaps s h))" "\<not> (a \<le> unat x \<and> unat x < a + n)" for x
    using c(10) [of x] fr1 [OF that(1)] that reg by simp
  have "heap_ok h (xs @ cut_hole n w @ ys) s'"
    by (rule heap_ok_replace [where os = "[(n, True)]" and xs = xs and s = s and h = h, folded a_def, where zs = "cut_hole n w"])
      (use ok c st1 fr idx1 total_cut_hole [OF w(2)] in simp_all)
  then show thesis
    using only_heap_trans [OF st1(11) c(11)] by (intro that [OF run _ _ _ _ fr]) (use c st1 in \<open>simp_all add: sa_region_def\<close>)
qed

section \<open>alloc with a hole that fits\<close>

lemma hole_in_index:
  assumes ok: "heap_ok h bs s" and "el \<in> set (sa_elems (h_index (heaps s h)) (mem s))"
  obtains xs n ys where "bs = xs @ (n, True) # ys" "el = of_nat (hstart h s + total xs)"
    "hh_size (mem s) el = of_nat n" "n < 2 ^ 32"
proof -
  obtain a where a: "a \<in> set (holes (hstart h s) bs)" "el = of_nat a" using assms index_set [OF ok] by auto
  obtain xs n ys where b: "bs = xs @ (n, True) # ys" "a = hstart h s + total xs" using holes_split [OF a(1)] by blast
  have "n < 2 ^ 32" using heap_ok_size(2) [OF ok [unfolded b(1)]] by linarith
  then show thesis using that [OF b(1)] a(2) b(2) heap_ok_size(3) [OF ok [unfolded b(1)]] by simp
qed

lemma index_of_hole:
  assumes ok: "heap_ok h bs s" and "(n, True) \<in> set bs"
  obtains el where "el \<in> set (sa_elems (h_index (heaps s h)) (mem s))" "hh_size (mem s) el = of_nat n" "n < 2 ^ 32"
proof -
  obtain xs ys where b: "bs = xs @ (n, True) # ys" using assms(2) by (meson split_list)
  have n: "n < 2 ^ 32" using heap_ok_size(2) [OF ok [unfolded b]] by linarith
  have "hstart h s + total xs \<in> set (holes (hstart h s) bs)" by (simp add: b holes_append)
  then have "of_nat (hstart h s + total xs) \<in> set (sa_elems (h_index (heaps s h)) (mem s))"
    using index_set [OF ok] by blast
  then show thesis using that heap_ok_size(3) [OF ok [unfolded b]] n by blast
qed

lemma new_size_nat:
  assumes "unat sz + 20 < 2 ^ 32"
  shows "unat (sz + SIZEOF_header + SIZEOF_footer) = unat sz + 20"
proof -
  have "unat (sz + 20) = unat sz + 20" using assms by (subst unat_add_nowrap) simp_all
  then show ?thesis by (simp add: sizeof_defs add.assoc)
qed

text \<open>The hole that is found is the first in the index whose size suffices.\<close>

lemma alloc_hole:
  assumes ok: "heap_ok h bs s" and fits: "(n0, True) \<in> set bs" "unat sz + 20 \<le> n0"
  obtains xs n ys s' where "bs = xs @ (n, True) # ys" "unat sz + 20 \<le> n"
    "alloc (Suc k) sz 0 h s = Inr (of_nat (hstart h s + total xs) + SIZEOF_header, s')"
    "heap_ok h (xs @ cut_hole n (unat sz + 20) @ ys) s'"
    "h_addr_start (heaps s' h) = h_addr_start (heaps s h)" "h_addr_end (heaps s' h) = h_addr_end (heaps s h)"
    "sa_region (h_index (heaps s' h)) = sa_region (h_index (heaps s h))"
    "\<And>x. x \<notin> sa_region (h_index (heaps s h)) \<Longrightarrow>
        \<not> (hstart h s + total xs \<le> unat x \<and> unat x < hstart h s + total xs + n) \<Longrightarrow> mem s' x = mem s x"
    "only_heap s s'"
    "\<exists>j < length (sa_elems (h_index (heaps s h)) (mem s)).
        sa_elems (h_index (heaps s h)) (mem s) ! j = of_nat (hstart h s + total xs)
        \<and> (\<forall>i < j. unat (hh_size (mem s) (sa_elems (h_index (heaps s h)) (mem s) ! i)) < unat sz + 20)"
proof -
  let ?es = "sa_elems (h_index (heaps s h)) (mem s)"
  let ?w = "sz + SIZEOF_header + SIZEOF_footer"
  obtain el where el: "el \<in> set ?es" "hh_size (mem s) el = of_nat n0" "n0 < 2 ^ 32"
    using index_of_hole [OF ok fits(1)] .
  have w: "unat ?w = unat sz + 20" using fits(2) el(3) by (intro new_size_nat) linarith
  have fit: "hole_fits ?w 0 (mem s) x \<longleftrightarrow> unat sz + 20 \<le> unat (hh_size (mem s) x)" for x
    by (simp add: hole_fits_def word_le_nat_alt w)
  have "hole_fits ?w 0 (mem s) el" using fit el fits(2) by (simp add: unat_of_nat32)
  then have "\<exists>j < length ?es. hole_fits ?w 0 (mem s) (?es ! j)" using el(1) by (metis in_set_conv_nth)
  then obtain j where j: "j < length ?es" "hole_fits ?w 0 (mem s) (?es ! j)"
    "\<forall>i < j. \<not> hole_fits ?w 0 (mem s) (?es ! i)"
    "find_smallest_hole ?w 0 (heaps s h) (mem s) = Inr (of_nat j)" "of_nat j \<noteq> (-1 :: u32)"
    using find_smallest_hole_spec [OF heap_okD(3) [OF ok], where sz = ?w and pa = 0 and m = "mem s"] by blast
  have "j < 4294967296"
    using j(1) unat_lt32 [of "sa_size (h_index (heaps s h))"] unfolding length_sa_elems by linarith
  then have j32: "unat (of_nat j :: u32) = j" by (rule unat_of_nat32)
  obtain xs n ys where b: "bs = xs @ (n, True) # ys" "?es ! j = of_nat (hstart h s + total xs)"
    "hh_size (mem s) (?es ! j) = of_nat n" "n < 2 ^ 32"
    using hole_in_index [OF ok nth_mem [OF j(1)]] .
  have wn: "unat sz + 20 \<le> n" using j(2) fit b(3,4) by (simp add: unat_of_nat32)
  have i: "of_nat j < sa_size (h_index (heaps s h))" using j(1) j32 by (simp add: word_less_nat_alt)
  have step: "alloc (Suc k) sz 0 h s = alloc_carve sz ?w 0 (of_nat j) h s" using j(4,5) by (simp add: Let_def)
  show thesis
    by (rule alloc_carve_ok [OF ok [unfolded b(1)] i _ refl wn])
      (use that [OF b(1) wn] step j(1,3) j32 b(2) fit in \<open>auto simp: not_le\<close>)
qed

lemma payload_not_in_hole:
  assumes ok: "heap_ok h (xs @ (n, True) # ys) s" and "(q, l) \<in> set (payloads (hstart h s) (xs @ (n, True) # ys))"
    and "q \<le> unat x" "unat x < q + l"
  shows "x \<notin> sa_region (h_index (heaps s h))"
    "\<not> (hstart h s + total xs \<le> unat x \<and> unat x < hstart h s + total xs + n)"
proof -
  note sp = heap_ok_split [OF ok]
  have "hstart h s + 12 \<le> q" using payloads_range [OF heap_okD(2) [OF ok] assms(2)] by simp
  then show "x \<notin> sa_region (h_index (heaps s h))"
    using region_below [OF heap_okD(3,5) [OF ok]] assms(3) by simp
  have "(q, l) \<in> set (payloads (hstart h s) xs) \<or> (q, l) \<in> set (payloads (hstart h s + total xs + n) ys)"
    using assms(2) by (auto simp: payloads_append)
  then show "\<not> (hstart h s + total xs \<le> unat x \<and> unat x < hstart h s + total xs + n)"
    using payloads_range [OF sp(4)] payloads_range [OF sp(5)] assms(3,4) by fastforce
qed

lemma payloads_cut_hole:
  assumes "w \<le> n" "w = v + 20"
  obtains l where "v \<le> l" "l < v + 20"
    "mset (payloads a (xs @ cut_hole n w @ ys)) = add_mset (a + total xs + 12, l) (mset (payloads a (xs @ (n, True) # ys)))"
proof -
  define l where "l = (if n - w < 20 then n - 20 else v)"
  have "mset (payloads a (xs @ cut_hole n w @ ys)) = add_mset (a + total xs + 12, l) (mset (payloads a (xs @ (n, True) # ys)))"
    using assms by (simp add: payloads_append cut_hole_def l_def add.assoc)
  moreover have "v \<le> l" "l < v + 20" using assms by (auto simp: l_def)
  ultimately show thesis using that by blast
qed

lemma alloc_payload:
  assumes ok: "heap_ok h bs s" and fits: "(n0, True) \<in> set bs" "unat sz + 20 \<le> n0"
  shows "\<exists>p l bs' s'. alloc (Suc k) sz 0 h s = Inr (of_nat p, s') \<and> heap_ok h bs' s' \<and> only_heap s s'
    \<and> h_addr_start (heaps s' h) = h_addr_start (heaps s h) \<and> unat sz \<le> l \<and> l < unat sz + 20 \<and> p < 2 ^ 32
    \<and> mset (payloads (hstart h s) bs') = add_mset (p, l) (mset (payloads (hstart h s) bs))
    \<and> (\<forall>x q l. (q, l) \<in> set (payloads (hstart h s) bs) \<and> q \<le> unat x \<and> unat x < q + l \<longrightarrow> mem s' x = mem s x)"
proof (rule alloc_hole [OF ok fits, of k])
  fix xs n ys s'
  assume r: "bs = xs @ (n, True) # ys" "unat sz + 20 \<le> n"
    "alloc (Suc k) sz 0 h s = Inr (of_nat (hstart h s + total xs) + SIZEOF_header, s')"
    "heap_ok h (xs @ cut_hole n (unat sz + 20) @ ys) s'" "h_addr_start (heaps s' h) = h_addr_start (heaps s h)"
    "only_heap s s'"
    and fr: "\<And>x. x \<notin> sa_region (h_index (heaps s h)) \<Longrightarrow>
        \<not> (hstart h s + total xs \<le> unat x \<and> unat x < hstart h s + total xs + n) \<Longrightarrow> mem s' x = mem s x"
  obtain l where l: "unat sz \<le> l" "l < unat sz + 20"
    "mset (payloads (hstart h s) (xs @ cut_hole n (unat sz + 20) @ ys))
      = add_mset (hstart h s + total xs + 12, l) (mset (payloads (hstart h s) bs))"
    using payloads_cut_hole [OF r(2) refl, of "hstart h s" xs ys] r(1) by metis
  have "mem s' x = mem s x" if "(q, l) \<in> set (payloads (hstart h s) bs)" "q \<le> unat x" "unat x < q + l" for x q l
    using payload_not_in_hole [OF ok [unfolded r(1)], of q l x] that r(1) by (intro fr) auto
  moreover have "hstart h s + total xs + 12 < 2 ^ 32"
    using heap_ok_split(1,3) [OF ok [unfolded r(1)]] by linarith
  ultimately show ?thesis
    using r(3-6) l by (intro exI [of _ "hstart h s + total xs + 12"] exI [of _ l]
      exI [of _ "xs @ cut_hole n (unat sz + 20) @ ys"] exI [of _ s']) (auto simp: SIZEOF_header_def)
qed

section \<open>init_heap\<close>

lemma align_up_aligned:
  assumes "unat a mod 4096 = 0" "4096 \<le> unat a"
  shows "align_up a = a + 0x1000"
proof -
  have "(0xFFFFF000 :: u32) = NOT (mask 12)" by (simp add: mask_eq_exp_minus_1)
  then have u: "unat (a AND 0xFFFFF000) = unat a" using unat_and_not_mask [of a 12] assms(1) by simp
  then have "a AND 0xFFFFF000 = a" by (simp add: word_unat_eq_iff)
  moreover have "a AND 0xFFFFF000 \<noteq> 0" using u assms(2) by auto
  ultimately show ?thesis by (simp add: align_up_def)
qed

lemma init_heap_ok:
  assumes al: "unat start mod 4096 = 0" "unat e mod 4096 = 0" and room: "unat start + 0x81000 + 20 \<le> unat e"
  obtains s' where "init_heap h start e mx su ro s = Inr s'"
    "heap_ok h [(unat e - (unat start + 0x81000), True)] s'"
    "h_addr_start (heaps s' h) = start + 0x81000" "h_addr_end (heaps s' h) = e" "h_addr_max (heaps s' h) = mx"
    "\<And>x. unat x < unat start \<or> unat start + 0x8100C \<le> unat x \<Longrightarrow> mem s' x = mem s x"
    "sa_array (h_index (heaps s' h)) = start" "sa_maxsize (h_index (heaps s' h)) = VM_HEAP_INDEX_SIZE"
proof -
  let ?S = "start + 0x81000"
  have "unat e < 2 ^ 32" by (rule unat_lt_power)
  then have lt: "unat start + 0x81000 + 20 < 2 ^ 32" using room by linarith
  have u1: "unat (start + 0x80000) = unat start + 0x80000" using lt by (subst unat_add_nowrap) simp_all
  have uS: "unat ?S = unat start + 0x81000" using lt by (subst unat_add_nowrap) simp_all
  have four: "start + 4 * VM_HEAP_INDEX_SIZE = start + 0x80000" by (simp add: heap_consts)
  have au: "align_up (start + 4 * VM_HEAP_INDEX_SIZE) = ?S"
    unfolding four using al(1) by (subst align_up_aligned) (simp_all add: u1 mod_add_eq [symmetric])
  have k: "start mod 0x1000 = 0" "e mod 0x1000 = 0" using al by (simp_all add: word_unat_eq_iff unat_mod_distrib)
  define ix where "ix = \<lparr>sa_array = start, sa_size = 0, sa_maxsize = VM_HEAP_INDEX_SIZE, sa_cmp = Some vm_heap_header_cmp\<rparr>"
  define m0 where "m0 = bzero start (VM_HEAP_INDEX_SIZE * 4) (mem s)"
  define hp where "hp = \<lparr>h_index = ix, h_addr_start = ?S, h_addr_end = e, h_addr_max = mx, h_su = su, h_ro = ro\<rparr>"
  define s1 where "s1 = (upd_heap h (\<lambda>_. hp) (s\<lparr>mem := m0\<rparr>))\<lparr>mem := put_header ?S 1 (e - ?S) m0\<rparr>"
  have run: "init_heap h start e mx su ro s = index_insert h ?S s1"
    by (simp add: init_heap_def place_sorted_array_def Let_def k au s1_def hp_def ix_def m0_def)
  have h1: "heaps s1 h = hp" "mem s1 = put_header ?S 1 (e - ?S) m0" by (simp_all add: s1_def)
  have wf: "sa_wf ix" using lt by (simp add: ix_def sa_wf_def heap_consts)
  obtain s' where s': "index_insert h ?S s1 = Inr s'" "index_step h s1 s'"
    "mset (sa_elems (h_index (heaps s' h)) (mem s')) = add_mset ?S (mset (sa_elems ix (mem s1)))"
    by (rule index_insert_ok [of s1 h ?S]) (use wf in \<open>simp_all add: h1 hp_def ix_def heap_consts\<close>)
  have below: "unat (sa_array (h_index (heaps s1 h))) + 4 * unat (sa_maxsize (h_index (heaps s1 h))) \<le> unat ?S"
    by (simp add: h1 hp_def ix_def heap_consts uS)
  have wf1: "sa_wf (h_index (heaps s1 h))" using wf by (simp add: h1 hp_def)
  note st = index_stepD [OF s'(2) wf1 below]
  let ?n = "unat e - (unat start + 0x81000)"
  have n: "unat ?S + ?n = unat e" "20 \<le> ?n" using room uS by simp_all
  have nw: "e - ?S = of_nat ?n"
  proof -
    have "unat (e - ?S) = ?n" using n(1) uS by (subst unat_sub_nowrap) simp_all
    then show ?thesis by (metis of_nat_unat ucast_id)
  qed
  have "agree (unat ?S) (unat ?S + 12) (mem s1) (mem s')" using st(9) .
  then have hdr: "hh_magic (mem s') ?S = VM_HEAP_HDR_MAGIC" "hh_is_hole (mem s') ?S = 1" "hh_size (mem s') ?S = of_nat ?n"
    using header_agree [of "unat ?S" "unat ?S + 12" "mem s1" "mem s'" "unat ?S"] lt
    by (simp_all add: uS h1(2) flip: nw)
  then have blk: "block_at (mem s') (unat e) (unat ?S) ?n True" using n by (simp add: block_at_def)
  have els: "sa_elems ix (mem s1) = []" by (simp add: ix_def sa_elems_def)
  have ok: "heap_ok h [(?n, True)] s'"
    using n blk st below wf s'(3) els by (simp add: heap_ok_def Let_def h1 hp_def ix_def)
  obtain ix' m' where "s' = upd_heap h (\<lambda>hp. hp\<lparr>h_index := ix'\<rparr>) (s1\<lparr>mem := m'\<rparr>)"
    using s'(2) unfolding index_step_def by blast
  then have flds: "h_addr_start (heaps s' h) = ?S" "h_addr_end (heaps s' h) = e" "h_addr_max (heaps s' h) = mx"
    by (simp_all add: h1 hp_def)
  have fr: "mem s' x = mem s x" if x: "unat x < unat start \<or> unat start + 0x8100C \<le> unat x" for x
  proof -
    have rg: "y \<in> addr_range start (unat (VM_HEAP_INDEX_SIZE * 4)) \<longleftrightarrow> unat start \<le> unat y \<and> unat y < unat start + 0x80000" for y
      using lt by (subst addr_range_nowrap) (simp_all add: heap_consts)
    have reg: "sa_region ix = addr_range start (unat (VM_HEAP_INDEX_SIZE * 4))"
      by (simp add: sa_region_def ix_def heap_consts)
    have "x \<notin> sa_region (h_index (heaps s1 h))" using x rg by (auto simp: h1 hp_def reg simp del: addr_range_code)
    then have "mem s' x = put_header ?S 1 (e - ?S) m0 x" using st(10) [of x] h1(2) by simp
    also have "\<dots> = m0 x"
    proof -
      have "agree 0 (unat ?S) m0 (put_header (of_nat (unat ?S)) 1 (e - ?S) m0)"
        "agree (unat ?S + 12) (2 ^ 32) m0 (put_header (of_nat (unat ?S)) 1 (e - ?S) m0)"
        by (rule agree_put_header; use uS lt in simp)+
      then show ?thesis using x uS unat_lt_power [of x] by (auto simp: agree_def)
    qed
    also have "\<dots> = mem s x" using x rg [of x] by (auto simp: m0_def bzero_apply simp del: addr_range_code)
    finally show ?thesis .
  qed
  have ixf: "sa_array (h_index (heaps s' h)) = start" "sa_maxsize (h_index (heaps s' h)) = VM_HEAP_INDEX_SIZE"
    using st(6,7) by (simp_all add: h1 hp_def ix_def)
  from that [OF _ ok flds fr ixf] show thesis using run s'(1) by simp
qed

section \<open>Properties\<close>

text \<open>
  \<open>find_smallest_hole\<close> returns the position of the first hole of the
  index that is large enough, counting the padding when the block must be page-aligned, and -1 exactly
  when no hole of the index is.
\<close>
theorem find_smallest_hole_first_fit:
  assumes "sa_wf (h_index hp)"
  shows "(\<exists>k < length (sa_elems (h_index hp) m). hole_fits sz page_align m (sa_elems (h_index hp) m ! k)
        \<and> (\<forall>j < k. \<not> hole_fits sz page_align m (sa_elems (h_index hp) m ! j))
        \<and> find_smallest_hole sz page_align hp m = Inr (of_nat k))
    \<or> (\<forall>j < length (sa_elems (h_index hp) m). \<not> hole_fits sz page_align m (sa_elems (h_index hp) m ! j))
        \<and> find_smallest_hole sz page_align hp m = Inr (-1)"
  using find_smallest_hole_spec [OF assms, where sz = sz and pa = page_align and m = m] by blast

lemma example_index:
  "sa_wf (h_index example_vm_heap)" "sa_elems (h_index example_vm_heap) example_heap_mem = [0x2000, 0x20A0]"
  by (simp_all add: example_vm_heap_def sa_wf_def sa_elems_def sa_get_def upt_conv_Cons example_heap_mem_def
      read32_write32_apart)

lemma example_sizes: "hh_size example_heap_mem 0x2000 = 40" "hh_size example_heap_mem 0x20A0 = 40"
  by (simp_all add: example_heap_mem_def put_block_def field_defs read32_write32_apart)

theorem find_smallest_hole_first_fit_witness:
  "find_smallest_hole 40 0 example_vm_heap example_heap_mem = Inr 0
    \<and> find_smallest_hole 41 0 example_vm_heap example_heap_mem = Inr (-1)"
proof -
  have fits: "hole_fits 40 0 example_heap_mem 0x2000" "\<not> hole_fits 41 0 example_heap_mem 0x2000"
    "\<not> hole_fits 41 0 example_heap_mem 0x20A0"
    by (simp_all add: hole_fits_def example_sizes)
  have two: "j < length [0x2000, 0x20A0 :: u32] \<longleftrightarrow> j = 0 \<or> j = 1" for j by auto
  show ?thesis
    using find_smallest_hole_first_fit [OF example_index(1), where sz = 40 and page_align = 0 and m = example_heap_mem, unfolded example_index(2) two]
      find_smallest_hole_first_fit [OF example_index(1), where sz = 41 and page_align = 0 and m = example_heap_mem, unfolded example_index(2) two]
      fits by fastforce
qed

text \<open>
  C9: With a hole large enough for the payload, the header and the footer, an unaligned
  \<open>alloc\<close> succeeds without growing the heap. The heap keeps its layout invariant; the blocks in use are
  the old ones and the returned one, whose payload has at least the requested size and less than 20
  bytes more; and no byte of the payload of an old block changes.
\<close>
theorem alloc_from_hole:
  assumes "heap_ok h bs s" "(n, True) \<in> set bs" "unat sz + 20 \<le> n"
  shows "\<exists>p l bs' s'. alloc (Suc k) sz 0 h s = Inr (of_nat p, s') \<and> heap_ok h bs' s'
    \<and> h_addr_start (heaps s' h) = h_addr_start (heaps s h) \<and> unat sz \<le> l \<and> l < unat sz + 20 \<and> p < 2 ^ 32
    \<and> mset (payloads (hstart h s) bs') = add_mset (p, l) (mset (payloads (hstart h s) bs))
    \<and> (\<forall>x q l. (q, l) \<in> set (payloads (hstart h s) bs) \<and> q \<le> unat x \<and> unat x < q + l \<longrightarrow> mem s' x = mem s x)"
  using alloc_payload [OF assms, of k] by metis

theorem alloc_from_hole_witness:
  "\<exists>p l s'. alloc 1 16 0 0x500 example_heap = Inr (of_nat p, s') \<and> 16 \<le> l \<and> l < 36
    \<and> mset (payloads 8192 (blocks_of 0x500 s')) = {# (p, l), (8244, 20), (8284, 20), (8324, 20), (8404, 20) #}"
proof -
  have s: "hstart h example_heap = 8192" for h by (simp add: example_vm_heap_def)
  have hole: "(40, True) \<in> set example_blocks" by (simp add: example_blocks_def)
  obtain p l bs' s' where r: "alloc (Suc 0) 16 0 0x500 example_heap = Inr (of_nat p, s')" "heap_ok 0x500 bs' s'"
    "16 \<le> l" "l < 36" "mset (payloads 8192 bs') = add_mset (p, l) (mset (payloads 8192 example_blocks))"
    using alloc_from_hole [OF example_heap_ok hole, of 16 0 "0x500"] unfolding s by auto
  then have "blocks_of 0x500 s' = bs'" by (intro heap_ok_blocks)
  then show ?thesis using r by (intro exI [of _ p] exI [of _ l] exI [of _ s']) (simp add: example_blocks_def)
qed

text \<open>
  C29: When the index is in the order of the sizes of its holes, the block is cut from
  a smallest hole among those that are large enough.
\<close>
theorem alloc_takes_smallest:
  assumes ok: "heap_ok h bs s" and fits: "(n0, True) \<in> set bs" "unat sz + 20 \<le> n0"
    and sorted: "sorted (map (\<lambda>x. unat (hh_size (mem s) x)) (sa_elems (h_index (heaps s h)) (mem s)))"
  shows "\<exists>xs n ys s'. bs = xs @ (n, True) # ys \<and> unat sz + 20 \<le> n
    \<and> alloc (Suc k) sz 0 h s = Inr (of_nat (hstart h s + total xs) + SIZEOF_header, s')
    \<and> (\<forall>n'. (n', True) \<in> set bs \<and> unat sz + 20 \<le> n' \<longrightarrow> n \<le> n')"
proof (rule alloc_hole [OF ok fits, of k])
  let ?es = "sa_elems (h_index (heaps s h)) (mem s)"
  let ?size = "\<lambda>x. unat (hh_size (mem s) x)"
  fix xs n ys s'
  assume r: "bs = xs @ (n, True) # ys" "unat sz + 20 \<le> n"
    "alloc (Suc k) sz 0 h s = Inr (of_nat (hstart h s + total xs) + SIZEOF_header, s')"
    and "\<exists>j < length ?es. ?es ! j = of_nat (hstart h s + total xs) \<and> (\<forall>i < j. ?size (?es ! i) < unat sz + 20)"
  then obtain j where j: "j < length ?es" "?es ! j = of_nat (hstart h s + total xs)"
    "\<forall>i < j. ?size (?es ! i) < unat sz + 20" by blast
  note sp = heap_ok_split [OF ok [unfolded r(1)]]
  have "n < 4294967296" using sp(3) by simp
  then have sj: "?size (?es ! j) = n" using sp(7) j(2) by (simp only: unat_of_nat32)
  have "n \<le> n'" if n': "(n', True) \<in> set bs" "unat sz + 20 \<le> n'" for n'
  proof -
    obtain el where el: "el \<in> set ?es" "hh_size (mem s) el = of_nat n'" "n' < 2 ^ 32"
      using index_of_hole [OF ok n'(1)] .
    then obtain i where i: "i < length ?es" "?es ! i = el" by (auto simp: in_set_conv_nth)
    have si: "?size (?es ! i) = n'" using el(2,3) i(2) by (simp add: unat_of_nat32)
    then have "j \<le> i" using j(3) n'(2) by (metis not_less)
    then have "?size (?es ! j) \<le> ?size (?es ! i)"
      using sorted_nth_mono [OF sorted, of j i] i(1) by simp
    then show ?thesis using si sj by simp
  qed
  then show ?thesis using r by blast
qed

theorem alloc_takes_smallest_witness:
  "\<exists>xs n ys s'. example_blocks = xs @ (n, True) # ys \<and> n = 40
    \<and> alloc 1 16 0 0x500 example_heap = Inr (of_nat (8192 + total xs) + SIZEOF_header, s')"
proof -
  have s: "hstart h example_heap = 8192" for h by (simp add: example_vm_heap_def)
  have hole: "(40, True) \<in> set example_blocks" by (simp add: example_blocks_def)
  have "sorted (map (\<lambda>x. unat (hh_size (mem example_heap) x))
      (sa_elems (h_index (heaps example_heap 0x500)) (mem example_heap)))"
    by (simp add: example_index example_sizes)
  from alloc_takes_smallest [OF example_heap_ok hole _ this, of 16 0]
  obtain xs n ys s' where r: "example_blocks = xs @ (n, True) # ys"
    "alloc (Suc 0) 16 0 0x500 example_heap = Inr (of_nat (8192 + total xs) + SIZEOF_header, s')"
    unfolding s by auto
  have "(n, True) \<in> set example_blocks" using r(1) by (metis in_set_conv_decomp)
  then have "n = 40" by (auto simp: example_blocks_def)
  then show ?thesis using r by auto
qed

text \<open>
  For a page-aligned range with room for the index, \<open>init_heap\<close> makes a heap of one
  hole. The hole starts a whole page behind the index although the end of the index is already
  page-aligned, and the header of the hole is all that is written behind the index.
\<close>
theorem init_heap_single_hole:
  assumes "unat start mod 4096 = 0" "unat e mod 4096 = 0" "unat start + 0x81000 + 20 \<le> unat e"
  shows "\<exists>s'. init_heap h start e mx su ro s = Inr s'
    \<and> heap_ok h [(unat e - (unat start + 0x81000), True)] s'
    \<and> h_addr_start (heaps s' h) = start + 0x81000 \<and> h_addr_end (heaps s' h) = e \<and> h_addr_max (heaps s' h) = mx
    \<and> (\<forall>x. unat x < unat start \<or> unat start + 0x8100C \<le> unat x \<longrightarrow> mem s' x = mem s x)"
proof (rule init_heap_ok [OF assms, of h mx su ro s])
  fix s'
  assume r: "init_heap h start e mx su ro s = Inr s'" "heap_ok h [(unat e - (unat start + 0x81000), True)] s'"
    "h_addr_start (heaps s' h) = start + 0x81000" "h_addr_end (heaps s' h) = e" "h_addr_max (heaps s' h) = mx"
    "\<And>x. unat x < unat start \<or> unat start + 0x8100C \<le> unat x \<Longrightarrow> mem s' x = mem s x"
  then show ?thesis by blast
qed

theorem init_heap_single_hole_witness:
  "\<exists>s'. init_heap 0x500 0xC0000000 0xC0100000 0xCFFFF000 0 0 boot_kmem = Inr s'
    \<and> blocks_of 0x500 s' = [(0x7F000, True)]"
  using init_heap_single_hole [of "0xC0000000" "0xC0100000" "0x500" "0xCFFFF000" 0 0 boot_kmem]
  by (auto dest: heap_ok_blocks)

end
