(* ===== verification/Heap_Free.thy ===== *)
theory Heap_Free
  imports Heap_Layout
begin

text \<open>
  What \<open>free\<close> does to the layout of a heap: the block becomes a hole, and a hole on its left absorbs it.
  When there is a hole on its right, the footer of that hole is not updated (the last section).
\<close>

section \<open>The checks and the left neighbour\<close>

lemma free_unfold:
  assumes ok: "heap_ok h (xs @ (n, False) # ys) s" and h: "h \<noteq> 0"
  defines "a \<equiv> hstart h s + total xs"
  shows "free (of_nat a + SIZEOF_header) h s =
    (case unify_left (of_nat a) (of_nat (a + n - 8)) (set_hh_is_hole (of_nat a) 1 (mem s)) of (header, do_add, m) \<Rightarrow>
       ebind (unify_right header (of_nat (a + n - 8)) h (s\<lparr>mem := m\<rparr>)) (\<lambda>(footer, s).
       ebind (release_tail header footer (of_nat (a + n)) h s) (\<lambda>s.
         if do_add then index_insert h header s else Inr s)))"
proof -
  note sp = heap_ok_split [OF ok, folded a_def]
  have foot: "footer_at (mem s) a n" using sp(6) by (simp add: block_at_def)
  have an: "a + n - 8 + 8 = a + n" using sp(1) by simp
  then have w: "of_nat (a + n - 8) + SIZEOF_footer = (of_nat (a + n) :: u32)"
    unfolding SIZEOF_footer_def by (metis of_nat_add of_nat_numeral)
  then have w2: "of_nat a + of_nat n - SIZEOF_footer = (of_nat (a + n - 8) :: u32)" by (simp add: algebra_simps)
  have "of_nat a + SIZEOF_header = (of_nat (a + 12) :: u32)" by (simp add: SIZEOF_header_def)
  moreover have "unat (of_nat (a + 12) :: u32) = a + 12" using sp(1,3) by (intro unat_of_nat32) simp
  ultimately have "of_nat a + SIZEOF_header \<noteq> (0 :: u32)" by auto
  then show ?thesis
    using h foot sp(6) unfolding free_def
    by (simp only: if_False simp_thms Let_def add_diff_cancel_right' sp(7) w w2 footer_at_def block_at_def
        kassert_True ebind_Inr refl)
qed

text \<open>The word before a block: the footer of the block on its left, or whatever is below the heap.\<close>

definition no_ghost :: "u32 \<Rightarrow> 'a kmem_scheme \<Rightarrow> bool" where
  "no_ghost h s \<longleftrightarrow> 8 \<le> hstart h s
     \<and> hf_magic (mem s) (h_addr_start (heaps s h) - SIZEOF_footer) \<noteq> VM_HEAP_FTR_MAGIC"

lemma footer_before:
  assumes ok: "heap_ok h (xs @ (k, f) # b # ys) s"
  defines "a \<equiv> hstart h s + total xs"
  shows "hf_magic (mem s) (of_nat (a + k) - SIZEOF_footer) = VM_HEAP_FTR_MAGIC"
    "hf_header (mem s) (of_nat (a + k) - SIZEOF_footer) = of_nat a"
    "of_nat (a + k) - SIZEOF_footer = (of_nat (a + k - 8) :: u32)"
proof -
  note sp = heap_ok_split [OF ok, folded a_def]
  obtain n g where b: "b = (n, g)" by (cases b)
  have "block_at (mem s) (hend h s) (a + k) n g" using sp(5) b by simp
  then have "a + k < hend h s" using sp(2) b by (simp add: block_at_def)
  then have f: "footer_at (mem s) a k" using sp(6) by (simp add: block_at_def)
  have "a + k - 8 + 8 = a + k" using sp(1) by simp
  then have "of_nat (a + k - 8) + (8 :: u32) = of_nat (a + k)" by (metis of_nat_add of_nat_numeral)
  then show w: "of_nat (a + k) - SIZEOF_footer = (of_nat (a + k - 8) :: u32)"
    by (simp add: SIZEOF_footer_def algebra_simps)
  show "hf_magic (mem s) (of_nat (a + k) - SIZEOF_footer) = VM_HEAP_FTR_MAGIC"
    "hf_header (mem s) (of_nat (a + k) - SIZEOF_footer) = of_nat a"
    using f unfolding w by (simp_all add: footer_at_def)
qed

lemma mark_agree:
  assumes "a + 12 \<le> 2 ^ 32" "hi \<le> a + 4 \<or> a + 8 \<le> lo"
  shows "agree lo hi m (set_hh_is_hole (of_nat a) v m)"
  by (rule agree_set_hh_is_hole [OF agree_refl]) (use assms in auto)

text \<open>The left neighbour is not a hole: a block in use, or the heap starts here.\<close>

definition left_used :: "u32 \<Rightarrow> (nat \<times> bool) list \<Rightarrow> 'a kmem_scheme \<Rightarrow> bool" where
  "left_used h xs s \<longleftrightarrow> (if xs = [] then no_ghost h s else \<not> snd (last xs))"

lemma unify_left_none:
  assumes ok: "heap_ok h (xs @ (n, f) # ys) s" and left: "left_used h xs s"
  defines "a \<equiv> hstart h s + total xs"
  shows "unify_left (of_nat a) footer (set_hh_is_hole (of_nat a) 1 (mem s))
    = (of_nat a, True, set_hh_is_hole (of_nat a) 1 (mem s))"
proof -
  let ?m = "set_hh_is_hole (of_nat a) 1 (mem s)"
  note sp = heap_ok_split [OF ok, folded a_def]
  have a12: "a + 12 \<le> 2 ^ 32" using sp(1,3) by linarith
  have ag: "agree lo hi (mem s) ?m" if "hi \<le> a" for lo hi
    using that by (intro mark_agree [OF a12]) simp
  have "\<not> (hf_magic ?m (of_nat a - SIZEOF_footer) = VM_HEAP_FTR_MAGIC
      \<and> hh_is_hole ?m (hf_header ?m (of_nat a - SIZEOF_footer)) = 1)"
  proof (cases "xs = []")
    case True
    then have g: "8 \<le> a" "hf_magic (mem s) (of_nat a - SIZEOF_footer) \<noteq> VM_HEAP_FTR_MAGIC"
      using left by (simp_all add: left_used_def no_ghost_def a_def)
    have "of_nat a - SIZEOF_footer = (of_nat (a - 8) :: u32)"
      using g(1) by (simp add: SIZEOF_footer_def of_nat_diff)
    then show ?thesis
      using footer_agree(1) [OF ag [OF order_refl], of 0 "a - 8"] g sp(3) by simp
  next
    case False
    then obtain xs' j where xs: "xs = xs' @ [(j, False)]"
      using left by (cases xs rule: rev_cases) (auto simp: left_used_def)
    define c where "c = hstart h s + total xs'"
    have a: "a = c + j" by (simp add: a_def c_def xs)
    have ok': "heap_ok h (xs' @ (j, False) # (n, f) # ys) s" using ok xs by simp
    note fb = footer_before [OF ok', folded c_def, folded a]
    note spj = heap_ok_split [OF ok', folded c_def]
    have "hf_header ?m (of_nat a - SIZEOF_footer) = of_nat c"
      using footer_agree(2) [OF ag [OF order_refl], of 0 "a - 8"] fb spj(1,3) a by simp
    moreover have "hh_is_hole ?m (of_nat c) = 0"
      using header_agree(2) [OF ag [OF order_refl], of 0 c] spj(1,3,6) a by (simp add: block_at_def)
    ultimately show ?thesis by simp
  qed
  then show ?thesis by (simp only: unify_left_def Let_def if_False)
qed

lemma unify_left_merge:
  assumes ok: "heap_ok h (xs @ (j, True) # (n, f) # ys) s"
  defines "a \<equiv> hstart h s + total xs"
  shows "unify_left (of_nat (a + j)) (of_nat (a + j + n - 8)) (set_hh_is_hole (of_nat (a + j)) 1 (mem s))
    = (of_nat a, False, set_hh_size (of_nat a) (of_nat (j + n))
         (set_hf_header (of_nat (a + j + n - 8)) (of_nat a) (set_hh_is_hole (of_nat (a + j)) 1 (mem s))))"
proof -
  let ?m = "set_hh_is_hole (of_nat (a + j)) 1 (mem s)"
  let ?m2 = "set_hf_header (of_nat (a + j + n - 8)) (of_nat a) ?m"
  note sp = heap_ok_split [OF ok, folded a_def]
  note fb = footer_before [OF ok, folded a_def]
  have blk: "block_at (mem s) (hend h s) (a + j) n f" using sp(5) by simp
  then have n20: "20 \<le> n" by (simp add: block_at_def)
  have "a + j + n + total ys = hend h s" using sp(2) by simp
  then have le: "a + j + n < 2 ^ 32" using unat_lt_power [of "h_addr_end (heaps s h)"] by linarith
  have ag: "agree 0 (a + j) (mem s) ?m" using n20 le by (intro mark_agree) simp_all
  have ag2: "agree 0 (a + j) (mem s) ?m2"
    by (rule agree_set_hf_header [OF ag]) (use n20 le in simp_all)
  have f: "hf_magic ?m (of_nat (a + j) - SIZEOF_footer) = VM_HEAP_FTR_MAGIC"
    "hf_header ?m (of_nat (a + j) - SIZEOF_footer) = of_nat a"
    using footer_agree [OF ag, of "a + j - 8"] fb sp(1,3) by simp_all
  have hole: "hh_is_hole ?m (of_nat a) = 1"
    using header_agree(2) [OF ag, of a] sp(1,3,6) by (simp add: block_at_def)
  have sj: "hh_size ?m2 (of_nat a) = of_nat j"
    using header_agree(3) [OF ag2, of a] sp(1,3,7) by simp
  have sn: "hh_size ?m (of_nat (a + j)) = of_nat n" using blk by (simp add: block_at_def)
  show ?thesis
    by (simp only: unify_left_def Let_def f hole simp_thms if_True sn sj of_nat_add [symmetric])
qed

section \<open>A block in use on the right\<close>

lemma footer_plus:
  assumes "8 \<le> n"
  shows "of_nat (a + n - 8) + SIZEOF_footer = (of_nat (a + n) :: u32)"
proof -
  have "a + n - 8 + 8 = a + n" using assms by simp
  then show ?thesis unfolding SIZEOF_footer_def by (metis of_nat_add of_nat_numeral)
qed

text \<open>With a block in use behind the freed one, the last two stages do nothing.\<close>

lemma stages_right_used:
  assumes ok: "heap_ok h (xs @ (n, f) # (k, False) # ys) s"
  defines "a \<equiv> hstart h s + total xs"
  assumes ag: "agree (a + n) (a + n + k) (mem s) m"
  shows "unify_right header (of_nat (a + n - 8)) h (s\<lparr>mem := m\<rparr>) = Inr (of_nat (a + n - 8), s\<lparr>mem := m\<rparr>)"
    "release_tail header (of_nat (a + n - 8)) t h (s\<lparr>mem := m\<rparr>) = Inr (s\<lparr>mem := m\<rparr>)"
proof -
  note sp = heap_ok_split [OF ok, folded a_def]
  have blk: "block_at (mem s) (hend h s) (a + n) k False" using sp(5) by simp
  then have k: "20 \<le> k" by (simp add: block_at_def)
  have e: "a + n + k + total ys = hend h s" using sp(2) by simp
  then have le: "a + n + k \<le> 2 ^ 32" using unat_lt_power [of "h_addr_end (heaps s h)"] by linarith
  have plus: "of_nat (a + n - 8) + SIZEOF_footer = (of_nat (a + n) :: u32)"
    using sp(1) by (intro footer_plus) simp
  have "hh_is_hole m (of_nat (a + n)) = 0"
    using header_agree(2) [OF ag, of "a + n"] blk k le by (simp add: block_at_def)
  then show "unify_right header (of_nat (a + n - 8)) h (s\<lparr>mem := m\<rparr>) = Inr (of_nat (a + n - 8), s\<lparr>mem := m\<rparr>)"
    by (simp only: unify_right_def Let_def plus mem_update) simp
  have "unat (of_nat (a + n) :: u32) = a + n" using sp(3) by (intro unat_of_nat32) simp
  then have "of_nat (a + n) \<noteq> h_addr_end (heaps s h)" using e k by auto
  then show "release_tail header (of_nat (a + n - 8)) t h (s\<lparr>mem := m\<rparr>) = Inr (s\<lparr>mem := m\<rparr>)"
    by (simp only: release_tail_def Let_def plus mem_update if_False)
qed

lemma free_alone_ok:
  assumes ok: "heap_ok h (xs @ (n, False) # (k, False) # ys) s" and h: "h \<noteq> 0"
    and left: "left_used h xs s" and room: "sa_size (h_index (heaps s h)) < sa_maxsize (h_index (heaps s h))"
  defines "a \<equiv> hstart h s + total xs"
  obtains s' where "free (of_nat a + SIZEOF_header) h s = Inr s'" "heap_ok h (xs @ (n, True) # (k, False) # ys) s'"
    "h_addr_start (heaps s' h) = h_addr_start (heaps s h)"
    "\<And>x. x \<notin> sa_region (h_index (heaps s h)) \<Longrightarrow> \<not> (a \<le> unat x \<and> unat x < a + n) \<Longrightarrow> mem s' x = mem s x"
    "only_heap s s'"
proof -
  note okd = heap_okD [OF ok]
  note sp = heap_ok_split [OF ok, folded a_def]
  define m where "m = set_hh_is_hole (of_nat a) 1 (mem s)"
  define s1 where "s1 = s\<lparr>mem := m\<rparr>"
  have ag: "agree lo hi (mem s) m" if "hi \<le> a + 4 \<or> a + 8 \<le> lo" for lo hi
    unfolding m_def using that sp(1,3) by (intro mark_agree) auto
  have ul: "unify_left (of_nat a) (of_nat (a + n - 8)) m = (of_nat a, True, m)"
    unfolding m_def a_def by (rule unify_left_none [OF ok left])
  have agr: "agree (a + n) (a + n + k) (mem s) m" using sp(1) by (intro ag) simp
  have run: "free (of_nat a + SIZEOF_header) h s = index_insert h (of_nat a) s1"
    unfolding a_def free_unfold [OF ok h]
    by (simp only: m_def [symmetric] a_def [symmetric] ul split ebind_Inr if_True s1_def
        stages_right_used [OF ok, folded a_def, OF agr])
  have below: "unat (sa_array (h_index (heaps s h))) + 4 * unat (sa_maxsize (h_index (heaps s h))) \<le> a"
    using okd(5) by (simp add: a_def)
  have els: "sa_elems (h_index (heaps s1 h)) (mem s1) = sa_elems (h_index (heaps s h)) (mem s)"
    using index_agree [OF okd(3) below ag] by (simp add: s1_def)
  obtain s' where s': "index_insert h (of_nat a) s1 = Inr s'" "index_step h s1 s'"
    "mset (sa_elems (h_index (heaps s' h)) (mem s')) = add_mset (of_nat a) (mset (sa_elems (h_index (heaps s1 h)) (mem s1)))"
    by (rule index_insert_ok [of s1 h "of_nat a"]) (use okd room in \<open>simp_all add: s1_def\<close>)
  have "sa_wf (h_index (heaps s1 h))"
    "unat (sa_array (h_index (heaps s1 h))) + 4 * unat (sa_maxsize (h_index (heaps s1 h))) \<le> a"
    using okd(3) below by (simp_all add: s1_def)
  note st = index_stepD [OF s'(2) this]
  have fr: "mem s' x = mem s x" if "x \<notin> sa_region (h_index (heaps s h))" "\<not> (a \<le> unat x \<and> unat x < a + n)" for x
  proof -
    have "mem s' x = m x" using st(10) [of x] that(1) by (simp add: s1_def)
    also have "\<dots> = mem s x"
      using that(2) ag [of a 0] ag [of "2 ^ 32" "a + n"] sp(1) unat_lt_power [of x] by (auto simp: agree_def not_le)
    finally show ?thesis .
  qed
  have blk: "block_at (mem s') (hend h s) a n True"
  proof -
    have "agree (a + n - 8) (a + n) (mem s) m" using sp(1) by (intro ag) simp
    then have "footer_at m a n"
      using footer_agree [of "a + n - 8" "a + n" "mem s" m "a + n - 8"] sp(1,3,6)
      by (simp only: footer_at_def block_at_def) simp
    then have "block_at m (hend h s) a n True"
      using sp(1,6) by (simp add: block_at_def m_def)
    then show ?thesis using block_at_agree [of a n m "mem s'"] st(9) [of "a + n"] sp(3) by (simp add: s1_def)
  qed
  have "heap_ok h (xs @ [(n, True)] @ (k, False) # ys) s'"
    by (rule heap_ok_replace [where os = "[(n, False)]" and xs = xs and s = s and h = h, folded a_def, where zs = "[(n, True)]"])
      (use ok st els okd(6) s'(3) blk fr in \<open>simp_all add: s1_def holes_append a_def add.assoc\<close>)
  then show thesis
    using that [OF _ _ _ fr] run s'(1) st(4) only_heap_trans [OF only_heap_mem st(11) [unfolded s1_def]]
    by (simp add: s1_def)
qed

text \<open>The memory after a hole of \<open>j\<close> bytes at \<open>a\<close> has absorbed the block of \<open>n\<close> bytes behind it.\<close>

definition absorb :: "nat \<Rightarrow> nat \<Rightarrow> nat \<Rightarrow> mem \<Rightarrow> mem" where
  "absorb a j n m = set_hh_size (of_nat a) (of_nat (j + n))
     (set_hf_header (of_nat (a + j + n - 8)) (of_nat a) (set_hh_is_hole (of_nat (a + j)) 1 m))"

lemma absorb_agree:
  assumes "20 \<le> j" "20 \<le> n" "a + j + n \<le> 2 ^ 32" "hi \<le> a \<or> a + j + n \<le> lo"
  shows "agree lo hi m (absorb a j n m)"
  unfolding absorb_def
  by (intro agree_set_hh_size agree_set_hf_header mark_agree) (use assms in auto)

lemma absorb_block:
  assumes "block_at m e a j True" "block_at m e (a + j) n f" "footer_at m (a + j) n" "a + j + n \<le> 2 ^ 32"
  shows "block_at (absorb a j n m) e a (j + n) True"
proof -
  have n: "20 \<le> j" "20 \<le> n" using assms(1,2) by (simp_all add: block_at_def)
  let ?m1 = "set_hh_is_hole (of_nat (a + j)) 1 m"
  let ?m2 = "set_hf_header (of_nat (a + j + n - 8)) (of_nat a) ?m1"
  have "agree a (a + 12) m ?m2"
    by (intro agree_set_hf_header mark_agree) (use n assms(4) in auto)
  then have hdr: "hh_magic ?m2 (of_nat a) = VM_HEAP_HDR_MAGIC" "hh_is_hole ?m2 (of_nat a) = 1"
    using header_agree [of a "a + 12" m ?m2 a] assms(1,4) n by (simp_all add: block_at_def)
  have "agree (a + j + n - 8) (a + j + n) m ?m1" using n assms(4) by (intro mark_agree) auto
  then have "hf_magic ?m1 (of_nat (a + j + n - 8)) = VM_HEAP_FTR_MAGIC"
    using footer_agree(1) [of "a + j + n - 8" "a + j + n" m ?m1 "a + j + n - 8"] assms(3,4) n
    unfolding footer_at_def by simp
  then have ft: "hf_magic ?m2 (of_nat (a + j + n - 8)) = VM_HEAP_FTR_MAGIC"
    "hf_header ?m2 (of_nat (a + j + n - 8)) = of_nat a"
    by (simp_all only: footer_of_set)
  have "agree (a + j + n - 8) (a + j + n) ?m2 (absorb a j n m)"
    unfolding absorb_def by (rule agree_set_hh_size [OF agree_refl]) (use n assms(4) in auto)
  then have "footer_at (absorb a j n m) a (j + n)"
    using footer_agree [of "a + j + n - 8" "a + j + n" ?m2 "absorb a j n m" "a + j + n - 8"] ft n assms(4)
    by (simp only: footer_at_def add.assoc)
  moreover have "hh_magic (absorb a j n m) (of_nat a) = VM_HEAP_HDR_MAGIC"
    "hh_is_hole (absorb a j n m) (of_nat a) = 1" "hh_size (absorb a j n m) (of_nat a) = of_nat (j + n)"
    by (simp_all only: absorb_def header_of_set hdr)
  ultimately show ?thesis using n by (simp add: block_at_def)
qed

lemma free_left_ok:
  assumes ok: "heap_ok h (xs @ (j, True) # (n, False) # (k, False) # ys) s" and h: "h \<noteq> 0"
  defines "a \<equiv> hstart h s + total xs"
  obtains s' where "free (of_nat (a + j) + SIZEOF_header) h s = Inr s'"
    "heap_ok h (xs @ (j + n, True) # (k, False) # ys) s'"
    "h_addr_start (heaps s' h) = h_addr_start (heaps s h)"
    "\<And>x. \<not> (a \<le> unat x \<and> unat x < a + j + n) \<Longrightarrow> mem s' x = mem s x"
    "only_heap s s'"
proof -
  have ok2: "heap_ok h ((xs @ [(j, True)]) @ (n, False) # (k, False) # ys) s" using ok by simp
  have aj: "hstart h s + total (xs @ [(j, True)]) = a + j" by (simp add: a_def)
  note okd = heap_okD [OF ok]
  note sp = heap_ok_split [OF ok, folded a_def]
  note sp2 = heap_ok_split [OF ok2, unfolded aj]
  define s' where "s' = s\<lparr>mem := absorb a j n (mem s)\<rparr>"
  have le: "a + j + n \<le> 2 ^ 32" using sp2(3) by simp
  note ag = absorb_agree [OF sp(1) sp2(1) le]
  have agr: "agree (a + j + n) (a + j + n + k) (mem s) (absorb a j n (mem s))" by (rule ag) simp
  have run: "free (of_nat (a + j) + SIZEOF_header) h s = Inr s'"
    unfolding free_unfold [OF ok2 h, unfolded aj] unify_left_merge [OF ok, folded a_def] absorb_def [symmetric]
    by (simp only: split ebind_Inr if_False s'_def stages_right_used [OF ok2, unfolded aj, OF agr])
  have fr: "mem s' x = mem s x" if "\<not> (a \<le> unat x \<and> unat x < a + j + n)" for x
    using that ag [of a 0] ag [of "2 ^ 32" "a + j + n"] unat_lt_power [of x]
    by (auto simp: agree_def not_le s'_def)
  have foot: "footer_at (mem s) (a + j) n" using sp2(6) by (simp add: block_at_def)
  have blk: "block_at (mem s') (hend h s) a (j + n) True"
    unfolding s'_def mem_update using absorb_block [OF sp(6) sp2(6) foot le] .
  have below: "unat (sa_array (h_index (heaps s h))) + 4 * unat (sa_maxsize (h_index (heaps s h))) \<le> a"
    using okd(5) by (simp add: a_def)
  have els: "sa_elems (h_index (heaps s' h)) (mem s') = sa_elems (h_index (heaps s h)) (mem s)"
    using index_agree [OF okd(3) below ag] by (simp add: s'_def)
  have "heap_ok h (xs @ [(j + n, True)] @ (k, False) # ys) s'"
    by (rule heap_ok_replace [where os = "[(j, True), (n, False)]" and xs = xs and s = s and h = h, folded a_def,
          where zs = "[(j + n, True)]"])
      (use ok okd els blk fr in \<open>simp_all add: s'_def holes_append a_def add.assoc\<close>)
  then show thesis using that [OF run _ _ fr] by (simp add: s'_def only_heap_mem)
qed

section \<open>A hole on the right\<close>

lemma index_scan_spec:
  assumes "i \<le> sa_size ix"
  shows "\<exists>k. index_scan ix m target i = Inr k \<and> i \<le> k \<and> k \<le> sa_size ix
    \<and> (\<forall>j. i \<le> j \<and> j < k \<longrightarrow> sa_get ix m j \<noteq> target) \<and> (k < sa_size ix \<longrightarrow> sa_get ix m k = target)"
  using assms
proof (induction ix m target i rule: index_scan.induct)
  case (1 ix m target i)
  show ?case
  proof (cases "i < sa_size ix")
    case True
    have look: "lookup_sorted_array ix i m = Inr (sa_get ix m i)" using True by (simp add: lookup_sorted_array_def)
    show ?thesis
    proof (cases "sa_get ix m i = target")
      case same: True
      then show ?thesis using True look
        by (intro exI [of _ i]) (subst index_scan.simps, auto)
    next
      case no: False
      have suc: "unat (i + 1) = Suc (unat i)" by (rule unat_Suc32 [OF True])
      have le: "i + 1 \<le> sa_size ix" using True suc by (simp add: word_le_nat_alt word_less_nat_alt)
      have split: "i \<le> j \<longleftrightarrow> j = i \<or> i + 1 \<le> j" for j
        using suc by (auto simp: word_le_nat_alt word_unat_eq_iff)
      obtain k where k: "index_scan ix m target (i + 1) = Inr k" "i + 1 \<le> k" "k \<le> sa_size ix"
        "\<forall>j. i + 1 \<le> j \<and> j < k \<longrightarrow> sa_get ix m j \<noteq> target" "k < sa_size ix \<longrightarrow> sa_get ix m k = target"
        using "1.IH" [OF True look no le] by blast
      have "index_scan ix m target i = Inr k" using True look no k(1) by (subst index_scan.simps) simp
      then show ?thesis using k no split by (intro exI [of _ k]) auto
    qed
  next
    case False
    then show ?thesis using "1.prems" by (intro exI [of _ i]) (subst index_scan.simps, auto)
  qed
qed

lemma index_scan_found:
  assumes "target \<in> set (sa_elems ix m)"
  obtains k where "index_scan ix m target 0 = Inr k" "k < sa_size ix" "sa_elems ix m ! unat k = target"
proof -
  obtain k where k: "index_scan ix m target 0 = Inr k" "k \<le> sa_size ix"
    "\<forall>j. j < k \<longrightarrow> sa_get ix m j \<noteq> target" "k < sa_size ix \<longrightarrow> sa_get ix m k = target"
    using index_scan_spec [of 0 ix m target] by auto
  obtain i where i: "i < unat (sa_size ix)" "sa_elems ix m ! i = target"
    using assms by (auto simp: in_set_conv_nth)
  have "i < 4294967296" using i(1) unat_lt32 [of "sa_size ix"] by linarith
  then have ui: "unat (of_nat i :: u32) = i" by (rule unat_of_nat32)
  have "k < sa_size ix"
  proof (rule ccontr)
    assume "\<not> k < sa_size ix"
    then have "of_nat i < k" using k(2) i(1) ui by (simp add: word_less_nat_alt)
    then show False using k(3) i sa_elems_nth [OF i(1), of m] by simp
  qed
  then show thesis using that [OF k(1)] k(4) sa_elems_nth_word [of k ix m] by simp
qed

text \<open>The stage itself: the size grows, the right hole leaves the index, no footer is written.\<close>

lemma unify_right_merge:
  assumes ok: "heap_ok h (xs @ (n, f) # (k, True) # ys) s"
  defines "a \<equiv> hstart h s + total xs"
  assumes m: "agree 0 (hstart h s) (mem s) m" "agree (a + n) (a + n + k) (mem s) m" "hh_size m (of_nat a) = of_nat n"
  obtains s' where
    "unify_right (of_nat a) (of_nat (a + n - 8)) h (s\<lparr>mem := m\<rparr>) = Inr (of_nat (a + n + k - 8), s')"
    "index_step h (s\<lparr>mem := set_hh_size (of_nat a) (of_nat (n + k)) m\<rparr>) s'"
    "sa_size (h_index (heaps s' h)) < sa_maxsize (h_index (heaps s' h))"
proof -
  note okd = heap_okD [OF ok]
  note sp = heap_ok_split [OF ok, folded a_def]
  have blk: "block_at (mem s) (hend h s) (a + n) k True" using sp(5) by simp
  then have k20: "20 \<le> k" by (simp add: block_at_def)
  have "a + n + k + total ys = hend h s" using sp(2) by simp
  then have le: "a + n + k < 2 ^ 32" using unat_lt_power [of "h_addr_end (heaps s h)"] by linarith
  have plus: "of_nat (a + n - 8) + SIZEOF_footer = (of_nat (a + n) :: u32)"
    using sp(1) by (intro footer_plus) simp
  have right: "hh_magic m (of_nat (a + n)) = VM_HEAP_HDR_MAGIC" "hh_is_hole m (of_nat (a + n)) = 1"
    "hh_size m (of_nat (a + n)) = of_nat k"
    using header_agree [OF m(2), of "a + n"] blk k20 le by (simp_all add: block_at_def)
  define m2 where "m2 = set_hh_size (of_nat a) (of_nat (n + k)) m"
  have ag2: "agree (a + n) (a + n + k) (mem s) m2" "agree 0 (hstart h s) (mem s) m2"
    unfolding m2_def by (rule agree_set_hh_size [OF m(2)]; use sp(1,3) in simp)
      (rule agree_set_hh_size [OF m(1)]; use sp(1,3) in \<open>simp add: a_def\<close>)
  have size2: "hh_size m2 (of_nat (a + n)) = of_nat k"
    using header_agree(3) [OF ag2(1), of "a + n"] blk k20 le by (simp add: block_at_def)
  have foot: "of_nat (a + n) + of_nat k - SIZEOF_footer = (of_nat (a + n + k - 8) :: u32)"
    using footer_plus [of k "a + n"] k20 by (simp add: algebra_simps)
  define s2 where "s2 = s\<lparr>mem := m2\<rparr>"
  have els: "sa_elems (h_index (heaps s2 h)) (mem s2) = sa_elems (h_index (heaps s h)) (mem s)"
    using index_agree [OF okd(3,5) ag2(2)] by (simp add: s2_def)
  have "a + n \<in> set (holes (hstart h s) (xs @ (n, f) # (k, True) # ys))"
    by (simp add: holes_append a_def)
  then have "of_nat (a + n) \<in> set (sa_elems (h_index (heaps s2 h)) (mem s2))"
    unfolding els index_set [OF ok] by (rule imageI)
  then obtain i where i: "index_scan (h_index (heaps s2 h)) (mem s2) (of_nat (a + n)) 0 = Inr i"
    "i < sa_size (h_index (heaps s2 h))"
    by (rule index_scan_found)
  obtain s' where s': "index_remove h i s2 = Inr s'" "index_step h s2 s'"
    "sa_size (h_index (heaps s' h)) < sa_maxsize (h_index (heaps s' h))"
    by (rule index_remove_ok [of s2 h i]) (use okd i(2) in \<open>simp_all add: s2_def\<close>)
  have t: "(1 :: u32) \<noteq> 0" by simp
  have "unify_right (of_nat a) (of_nat (a + n - 8)) h (s\<lparr>mem := m\<rparr>) = Inr (of_nat (a + n + k - 8), s')"
    unfolding unify_right_def Let_def plus mem_update right m(3) of_nat_add [of n k, symmetric] m2_def [symmetric]
      size2 foot s2_def [symmetric]
    using i s'(1) by (simp only: t simp_thms if_True s2_def mem_update ebind_Inr kassert_True)
  then show thesis using that s' by (simp only: s2_def m2_def)
qed

lemma free_right_ok:
  assumes ok: "heap_ok h (xs @ (n, False) # (k, True) # b # ys) s" and h: "h \<noteq> 0" and left: "left_used h xs s"
  defines "a \<equiv> hstart h s + total xs"
  obtains s' where "free (of_nat a + SIZEOF_header) h s = Inr s'" "hh_size (mem s') (of_nat a) = of_nat (n + k)"
    "of_nat a \<in> set (sa_elems (h_index (heaps s' h)) (mem s'))"
    "hf_header (mem s') (of_nat (a + n + k - 8)) = of_nat (a + n)"
    "h_addr_start (heaps s' h) = h_addr_start (heaps s h)" "h_addr_end (heaps s' h) = h_addr_end (heaps s h)"
    "a + n + k < hend h s"
proof -
  note okd = heap_okD [OF ok]
  note sp = heap_ok_split [OF ok, folded a_def]
  have rest: "block_at (mem s) (hend h s) (a + n) k True" "tiles (mem s) (hend h s) (a + n + k) (b # ys)"
    using sp(5) by simp_all
  then have k20: "20 \<le> k" by (simp add: block_at_def)
  have "0 < fst b" using rest(2) by (cases b) (simp add: block_at_def)
  moreover have "a + n + k + (fst b + total ys) = hend h s" using sp(2) by simp
  ultimately have lt: "a + n + k < hend h s" by linarith
  then have le: "a + n + k < 2 ^ 32" using unat_lt_power [of "h_addr_end (heaps s h)"] by linarith
  define m where "m = set_hh_is_hole (of_nat a) 1 (mem s)"
  have ag: "agree lo hi (mem s) m" if "hi \<le> a + 4 \<or> a + 8 \<le> lo" for lo hi
    unfolding m_def using that sp(1,3) by (intro mark_agree) auto
  have ul: "unify_left (of_nat a) (of_nat (a + n - 8)) m = (of_nat a, True, m)"
    unfolding m_def a_def by (rule unify_left_none [OF ok left])
  have size: "hh_size m (of_nat a) = of_nat n" unfolding m_def by (simp add: sp(7))
  have low: "agree 0 (hstart h s) (mem s) m" by (rule ag) (simp add: a_def)
  have up: "agree (a + n) (a + n + k) (mem s) m" using sp(1) by (intro ag) simp
  define m2 where "m2 = set_hh_size (of_nat a) (of_nat (n + k)) m"
  define s2 where "s2 = s\<lparr>mem := m2\<rparr>"
  obtain s3 where s3: "unify_right (of_nat a) (of_nat (a + n - 8)) h (s\<lparr>mem := m\<rparr>) = Inr (of_nat (a + n + k - 8), s3)"
    "index_step h s2 s3" "sa_size (h_index (heaps s3 h)) < sa_maxsize (h_index (heaps s3 h))"
    using unify_right_merge [OF ok, folded a_def, OF low up size] unfolding s2_def m2_def by blast
  have "sa_wf (h_index (heaps s2 h))"
    "unat (sa_array (h_index (heaps s2 h))) + 4 * unat (sa_maxsize (h_index (heaps s2 h))) \<le> a"
    using okd(3,5) by (simp_all add: s2_def a_def)
  note st3 = index_stepD [OF s3(2) this]
  have e3: "heaps s2 h = heaps s h" by (simp add: s2_def)
  have plus: "of_nat (a + n + k - 8) + SIZEOF_footer = (of_nat (a + n + k) :: u32)"
    using k20 by (intro footer_plus) simp
  have "unat (of_nat (a + n + k) :: u32) = a + n + k" using le by (intro unat_of_nat32) simp
  then have "of_nat (a + n + k) \<noteq> h_addr_end (heaps s3 h)" using lt st3(5) e3 by auto
  then have tail: "release_tail (of_nat a) (of_nat (a + n + k - 8)) t h s3 = Inr s3" for t
    by (simp only: release_tail_def Let_def plus if_False)
  obtain s' where s': "index_insert h (of_nat a) s3 = Inr s'" "index_step h s3 s'"
    "mset (sa_elems (h_index (heaps s' h)) (mem s')) = add_mset (of_nat a) (mset (sa_elems (h_index (heaps s3 h)) (mem s3)))"
    by (rule index_insert_ok [OF st3(3) _ s3(3)]) (use st3(8) okd(4) e3 in simp_all)
  have "unat (sa_array (h_index (heaps s3 h))) + 4 * unat (sa_maxsize (h_index (heaps s3 h))) \<le> a"
    using st3(6,7) okd(5) e3 by (simp add: a_def)
  note st = index_stepD [OF s'(2) st3(3) this]
  have run: "free (of_nat a + SIZEOF_header) h s = Inr s'"
    unfolding a_def free_unfold [OF ok h]
    by (simp only: m_def [symmetric] a_def [symmetric] ul split ebind_Inr if_True s3(1) tail s'(1))
  have end_ag: "agree a (2 ^ 32) m2 (mem s')" using agree_trans [OF st3(9) st(9)] by (simp add: s2_def)
  have "hh_size m2 (of_nat a) = of_nat (n + k)" unfolding m2_def by (simp only: header_of_set)
  then have "hh_size (mem s') (of_nat a) = of_nat (n + k)"
    using header_agree(3) [OF end_ag, of a] sp(1,3) by simp
  moreover have "hf_header (mem s') (of_nat (a + n + k - 8)) = of_nat (a + n)"
  proof -
    have "footer_at (mem s) (a + n) k" using rest(1) lt by (simp add: block_at_def)
    then have "hf_header (mem s) (of_nat (a + n + k - 8)) = of_nat (a + n)" by (simp only: footer_at_def)
    moreover have "agree (a + n) (a + n + k) (mem s) m2"
      unfolding m2_def using sp(1,3) by (intro agree_set_hh_size up) auto
    ultimately show ?thesis
      using footer_agree(2) [of "a + n" "a + n + k" "mem s" m2 "a + n + k - 8"]
        footer_agree(2) [OF end_ag, of "a + n + k - 8"] k20 le by simp
  qed
  moreover have "of_nat a \<in> set (sa_elems (h_index (heaps s' h)) (mem s'))"
    using s'(3) by (metis set_mset_mset union_single_eq_member)
  ultimately show thesis using that run st(4,5) st3(4,5) e3 lt by simp
qed

text \<open>No layout describes the heap after such a merge.\<close>

lemma stale_footer_not_ok:
  assumes "hh_size (mem s) (of_nat a) = of_nat n" "of_nat a \<in> set (sa_elems (h_index (heaps s h)) (mem s))"
    and "hf_header (mem s) (of_nat (a + n - 8)) \<noteq> of_nat a" "a + n < hend h s"
  shows "\<not> heap_ok h bs s"
proof
  assume ok: "heap_ok h bs s"
  obtain c where c: "c \<in> set (holes (hstart h s) bs)" "of_nat a = (of_nat c :: u32)"
    using assms(2) index_set [OF ok] by auto
  obtain xs k ys where b: "bs = xs @ (k, True) # ys" "c = hstart h s + total xs" using holes_split [OF c(1)] by blast
  note sp = heap_ok_split [OF ok [unfolded b(1)], folded b(2)]
  have lt: "a + n < 2 ^ 32" using assms(4) unat_lt_power [of "h_addr_end (heaps s h)"] by linarith
  have small: "a < 4294967296" "n < 4294967296" "c < 4294967296" "k < 4294967296" using lt sp(3) by simp_all
  have ac: "a = c" using c(2) unat_of_nat32 [OF small(1)] unat_of_nat32 [OF small(3)] by metis
  have nk: "n = k"
    using sp(7) assms(1) unat_of_nat32 [OF small(2)] unat_of_nat32 [OF small(4)] unfolding ac by metis
  have "footer_at (mem s) a n" using sp(6) assms(4) ac nk by (simp add: block_at_def)
  then show False using assms(3) by (simp add: footer_at_def)
qed

section \<open>Properties\<close>

lemma payloads_after_free:
  "mset (payloads a (xs @ (n, False) # ys)) = add_mset (a + total xs + 12, n - 20) (mset (payloads a (xs @ (n, True) # ys)))"
  by (simp add: payloads_append)

text \<open>
  Freeing a block whose neighbours are in use makes it a hole of the same size: the heap
  keeps its invariant, exactly this block is no longer in use, and no byte outside the block and the
  index changes.
\<close>
theorem free_between_used:
  assumes "heap_ok h (xs @ (n, False) # (k, False) # ys) s" "h \<noteq> 0" "left_used h xs s"
    and "sa_size (h_index (heaps s h)) < sa_maxsize (h_index (heaps s h))"
  shows "\<exists>s'. free (of_nat (hstart h s + total xs) + SIZEOF_header) h s = Inr s'
    \<and> heap_ok h (xs @ (n, True) # (k, False) # ys) s'
    \<and> (\<forall>x. x \<notin> sa_region (h_index (heaps s h))
        \<and> \<not> (hstart h s + total xs \<le> unat x \<and> unat x < hstart h s + total xs + n) \<longrightarrow> mem s' x = mem s x)"
  by (rule free_alone_ok [OF assms]) blast

lemma example_split:
  "example_blocks = [(40, True), (40, False)] @ (40, False) # (40, False) # [(40, True), (40, False)]"
  "example_blocks = [] @ (40, True) # (40, False) # (40, False) # [(40, False), (40, True), (40, False)]"
  "example_blocks = [(40, True), (40, False), (40, False)] @ (40, False) # (40, True) # (40, False) # []"
  by (simp_all add: example_blocks_def)

theorem free_between_used_witness:
  "\<exists>s'. free (of_nat 8272 + SIZEOF_header) 0x500 example_heap = Inr s'
    \<and> blocks_of 0x500 s' = [(40, True), (40, False), (40, True), (40, False), (40, True), (40, False)]"
proof -
  have l: "left_used 0x500 [(40, True), (40, False)] example_heap" by (simp add: left_used_def)
  have room: "sa_size (h_index (heaps example_heap 0x500)) < sa_maxsize (h_index (heaps example_heap 0x500))"
    by (simp add: example_vm_heap_def)
  obtain s' where s': "free (of_nat (hstart 0x500 example_heap + total [(40, True), (40, False)]) + SIZEOF_header) 0x500 example_heap = Inr s'"
    "heap_ok 0x500 ([(40, True), (40, False)] @ (40, True) # (40, False) # [(40, True), (40, False)]) s'"
    using free_between_used [OF example_heap_ok [of "0x500", unfolded example_split(1)] _ l room] by auto
  have "hstart 0x500 example_heap + total [(40, True), (40, False)] = 8272" by (simp add: example_vm_heap_def)
  then show ?thesis using s' heap_ok_blocks [OF s'(2)] by (simp only:) simp
qed

text \<open>
  C11: Freeing a block that lies behind a hole and in front of a block in use merges the two into one hole, whose header and footer
  are right and which keeps the heap well formed; the index is not touched, and no byte outside the two blocks changes.
\<close>
theorem free_merges_left:
  assumes "heap_ok h (xs @ (j, True) # (n, False) # (k, False) # ys) s" "h \<noteq> 0"
  shows "\<exists>s'. free (of_nat (hstart h s + total xs + j) + SIZEOF_header) h s = Inr s'
    \<and> heap_ok h (xs @ (j + n, True) # (k, False) # ys) s'
    \<and> (\<forall>x. \<not> (hstart h s + total xs \<le> unat x \<and> unat x < hstart h s + total xs + j + n) \<longrightarrow> mem s' x = mem s x)"
  by (rule free_left_ok [OF assms]) blast

theorem free_merges_left_witness:
  "\<exists>s'. free (of_nat 8232 + SIZEOF_header) 0x500 example_heap = Inr s'
    \<and> blocks_of 0x500 s' = [(80, True), (40, False), (40, False), (40, True), (40, False)]"
proof -
  obtain s' where s': "free (of_nat (hstart 0x500 example_heap + total [] + 40) + SIZEOF_header) 0x500 example_heap = Inr s'"
    "heap_ok 0x500 ([] @ (40 + 40, True) # (40, False) # [(40, False), (40, True), (40, False)]) s'"
    using free_merges_left [OF example_heap_ok [of "0x500", unfolded example_split(2)]] by auto
  have "hstart 0x500 example_heap + total [] + 40 = 8232" by (simp add: example_vm_heap_def)
  then show ?thesis using s' heap_ok_blocks [OF s'(2)] by (simp only:) simp
qed

text \<open>
  C36: Freeing a block in front of a hole that is not the last block joins
  the two in the index, but the footer of the joined hole still points to the header of the absorbed
  one, so afterwards no list of blocks describes the heap.
\<close>
theorem free_merge_right_breaks_footer:
  assumes ok: "heap_ok h (xs @ (n, False) # (k, True) # b # ys) s" and h: "h \<noteq> 0" and left: "left_used h xs s"
  shows "\<exists>s'. free (of_nat (hstart h s + total xs) + SIZEOF_header) h s = Inr s'
    \<and> hh_size (mem s') (of_nat (hstart h s + total xs)) = of_nat (n + k)
    \<and> hf_header (mem s') (of_nat (hstart h s + total xs + n + k - 8)) = of_nat (hstart h s + total xs + n)
    \<and> (\<forall>bs. \<not> heap_ok h bs s')"
proof (rule free_right_ok [OF ok h left])
  let ?a = "hstart h s + total xs"
  fix s'
  assume r: "free (of_nat ?a + SIZEOF_header) h s = Inr s'" "hh_size (mem s') (of_nat ?a) = of_nat (n + k)"
    "of_nat ?a \<in> set (sa_elems (h_index (heaps s' h)) (mem s'))"
    "hf_header (mem s') (of_nat (?a + n + k - 8)) = of_nat (?a + n)"
    "h_addr_end (heaps s' h) = h_addr_end (heaps s h)" "?a + n + k < hend h s"
  have n: "20 \<le> n" "?a + n < 2 ^ 32" using heap_ok_split(1,3) [OF ok] .
  have "(of_nat (?a + n) :: u32) \<noteq> of_nat ?a"
  proof
    assume eq: "(of_nat (?a + n) :: u32) = of_nat ?a"
    have "?a + n < 4294967296" "?a < 4294967296" using n(2) by simp_all
    from unat_of_nat32 [OF this(1)] unat_of_nat32 [OF this(2)] eq have "?a + n = ?a" by metis
    then show False using n(1) by simp
  qed
  then have "\<not> heap_ok h bs s'" for bs
    using stale_footer_not_ok [of s' ?a "n + k" h bs] r by (simp only: add.assoc) simp
  then show ?thesis using r by blast
qed

theorem free_merge_right_breaks_footer_witness:
  "\<exists>s'. free (of_nat 8312 + SIZEOF_header) 0x500 example_heap = Inr s'
    \<and> hf_header (mem s') 0x20C0 = 0x20A0 \<and> hh_size (mem s') 0x2078 = 80"
proof -
  have l: "left_used 0x500 [(40, True), (40, False), (40, False)] example_heap" by (simp add: left_used_def)
  have a: "hstart 0x500 example_heap + total [(40, True), (40, False), (40, False)] = 8312"
    by (simp add: example_vm_heap_def)
  show ?thesis
    using free_merge_right_breaks_footer [OF example_heap_ok [of "0x500", unfolded example_split(3)] _ l, unfolded a]
    by auto
qed

end
