(* ===== verification/Block_Allocator.thy ===== *)
theory Block_Allocator
  imports Memory
begin

text \<open>
  The interface between the kernel heap and the code that calls \<open>kmalloc\<close> and \<open>kfree\<close>. \<open>live\<close> is
  the set of blocks in use, as pairs of address and size. The laws say that a block that is handed
  out is new, that releasing one removes exactly it, and that neither touches the contents of the
  other blocks in use.
\<close>

definition keeps_block :: "mem \<Rightarrow> mem \<Rightarrow> nat \<times> nat \<Rightarrow> bool" where
  "keeps_block m m' b \<longleftrightarrow> (\<forall>x. fst b \<le> unat x \<and> unat x < fst b + snd b \<longrightarrow> m' x = m x)"

definition blocks_apart :: "(nat \<times> nat) set \<Rightarrow> bool" where
  "blocks_apart L \<longleftrightarrow> (\<forall>b \<in> L. fst b + snd b \<le> 2 ^ 32
     \<and> (\<forall>b' \<in> L. b \<noteq> b' \<longrightarrow> fst b + snd b \<le> fst b' \<or> fst b' + snd b' \<le> fst b))"

text \<open>A word inside a block.\<close>

definition word_in :: "nat \<times> nat \<Rightarrow> u32 \<Rightarrow> bool" where
  "word_in b a \<longleftrightarrow> fst b \<le> unat a \<and> unat a + 4 \<le> fst b + snd b"

lemma keeps_block_word:
  assumes "keeps_block m m' b" "word_in b a" "fst b + snd b \<le> 2 ^ 32"
  shows "read32 m' a = read32 m a"
proof (rule read32_cong)
  fix x assume "x \<in> addr_range a 4"
  moreover have "unat a + 4 \<le> 2 ^ 32" using assms(2,3) by (simp add: word_in_def)
  ultimately have "unat a \<le> unat x \<and> unat x < unat a + 4" using addr_range_nowrap by blast
  then show "m' x = m x" using assms(1,2) by (simp add: keeps_block_def word_in_def)
qed

lemma read32_write32_blocks:
  assumes "blocks_apart L" "b \<in> L" "b' \<in> L" "b \<noteq> b'" "word_in b a" "word_in b' a'"
  shows "read32 (write32 a v m) a' = read32 m a'"
  using assms unfolding blocks_apart_def word_in_def
  by (intro read32_write32_apart) (metis (no_types, lifting) order_trans)

locale block_allocator =
  fixes get :: "u32 \<Rightarrow> 's \<Rightarrow> kerror + u32 \<times> 's"
    and memory :: "'s \<Rightarrow> mem"
    and good :: "'s \<Rightarrow> bool"
    and live :: "'s \<Rightarrow> (nat \<times> nat) set"
    and can :: "u32 \<Rightarrow> 's \<Rightarrow> bool"
  assumes live_apart: "good s \<Longrightarrow> blocks_apart (live s)"
    and get_law: "good s \<Longrightarrow> can sz s \<Longrightarrow> \<exists>p l s'. get sz s = Inr (p, s') \<and> good s' \<and> p \<noteq> 0
      \<and> unat sz \<le> l \<and> live s' = insert (unat p, l) (live s) \<and> (unat p, l) \<notin> live s
      \<and> (\<forall>b \<in> live s. keeps_block (memory s) (memory s') b)"
begin

text \<open>The new block is apart from every word of an old one.\<close>

lemma get_new_word:
  assumes "good s" "can sz s"
  obtains p l s' where "get sz s = Inr (p, s')" "good s'" "p \<noteq> 0" "unat sz \<le> l"
    "live s' = insert (unat p, l) (live s)" "(unat p, l) \<notin> live s"
    "\<And>b a. b \<in> live s \<Longrightarrow> word_in b a \<Longrightarrow> read32 (memory s') a = read32 (memory s) a"
    "\<And>b a c v m. b \<in> live s \<Longrightarrow> word_in b a \<Longrightarrow> word_in (unat p, l) c \<Longrightarrow> read32 (write32 c v m) a = read32 m a"
proof -
  obtain p l s' where g: "get sz s = Inr (p, s')" "good s'" "p \<noteq> 0" "unat sz \<le> l"
    "live s' = insert (unat p, l) (live s)" "(unat p, l) \<notin> live s"
    "\<forall>b \<in> live s. keeps_block (memory s) (memory s') b"
    using get_law [OF assms] by blast
  have ap: "blocks_apart (live s')" by (rule live_apart [OF g(2)])
  have old: "read32 (memory s') a = read32 (memory s) a" if "b \<in> live s" "word_in b a" for b a
    using keeps_block_word [of "memory s" "memory s'" b a] g(5,7) ap that by (auto simp: blocks_apart_def)
  have new: "read32 (write32 c v m) a = read32 m a"
    if "b \<in> live s" "word_in b a" "word_in (unat p, l) c" for b a c v m
    by (rule read32_write32_blocks [OF ap, of "(unat p, l)" b]) (use that g(5,6) in auto)
  show thesis by (rule that [OF g(1-6) old new])
qed

end

locale block_heap = block_allocator +
  fixes put :: "u32 \<Rightarrow> 's \<Rightarrow> kerror + 's"
    and may_put :: "u32 \<Rightarrow> 's \<Rightarrow> bool"
  assumes put_law: "good s \<Longrightarrow> may_put p s \<Longrightarrow> (unat p, l) \<in> live s \<Longrightarrow> \<exists>s'. put p s = Inr s' \<and> good s'
      \<and> live s' = live s - {(unat p, l)} \<and> (\<forall>b \<in> live s'. keeps_block (memory s) (memory s') b)"
begin

lemma put_keeps_words:
  assumes "good s" "may_put p s" "(unat p, l) \<in> live s"
  obtains s' where "put p s = Inr s'" "good s'" "live s' = live s - {(unat p, l)}"
    "\<And>b a. b \<in> live s' \<Longrightarrow> word_in b a \<Longrightarrow> read32 (memory s') a = read32 (memory s) a"
proof -
  obtain s' where p: "put p s = Inr s'" "good s'" "live s' = live s - {(unat p, l)}"
    "\<forall>b \<in> live s'. keeps_block (memory s) (memory s') b"
    using put_law [OF assms] by blast
  have "read32 (memory s') a = read32 (memory s) a" if "b \<in> live s'" "word_in b a" for b a
    using keeps_block_word [of "memory s" "memory s'" b a] p(4) live_apart [OF p(2)] that
    by (auto simp: blocks_apart_def)
  then show thesis using that p(1-3) by blast
qed

end

end
