(* ===== verification/Kernel_Memory.thy ===== *)
theory Kernel_Memory
  imports Heap_Alloc Heap_Free Block_Allocator
begin

text \<open>
  The entry points of \<open>kmalloc.c\<close>, the constructors that call them (\<open>new_heap\<close>,
  \<open>new_sorted_array\<close>, \<open>delete_sorted_array\<close>) and \<open>init_paging\<close>, which builds the kernel directory with the
  placement allocator and then the kernel heap. The first argument bounds the depth of the
  recursion of \<open>alloc\<close>.
\<close>

section \<open>kmalloc.c\<close>

definition drop_phys :: "u32 \<times> u32 \<times> 'a kmem_scheme \<Rightarrow> kerror + u32 \<times> 'a kmem_scheme" where
  "drop_phys r = (case r of (addr, _, s) \<Rightarrow> Inr (addr, s))"

definition kmalloc :: "nat \<Rightarrow> u32 \<Rightarrow> 'a kmem_scheme \<Rightarrow> kerror + u32 \<times> 'a kmem_scheme" where
  "kmalloc n len s = ebind (kmalloc_internal (alloc n) len False 0 s) drop_phys"

definition kmalloc0 :: "nat \<Rightarrow> u32 \<Rightarrow> 'a kmem_scheme \<Rightarrow> kerror + u32 \<times> 'a kmem_scheme" where
  "kmalloc0 n len s = ebind (kmalloc_internal (alloc n) len False M_ZERO s) drop_phys"

definition kmalloc_a :: "nat \<Rightarrow> u32 \<Rightarrow> 'a kmem_scheme \<Rightarrow> kerror + u32 \<times> 'a kmem_scheme" where
  "kmalloc_a n len s = ebind (kmalloc_internal (alloc n) len False M_ALIGNED s) drop_phys"

definition kmalloc0_a :: "nat \<Rightarrow> u32 \<Rightarrow> 'a kmem_scheme \<Rightarrow> kerror + u32 \<times> 'a kmem_scheme" where
  "kmalloc0_a n len s = ebind (kmalloc_internal (alloc n) len False (M_ALIGNED OR M_ZERO) s) drop_phys"

definition kmalloc_p :: "nat \<Rightarrow> u32 \<Rightarrow> 'a kmem_scheme \<Rightarrow> kerror + u32 \<times> u32 \<times> 'a kmem_scheme" where
  "kmalloc_p n len s = kmalloc_internal (alloc n) len True 0 s"

definition kmalloc0_p :: "nat \<Rightarrow> u32 \<Rightarrow> 'a kmem_scheme \<Rightarrow> kerror + u32 \<times> u32 \<times> 'a kmem_scheme" where
  "kmalloc0_p n len s = kmalloc_internal (alloc n) len True M_ZERO s"

definition kmalloc_ap :: "nat \<Rightarrow> u32 \<Rightarrow> 'a kmem_scheme \<Rightarrow> kerror + u32 \<times> u32 \<times> 'a kmem_scheme" where
  "kmalloc_ap n len s = kmalloc_internal (alloc n) len True M_ALIGNED s"

definition kmalloc0_ap :: "nat \<Rightarrow> u32 \<Rightarrow> 'a kmem_scheme \<Rightarrow> kerror + u32 \<times> u32 \<times> 'a kmem_scheme" where
  "kmalloc0_ap n len s = kmalloc_internal (alloc n) len True (M_ALIGNED OR M_ZERO) s"

definition kfree :: "u32 \<Rightarrow> 'a kmem_scheme \<Rightarrow> kerror + 'a kmem_scheme" where
  "kfree ptr s = free ptr (kernel_heap s) s"

section \<open>Constructors\<close>

definition new_heap ::
  "nat \<Rightarrow> u32 \<Rightarrow> u32 \<Rightarrow> u32 \<Rightarrow> u32 \<Rightarrow> u32 \<Rightarrow> 'a kmem_scheme \<Rightarrow> kerror + u32 \<times> 'a kmem_scheme" where
  "new_heap n start e mx su ro s =
     ebind (kmalloc0 n SIZEOF_vm_heap s) (\<lambda>(heap, s).
       if heap = 0 then Inl (Panic ''kmalloc'')
       else ebind (init_heap heap start e mx su ro s) (\<lambda>s. Inr (heap, s)))"

definition new_sorted_array ::
  "nat \<Rightarrow> u32 \<Rightarrow> cmp_func_t option \<Rightarrow> 'a kmem_scheme \<Rightarrow> kerror + sorted_array \<times> 'a kmem_scheme" where
  "new_sorted_array n maxsize cmp s =
     ebind (kmalloc0 n (maxsize * 4) s) (\<lambda>(arr, s).
       if arr = 0 then Inl (Panic ''kmalloc'')
       else Inr (\<lparr>sa_array = arr, sa_size = 0, sa_maxsize = maxsize, sa_cmp = cmp\<rparr>, s))"

definition delete_sorted_array :: "sorted_array \<Rightarrow> 'a kmem_scheme \<Rightarrow> kerror + 'a kmem_scheme" where
  "delete_sorted_array a s = kfree (sa_array a) s"

section \<open>init_paging\<close>

text \<open>A loop of \<open>init_paging\<close> over page addresses, with the fuel of one round per page.\<close>

fun for_pages :: "nat \<Rightarrow> (u32 \<Rightarrow> 's \<Rightarrow> bool) \<Rightarrow> (u32 \<Rightarrow> 's \<Rightarrow> kerror + 's) \<Rightarrow> u32 \<Rightarrow> 's \<Rightarrow> kerror + 's" where
  "for_pages 0 go body i s = Inl OutOfFuel"
| "for_pages (Suc k) go body i s =
     (if go i s then ebind (body i s) (for_pages k go body (i + 0x1000)) else Inr s)"

definition make_page :: "nat \<Rightarrow> u32 \<Rightarrow> 'a kmem_scheme \<Rightarrow> kerror + 'a kmem_scheme" where
  "make_page n i s = ebind (get_page (kmalloc0_ap n) i True (kernel_directory s) s) (\<lambda>(_, s). Inr s)"

definition map_page :: "nat \<Rightarrow> bool \<Rightarrow> u32 \<Rightarrow> 'a kmem_scheme \<Rightarrow> kerror + 'a kmem_scheme" where
  "map_page n create i s =
     ebind (get_page (kmalloc0_ap n) i create (kernel_directory s) s) (\<lambda>(page, s). alloc_frame page 0 0 s)"

definition init_paging :: "nat \<Rightarrow> 'a kmem_scheme \<Rightarrow> kerror + 'a kmem_scheme" where
  "init_paging n s =
     (let mem_end_page = 0x1000000;
          heap_pages = (\<lambda>i s. i < VM_KERN_HEAP_START + VM_KERN_HEAP_INITIAL_SIZE);
          s = s\<lparr>nframes := mem_end_page div 0x1000\<rparr>
      in ebind (kmalloc0 n (INDEX_FROM_BIT (nframes s)) s) (\<lambda>(fr, s).
         ebind (kmalloc0_a n SIZEOF_vm_page_directory (s\<lparr>frames := fr\<rparr>)) (\<lambda>(dir, s).
         ebind (for_pages page_fuel heap_pages (make_page n) VM_KERN_HEAP_START (s\<lparr>kernel_directory := dir\<rparr>)) (\<lambda>s.
         ebind (kmalloc0 n SIZEOF_vm_heap s) (\<lambda>(heap, s).
         ebind (for_pages page_fuel (\<lambda>i s. i < placement_address s) (map_page n True) 0 s) (\<lambda>s.
         ebind (for_pages page_fuel heap_pages (map_page n False) VM_KERN_HEAP_START s) (\<lambda>s.
         ebind (register_interrupt_handler 14 Page_fault_handler s) (\<lambda>s.
         let s = switch_page_directory (kernel_directory s) s
         in ebind (init_heap heap VM_KERN_HEAP_START (VM_KERN_HEAP_START + VM_KERN_HEAP_INITIAL_SIZE)
                     0xCFFFF000 0 0 s) (\<lambda>s. Inr (s\<lparr>kernel_heap := heap\<rparr>))))))))))"

section \<open>The placement allocator\<close>

text \<open>Before there is a kernel heap, \<open>_kmalloc\<close> moves \<open>placement_address\<close> forward.\<close>

lemma align_next_page:
  fixes p :: u32
  assumes "4096 \<le> unat p" "unat p + 4096 < 2 ^ 32"
  shows "unat ((p AND 0xFFFFF000) + 0x1000) = unat p - unat p mod 4096 + 4096" "p AND 0xFFFFF000 \<noteq> 0"
proof -
  have "(0xFFFFF000 :: u32) = NOT (mask 12)" by (simp add: mask_eq_exp_minus_1)
  then have u: "unat (p AND 0xFFFFF000) = unat p - unat p mod 4096" using unat_and_not_mask [of p 12] by simp
  then show "unat ((p AND 0xFFFFF000) + 0x1000) = unat p - unat p mod 4096 + 4096"
    using assms(2) by (subst unat_add_nowrap) simp_all
  have "unat p mod 4096 < 4096" by simp
  then have "unat (p AND 0xFFFFF000) \<noteq> 0" using u assms(1) by linarith
  then show "p AND 0xFFFFF000 \<noteq> 0" by auto
qed

lemma placement_alloc_spec:
  assumes "4096 \<le> unat (placement_address s)" "unat (placement_address s) + 4096 < 2 ^ 32"
  obtains addr where "placement_alloc len flags s = (addr, addr, s\<lparr>placement_address := addr + len\<rparr>)"
    "unat (placement_address s) \<le> unat addr" "unat addr \<le> unat (placement_address s) + 4096"
    "flags AND M_ALIGNED \<noteq> 0 \<Longrightarrow> unat addr mod 4096 = 0 \<and> unat (placement_address s) < unat addr"
proof (cases "flags AND M_ALIGNED = 0")
  case True
  show thesis by (rule that [of "placement_address s"]) (simp_all add: True placement_alloc_def Let_def)
next
  case False
  let ?p = "placement_address s"
  let ?a = "(?p AND 0xFFFFF000) + 0x1000"
  note al = align_next_page [OF assms]
  have run: "placement_alloc len flags s = (?a, ?a, s\<lparr>placement_address := ?a + len\<rparr>)"
    using False al(2) by (simp add: placement_alloc_def Let_def)
  have "(unat ?p - unat ?p mod 4096 + 4096) mod 4096 = 0" by (simp add: minus_mod_eq_mult_div)
  moreover have "unat ?p mod 4096 < 4096" "unat ?p mod 4096 \<le> unat ?p" by simp_all
  ultimately have a: "unat ?p < unat ?a" "unat ?a \<le> unat ?p + 4096" "unat ?a mod 4096 = 0"
    unfolding al(1) by linarith+
  show thesis by (rule that [OF run]) (use a in linarith)+
qed

lemma kmalloc_placement:
  assumes "kernel_heap s = 0" "4096 \<le> unat (placement_address s)" "unat (placement_address s) + 4096 < 2 ^ 32"
  obtains addr where
    "kmalloc_internal al len phys flags s = Inr (addr, if phys then addr else 0,
       s\<lparr>placement_address := addr + len,
         mem := (if flags AND M_ZERO \<noteq> 0 then bzero addr len (mem s) else mem s)\<rparr>)"
    "unat (placement_address s) \<le> unat addr" "unat addr \<le> unat (placement_address s) + 4096"
    "flags AND M_ALIGNED \<noteq> 0 \<Longrightarrow> unat addr mod 4096 = 0 \<and> unat (placement_address s) < unat addr"
proof -
  obtain addr where a: "placement_alloc len flags s = (addr, addr, s\<lparr>placement_address := addr + len\<rparr>)"
    "unat (placement_address s) \<le> unat addr" "unat addr \<le> unat (placement_address s) + 4096"
    "flags AND M_ALIGNED \<noteq> 0 \<Longrightarrow> unat addr mod 4096 = 0 \<and> unat (placement_address s) < unat addr"
    using placement_alloc_spec [OF assms(2,3), of len flags] by metis
  have "kmalloc_internal al len phys flags s = Inr (addr, if phys then addr else 0,
       s\<lparr>placement_address := addr + len,
         mem := (if flags AND M_ZERO \<noteq> 0 then bzero addr len (mem s) else mem s)\<rparr>)"
    unfolding kmalloc_internal_def a(1) using assms(1) by simp
  from that [OF this a(2-4)] show thesis .
qed

text \<open>The placement allocator meets the interface of \<open>get_page\<close>.\<close>

definition placement_ready :: "nat \<Rightarrow> 'a kmem_scheme \<Rightarrow> bool" where
  "placement_ready b s \<longleftrightarrow> kernel_heap s = 0 \<and> b \<le> unat (placement_address s)
     \<and> 4096 \<le> unat (placement_address s) \<and> unat (placement_address s) + 8192 \<le> 2 ^ 32"

interpretation place: table_allocator "kmalloc0_ap n" placement_ready "\<lambda>b s addr phys. phys = addr" for n
proof (unfold_locales)
  fix b :: nat and s :: "'a kmem_scheme"
  assume r: "placement_ready b s"
  then have p: "kernel_heap s = 0" "4096 \<le> unat (placement_address s)" "unat (placement_address s) + 4096 < 2 ^ 32"
    "b \<le> unat (placement_address s)" "unat (placement_address s) + 8192 \<le> 2 ^ 32"
    by (simp_all add: placement_ready_def)
  have flags: "(M_ALIGNED OR M_ZERO) AND M_ALIGNED \<noteq> 0" "(M_ALIGNED OR M_ZERO) AND M_ZERO \<noteq> 0"
    by (simp_all add: M_ALIGNED_def M_ZERO_def)
  obtain addr where a: "kmalloc0_ap n SIZEOF_vm_page_table s = Inr (addr, addr,
       s\<lparr>placement_address := addr + SIZEOF_vm_page_table, mem := bzero addr SIZEOF_vm_page_table (mem s)\<rparr>)"
    "unat (placement_address s) \<le> unat addr" "unat addr \<le> unat (placement_address s) + 4096" "unat addr mod 4096 = 0"
  proof (rule kmalloc_placement [OF p(1-3), of "alloc n" SIZEOF_vm_page_table True "M_ALIGNED OR M_ZERO"],
      unfold if_P [OF flags(2)] if_P [OF TrueI] kmalloc0_ap_def [symmetric])
    fix addr
    assume "kmalloc0_ap n SIZEOF_vm_page_table s = Inr (addr, addr,
       s\<lparr>placement_address := addr + SIZEOF_vm_page_table, mem := bzero addr SIZEOF_vm_page_table (mem s)\<rparr>)"
      "unat (placement_address s) \<le> unat addr" "unat addr \<le> unat (placement_address s) + 4096"
      "(M_ALIGNED OR M_ZERO) AND M_ALIGNED \<noteq> 0 \<Longrightarrow> unat addr mod 4096 = 0 \<and> unat (placement_address s) < unat addr"
    from that [OF this(1-3) conjunct1 [OF this(4) [OF flags(1)]]] show thesis .
  qed
  have size: "unat SIZEOF_vm_page_table = 4096" by (simp add: SIZEOF_vm_page_table_def)
  have le: "unat addr + 4096 \<le> 2 ^ 32" using a(3) p(5) by simp
  have rg: "x \<in> addr_range addr 4096 \<longleftrightarrow> unat addr \<le> unat x \<and> unat x < unat addr + 4096" for x
    by (rule addr_range_nowrap [OF le])
  show "\<exists>addr phys s'. kmalloc0_ap n SIZEOF_vm_page_table s = Inr (addr, phys, s')
      \<and> b \<le> unat addr \<and> unat addr + 4096 \<le> 2 ^ 32 \<and> unat addr mod 4096 = 0 \<and> phys = addr
      \<and> (\<forall>x. unat addr \<le> unat x \<and> unat x < unat addr + 4096 \<longrightarrow> mem s' x = 0)
      \<and> (\<forall>x. unat x < b \<longrightarrow> mem s' x = mem s x)"
    by (intro exI conjI, rule a(1))
      (use a(2-4) p(4) le rg in \<open>auto simp: bzero_apply size simp del: addr_range_code\<close>)
qed

section \<open>The kernel heap as a block allocator\<close>

definition kheap_good :: "'a kmem_scheme \<Rightarrow> bool" where
  "kheap_good s \<longleftrightarrow> kernel_heap s \<noteq> 0 \<and> heap_ok (kernel_heap s) (blocks_of (kernel_heap s) s) s"

definition kheap_live :: "'a kmem_scheme \<Rightarrow> (nat \<times> nat) set" where
  "kheap_live s = set (payloads (hstart (kernel_heap s) s) (blocks_of (kernel_heap s) s))"

text \<open>A hole that fits is there; a block can be released without touching the end of the heap.\<close>

definition kheap_can :: "u32 \<Rightarrow> 'a kmem_scheme \<Rightarrow> bool" where
  "kheap_can sz s \<longleftrightarrow> (\<exists>b \<in> set (blocks_of (kernel_heap s) s). snd b \<and> unat sz + 20 \<le> fst b)"

definition kheap_may_put :: "u32 \<Rightarrow> 'a kmem_scheme \<Rightarrow> bool" where
  "kheap_may_put p s \<longleftrightarrow> (\<exists>xs n k ys. blocks_of (kernel_heap s) s = xs @ (n, False) # (k, False) # ys
     \<and> p = of_nat (hstart (kernel_heap s) s + total xs) + SIZEOF_header
     \<and> (xs \<noteq> [] \<and> snd (last xs) \<or> left_used (kernel_heap s) xs s
          \<and> sa_size (h_index (heaps s (kernel_heap s))) < sa_maxsize (h_index (heaps s (kernel_heap s)))))"

lemma payloads_distinct:
  assumes "tiles m e a bs"
  shows "distinct (payloads a bs)" "(p, l) \<in> set (payloads a bs) \<Longrightarrow> (p, l') \<in> set (payloads a bs) \<Longrightarrow> l = l'"
proof -
  have s: "sorted_wrt (\<lambda>b b'. fst b < fst b') (payloads a bs)"
    by (rule sorted_wrt_mono_rel [OF _ payloads_disjoint [OF assms]]) auto
  then have "sorted_wrt (<) (map fst (payloads a bs))" by (simp add: sorted_wrt_map)
  then have d: "distinct (map fst (payloads a bs))" using strict_sorted_iff by blast
  then show "distinct (payloads a bs)" by (simp add: distinct_map)
  show "(p, l) \<in> set (payloads a bs) \<Longrightarrow> (p, l') \<in> set (payloads a bs) \<Longrightarrow> l = l'"
    using d by (meson eq_key_imp_eq_value)
qed

lemma payloads_apart:
  assumes "tiles m e a bs" "a + total bs \<le> 2 ^ 32"
  shows "blocks_apart (set (payloads a bs))"
proof -
  have s: "sorted_wrt (\<lambda>b b'. fst b + snd b \<le> fst b') (payloads a bs)"
    by (rule sorted_wrt_mono_rel [OF _ payloads_disjoint [OF assms(1)]]) auto
  have "fst b + snd b \<le> fst b' \<or> fst b' + snd b' \<le> fst b"
    if bb: "b \<in> set (payloads a bs)" "b' \<in> set (payloads a bs)" "b \<noteq> b'" for b b'
  proof -
    obtain i j where ij: "i < length (payloads a bs)" "b = payloads a bs ! i"
      "j < length (payloads a bs)" "b' = payloads a bs ! j"
      using bb(1,2) by (metis in_set_conv_nth)
    then have "i < j \<or> j < i" using bb(3) by (metis linorder_neqE_nat)
    then show ?thesis using sorted_wrt_nth_less [OF s] ij by blast
  qed
  moreover have "fst b + snd b \<le> 2 ^ 32" if "b \<in> set (payloads a bs)" for b
    using payloads_range [OF assms(1), of "fst b" "snd b"] that assms(2) by simp
  ultimately show ?thesis by (auto simp: blocks_apart_def)
qed

lemma kheap_goodD:
  assumes "kheap_good s"
  shows "kernel_heap s \<noteq> 0" "heap_ok (kernel_heap s) (blocks_of (kernel_heap s) s) s"
    "tiles (mem s) (hend (kernel_heap s) s) (hstart (kernel_heap s) s) (blocks_of (kernel_heap s) s)"
    "hstart (kernel_heap s) s + total (blocks_of (kernel_heap s) s) \<le> 2 ^ 32"
proof -
  show g: "kernel_heap s \<noteq> 0" "heap_ok (kernel_heap s) (blocks_of (kernel_heap s) s) s"
    using assms by (simp_all add: kheap_good_def)
  show "tiles (mem s) (hend (kernel_heap s) s) (hstart (kernel_heap s) s) (blocks_of (kernel_heap s) s)"
    "hstart (kernel_heap s) s + total (blocks_of (kernel_heap s) s) \<le> 2 ^ 32"
    using heap_okD(1,2) [OF g(2)] by (simp_all add: less_imp_le)
qed

lemma kmalloc_heap:
  assumes "kernel_heap s \<noteq> 0"
  shows "kmalloc n len s = alloc n len 0 (kernel_heap s) s"
  by (cases "alloc n len 0 (kernel_heap s) s")
    (use assms in \<open>auto simp: kmalloc_def kmalloc_internal_def drop_phys_def\<close>)

lemma kheap_get_law:
  assumes good: "kheap_good s" and can: "kheap_can sz s"
  shows "\<exists>p l s'. kmalloc (Suc n) sz s = Inr (p, s') \<and> kheap_good s' \<and> p \<noteq> 0
      \<and> unat sz \<le> l \<and> kheap_live s' = insert (unat p, l) (kheap_live s) \<and> (unat p, l) \<notin> kheap_live s
      \<and> (\<forall>b \<in> kheap_live s. keeps_block (mem s) (mem s') b) \<and> only_heap s s'"
proof -
  let ?h = "kernel_heap s"
  note g = kheap_goodD [OF good]
  obtain k where k: "(k, True) \<in> set (blocks_of ?h s)" "unat sz + 20 \<le> k" using can by (force simp: kheap_can_def)
  obtain p l bs' s' where r: "alloc (Suc n) sz 0 ?h s = Inr (of_nat p, s')" "heap_ok ?h bs' s'" "only_heap s s'"
    "h_addr_start (heaps s' ?h) = h_addr_start (heaps s ?h)" "unat sz \<le> l" "p < 2 ^ 32"
    "mset (payloads (hstart ?h s) bs') = add_mset (p, l) (mset (payloads (hstart ?h s) (blocks_of ?h s)))"
    "\<forall>x q l. (q, l) \<in> set (payloads (hstart ?h s) (blocks_of ?h s)) \<and> q \<le> unat x \<and> unat x < q + l \<longrightarrow> mem s' x = mem s x"
    using alloc_payload [OF g(2) k, of n] by metis
  have kh: "kernel_heap s' = ?h" using only_heapD(1) [OF r(3)] .
  have bs: "blocks_of ?h s' = bs'" using heap_ok_blocks [OF r(2)] .
  have up: "unat (of_nat p :: u32) = p" using r(6) by (intro unat_of_nat32) simp
  note t' = heap_okD(2) [OF r(2)]
  have d: "distinct (payloads (hstart ?h s) bs')" using payloads_distinct(1) [OF t'] r(4) by simp
  have "(p, l) \<in> set (payloads (hstart ?h s) bs')" using r(7) by (metis set_mset_mset union_single_eq_member)
  moreover have "hstart ?h s + 12 \<le> p" using payloads_range [OF t', of p l] r(4) calculation by simp
  then have "of_nat p \<noteq> (0 :: u32)" using up by auto
  moreover have "set (payloads (hstart ?h s) bs') = insert (p, l) (kheap_live s)"
    using arg_cong [OF r(7), of set_mset] by (simp add: kheap_live_def)
  moreover have "(p, l) \<notin> kheap_live s"
  proof -
    have "count (mset (payloads (hstart ?h s) bs')) (p, l) \<le> 1"
      using d by (simp add: distinct_count_atmost_1)
    then have "count (mset (payloads (hstart ?h s) (blocks_of ?h s))) (p, l) = 0" using r(7) by simp
    then show ?thesis unfolding kheap_live_def by (metis count_eq_zero_iff set_mset_mset)
  qed
  moreover have "kmalloc (Suc n) sz s = Inr (of_nat p, s')" using r(1) kmalloc_heap [OF g(1)] by (simp only:)
  moreover have "kheap_good s'" using g(1) kh bs r(2) by (simp add: kheap_good_def)
  moreover have "kheap_live s' = set (payloads (hstart ?h s) bs')" using kh bs r(4) by (simp add: kheap_live_def)
  moreover have "keeps_block (mem s) (mem s') b" if "b \<in> kheap_live s" for b
    using r(8) that unfolding kheap_live_def keeps_block_def by (metis prod.collapse)
  ultimately show ?thesis
    using r(3,5) up by (intro exI [of _ "of_nat p"] exI [of _ l] exI [of _ s']) (simp only:, blast)
qed

text \<open>The two shapes of a release that keeps the invariant, with what they do to the blocks in use.\<close>

lemma kheap_put_steps:
  assumes good: "kheap_good s" and may: "kheap_may_put p s"
  obtains q bs' s' where "unat p = q" "kfree p s = Inr s'" "heap_ok (kernel_heap s) bs' s'"
    "h_addr_start (heaps s' (kernel_heap s)) = h_addr_start (heaps s (kernel_heap s))" "only_heap s s'"
    "\<exists>k. mset (payloads (hstart (kernel_heap s) s) (blocks_of (kernel_heap s) s))
        = add_mset (q, k) (mset (payloads (hstart (kernel_heap s) s) bs'))"
    "\<And>x b. b \<in> set (payloads (hstart (kernel_heap s) s) bs') \<Longrightarrow> fst b \<le> unat x \<Longrightarrow> unat x < fst b + snd b \<Longrightarrow> mem s' x = mem s x"
proof -
  let ?h = "kernel_heap s"
  let ?a0 = "hstart ?h s"
  note g = kheap_goodD [OF good]
  obtain xs n k ys where b: "blocks_of ?h s = xs @ (n, False) # (k, False) # ys"
    "p = of_nat (?a0 + total xs) + SIZEOF_header"
    "xs \<noteq> [] \<and> snd (last xs) \<or> left_used ?h xs s \<and> sa_size (h_index (heaps s ?h)) < sa_maxsize (h_index (heaps s ?h))"
    using may unfolding kheap_may_put_def by blast
  have ok: "heap_ok ?h (xs @ (n, False) # (k, False) # ys) s" using g(2) b(1) by simp
  note sp = heap_ok_split [OF ok]
  have "?a0 + total xs + 12 < 4294967296" using sp(1,3) by simp
  then have "unat (of_nat (?a0 + total xs + 12) :: u32) = ?a0 + total xs + 12" by (rule unat_of_nat32)
  then have up: "unat p = ?a0 + total xs + 12" by (simp add: b(2) SIZEOF_header_def)
  show thesis
  proof (cases "left_used ?h xs s \<and> sa_size (h_index (heaps s ?h)) < sa_maxsize (h_index (heaps s ?h))")
    case True
    obtain s' where s': "free p ?h s = Inr s'" "heap_ok ?h (xs @ (n, True) # (k, False) # ys) s'"
      "h_addr_start (heaps s' ?h) = h_addr_start (heaps s ?h)" "only_heap s s'"
      "\<And>x. x \<notin> sa_region (h_index (heaps s ?h)) \<Longrightarrow>
        \<not> (?a0 + total xs \<le> unat x \<and> unat x < ?a0 + total xs + n) \<Longrightarrow> mem s' x = mem s x"
      using free_alone_ok [OF ok g(1) conjunct1 [OF True] conjunct2 [OF True]] unfolding b(2) by metis
    have fr: "mem s' x = mem s x" if bb: "c \<in> set (payloads ?a0 (xs @ (n, True) # (k, False) # ys))"
      "fst c \<le> unat x" "unat x < fst c + snd c" for x c
    proof (rule s'(5))
      have c: "(fst c, snd c) \<in> set (payloads (hstart ?h s') (xs @ (n, True) # (k, False) # ys))"
        using bb(1) s'(3) by simp
      from payload_not_in_hole(2) [OF s'(2) c bb(2,3)]
      show "\<not> (?a0 + total xs \<le> unat x \<and> unat x < ?a0 + total xs + n)" by (simp only: s'(3) not_False_eq_True)
      have "?a0 + 12 \<le> fst c" using payloads_range [OF heap_okD(2) [OF s'(2)] c] s'(3) by simp
      then show "x \<notin> sa_region (h_index (heaps s ?h))"
        using region_below [OF heap_okD(3,5) [OF ok], of x] bb(2) by simp
    qed
    show thesis
      by (rule that [OF up, of s' "xs @ (n, True) # (k, False) # ys"])
        (use s' fr b(1) in \<open>auto simp: kfree_def payloads_append\<close>)
  next
    case False
    then obtain xs' j where xs: "xs = xs' @ [(j, True)]"
      using b(3) by (cases xs rule: rev_cases) auto
    have ok': "heap_ok ?h (xs' @ (j, True) # (n, False) # (k, False) # ys) s" using ok xs by simp
    have aj: "?a0 + total xs' + j = ?a0 + total xs" by (simp add: xs)
    obtain s' where s': "free p ?h s = Inr s'" "heap_ok ?h (xs' @ (j + n, True) # (k, False) # ys) s'"
      "h_addr_start (heaps s' ?h) = h_addr_start (heaps s ?h)" "only_heap s s'"
      "\<And>x. \<not> (?a0 + total xs' \<le> unat x \<and> unat x < ?a0 + total xs' + j + n) \<Longrightarrow> mem s' x = mem s x"
      using free_left_ok [OF ok' g(1)] unfolding b(2) aj by metis
    have fr: "mem s' x = mem s x" if bb: "c \<in> set (payloads ?a0 (xs' @ (j + n, True) # (k, False) # ys))"
      "fst c \<le> unat x" "unat x < fst c + snd c" for x c
    proof (rule s'(5))
      have c: "(fst c, snd c) \<in> set (payloads (hstart ?h s') (xs' @ (j + n, True) # (k, False) # ys))"
        using bb(1) s'(3) by simp
      from payload_not_in_hole(2) [OF s'(2) c bb(2,3)]
      show "\<not> (?a0 + total xs' \<le> unat x \<and> unat x < ?a0 + total xs' + j + n)" by (simp only: s'(3) add.assoc not_False_eq_True)
    qed
    show thesis
      by (rule that [OF up, of s' "xs' @ (j + n, True) # (k, False) # ys"])
        (use s' fr b(1) xs in \<open>auto simp: kfree_def payloads_append add.assoc\<close>)
  qed
qed

lemma kheap_put_law:
  assumes good: "kheap_good s" and may: "kheap_may_put p s" and p: "(unat p, l) \<in> kheap_live s"
  shows "\<exists>s'. kfree p s = Inr s' \<and> kheap_good s' \<and> kheap_live s' = kheap_live s - {(unat p, l)}
      \<and> (\<forall>b \<in> kheap_live s'. keeps_block (mem s) (mem s') b) \<and> only_heap s s'"
proof -
  let ?h = "kernel_heap s"
  note g = kheap_goodD [OF good]
  obtain q bs' s' where r: "unat p = q" "kfree p s = Inr s'" "heap_ok ?h bs' s'"
    "h_addr_start (heaps s' ?h) = h_addr_start (heaps s ?h)" "only_heap s s'"
    "\<exists>k. mset (payloads (hstart ?h s) (blocks_of ?h s)) = add_mset (q, k) (mset (payloads (hstart ?h s) bs'))"
    "\<And>x b. b \<in> set (payloads (hstart ?h s) bs') \<Longrightarrow> fst b \<le> unat x \<Longrightarrow> unat x < fst b + snd b \<Longrightarrow> mem s' x = mem s x"
    by (rule kheap_put_steps [OF good may]) (rule that, assumption+)
  obtain k where k: "mset (payloads (hstart ?h s) (blocks_of ?h s)) = add_mset (q, k) (mset (payloads (hstart ?h s) bs'))"
    using r(6) by blast
  have kh: "kernel_heap s' = ?h" using only_heapD(1) [OF r(5)] .
  have bs: "blocks_of ?h s' = bs'" using heap_ok_blocks [OF r(3)] .
  note d = payloads_distinct [OF g(3)]
  have old: "kheap_live s = insert (q, k) (set (payloads (hstart ?h s) bs'))"
    using arg_cong [OF k, of set_mset] by (simp add: kheap_live_def)
  have "k = l" using d(2) [of q k l] p old r(1) by (simp add: kheap_live_def)
  have "count (mset (payloads (hstart ?h s) (blocks_of ?h s))) (q, k) \<le> 1"
    using d(1) by (simp add: distinct_count_atmost_1)
  then have "count (mset (payloads (hstart ?h s) bs')) (q, k) = 0" using k by simp
  then have "(q, k) \<notin> set (payloads (hstart ?h s) bs')" by (metis count_eq_zero_iff set_mset_mset)
  then have live': "kheap_live s' = kheap_live s - {(unat p, l)}"
    using old kh bs r(1,4) \<open>k = l\<close> by (simp add: kheap_live_def)
  moreover have "keeps_block (mem s) (mem s') b" if "b \<in> kheap_live s'" for b
    using r(7) [of b] that kh bs r(4) by (simp add: kheap_live_def keeps_block_def)
  moreover have "kheap_good s'" using g(1) kh bs r(3) by (simp add: kheap_good_def)
  ultimately show ?thesis using r(2,5) by blast
qed

interpretation kheap: block_heap "kmalloc (Suc n)" mem kheap_good kheap_live kheap_can kfree kheap_may_put for n
proof (unfold_locales, goal_cases)
  case (1 s)
  then show ?case using payloads_apart [OF kheap_goodD(3,4)] by (simp add: kheap_live_def)
next
  case (2 s sz)
  then show ?case using kheap_get_law by blast
next
  case (3 s p l)
  then show ?case using kheap_put_law by blast
qed

section \<open>Properties\<close>

text \<open>
  Without a kernel heap every allocation succeeds and takes the next free range
  above \<open>placement_address\<close>, at most one page further on: page-aligned when asked for (and then always
  moved, even from an aligned address), zeroed when asked for, with the same physical address; all
  other memory is unchanged.
\<close>
theorem kmalloc_before_heap:
  assumes "kernel_heap s = 0" "4096 \<le> unat (placement_address s)" "unat (placement_address s) + 4096 < 2 ^ 32"
  shows "\<exists>addr s'. kmalloc_internal al len phys flags s = Inr (addr, if phys then addr else 0, s')
    \<and> unat (placement_address s) \<le> unat addr \<and> unat addr \<le> unat (placement_address s) + 4096
    \<and> (flags AND M_ALIGNED \<noteq> 0 \<longrightarrow> unat addr mod 4096 = 0 \<and> unat (placement_address s) < unat addr)
    \<and> placement_address s' = addr + len
    \<and> (\<forall>x. mem s' x = (if flags AND M_ZERO \<noteq> 0 \<and> x \<in> addr_range addr (unat len) then 0 else mem s x))"
proof (rule kmalloc_placement [OF assms, of al len phys flags])
  fix addr
  assume a: "kmalloc_internal al len phys flags s = Inr (addr, if phys then addr else 0,
       s\<lparr>placement_address := addr + len,
         mem := (if flags AND M_ZERO \<noteq> 0 then bzero addr len (mem s) else mem s)\<rparr>)"
    "unat (placement_address s) \<le> unat addr" "unat addr \<le> unat (placement_address s) + 4096"
    "flags AND M_ALIGNED \<noteq> 0 \<Longrightarrow> unat addr mod 4096 = 0 \<and> unat (placement_address s) < unat addr"
  show ?thesis
    by (rule exI [of _ addr], rule exI, rule conjI, rule a(1))
      (use a(2-4) in \<open>auto simp: bzero_apply simp del: addr_range_code\<close>)
qed

theorem kmalloc_before_heap_witness:
  "\<exists>addr s'. kmalloc0_ap 0 4096 boot_kmem = Inr (addr, addr, s') \<and> unat addr mod 4096 = 0 \<and> 0x200000 < unat addr"
proof -
  have p: "kernel_heap boot_kmem = 0" "4096 \<le> unat (placement_address boot_kmem)"
    "unat (placement_address boot_kmem) + 4096 < 2 ^ 32" by simp_all
  have "(M_ALIGNED OR M_ZERO) AND M_ALIGNED \<noteq> 0" by (simp add: M_ALIGNED_def M_ZERO_def)
  then show ?thesis
    using kmalloc_before_heap [OF p, of "alloc 0" 4096 True "M_ALIGNED OR M_ZERO"]
    unfolding kmalloc0_ap_def by auto
qed

text \<open>
  For an address without a page table, \<open>get_page\<close> with \<open>create\<close> takes a new page-aligned
  table from the placement allocator, with all its 1024 entries empty, enters it in the directory, and
  returns the entry of the address; every other entry of the directory is as before.
\<close>
theorem get_page_adds_table:
  assumes "placement_ready b s" "unat dir + 8196 \<le> b" "read32 (mem s) (pd_tables dir (a div 0x1000 div 1024)) = 0"
  shows "\<exists>tbl s'. get_page (kmalloc0_ap n) a True dir s = Inr (pt_pages tbl (a div 0x1000 mod 1024), s')
    \<and> tbl \<noteq> 0 \<and> unat tbl mod 4096 = 0 \<and> read32 (mem s') (pd_tables dir (a div 0x1000 div 1024)) = tbl
    \<and> read32 (mem s') (pd_tblphys dir (a div 0x1000 div 1024)) = tbl OR 0x7
    \<and> (\<forall>j < 1024. read32 (mem s') (pt_pages tbl j) = 0)
    \<and> (\<forall>i < 1024. i \<noteq> a div 0x1000 div 1024 \<longrightarrow> read32 (mem s') (pd_tables dir i) = read32 (mem s) (pd_tables dir i))"
  using place.get_page_creates [OF assms, of n] by (elim exE conjE) (intro exI conjI, assumption+, auto)

theorem get_page_adds_table_witness:
  "\<exists>tbl s'. get_page (kmalloc0_ap 0) 0xC0000000 True 0x100000 boot_kmem = Inr (pt_pages tbl 0, s') \<and> tbl \<noteq> 0
    \<and> read32 (mem s') (pd_tables 0x100000 0x300) = tbl"
proof -
  have r: "placement_ready 0x200000 boot_kmem" by (simp add: placement_ready_def)
  have "read32 (mem boot_kmem) (pd_tables 0x100000 (0xC0000000 div 0x1000 div 1024)) = 0" by simp
  from get_page_adds_table [OF r _ this, of 0] show ?thesis by auto
qed

end
