(* ===== verification/Heap_Grow.thy ===== *)
theory Heap_Grow
  imports Heap_Alloc
begin

text \<open>
  The growth of a heap: \<open>expand\<close> maps new pages behind the heap, \<open>alloc\<close> turns them into a hole, or lengthens
  the hole at the end, and searches again. The set \<open>W\<close> is the memory of the frame allocator and of the
  page tables, which must not overlap the heap.
\<close>

section \<open>Mapping the pages\<close>

text \<open>The page table of the address \<open>a\<close> exists, and its entry for \<open>a\<close> lies in \<open>W\<close> beside the frame bits.\<close>

definition table_of :: "u32 \<Rightarrow> 'a kmem_scheme \<Rightarrow> u32" where
  "table_of a s = read32 (mem s) (pd_tables (kernel_directory s) (a div 0x1000 div 1024))"

definition entry_of :: "u32 \<Rightarrow> 'a kmem_scheme \<Rightarrow> u32" where
  "entry_of a s = pt_pages (table_of a s) (a div 0x1000 mod 1024)"

definition table_ready :: "u32 set \<Rightarrow> u32 \<Rightarrow> 'a kmem_scheme \<Rightarrow> bool" where
  "table_ready W a s \<longleftrightarrow> table_of a s \<noteq> 0 \<and> addr_range (entry_of a s) 4 \<subseteq> W \<and> page_apart s (entry_of a s)
     \<and> addr_range (pd_tables (kernel_directory s) (a div 0x1000 div 1024)) 4 \<inter> W = {}"

definition free_frames :: "'a paging_scheme \<Rightarrow> nat set" where
  "free_frames s = {f. f < nbits s \<and> \<not> frame_used s f}"

lemma get_page_ready:
  assumes "table_ready W a s"
  shows "get_page kz a create (kernel_directory s) s = Inr (entry_of a s, s)"
  using assms by (simp add: table_ready_def get_page_def entry_of_def table_of_def Let_def)

lemma table_ready_cong:
  assumes "table_ready W a s" "\<And>x. x \<notin> W \<Longrightarrow> m x = mem s x"
  shows "table_ready W a (s\<lparr>mem := m\<rparr>)"
proof -
  have "read32 m (pd_tables (kernel_directory s) (a div 0x1000 div 1024)) = table_of a s"
    unfolding table_of_def using assms by (intro read32_cong) (auto simp: table_ready_def simp del: addr_range_code)
  then have "table_of a (s\<lparr>mem := m\<rparr>) = table_of a s" by (simp add: table_of_def)
  then show ?thesis
    using assms(1) by (simp add: table_ready_def entry_of_def page_apart_def bitset_region_def del: addr_range_code)
qed

lemma alloc_frame_mem: "alloc_frame p k w s = Inr s' \<Longrightarrow> s' = s\<lparr>mem := mem s'\<rparr>"
  by (auto simp: alloc_frame_def set_frame_def set_page_def Let_def split: if_splits)

text \<open>A page gets a frame if there is a free one; the frame allocator writes inside \<open>W\<close>.\<close>

lemma map_page_frame:
  fixes s :: "'a kmem_scheme"
  assumes "bitset_wf s" "bitset_region s \<subseteq> W" "table_ready W a s" "Suc n \<le> card (free_frames s)"
  obtains m where "alloc_frame (entry_of a s) k w s = Inr (s\<lparr>mem := m\<rparr>)" "\<And>x. x \<notin> W \<Longrightarrow> m x = mem s x"
    "n \<le> card (free_frames (s\<lparr>mem := m\<rparr>))"
proof (cases "p_frame (page_at s (entry_of a s)) = 0")
  case True
  have ap: "page_apart s (entry_of a s)" and cell: "addr_range (entry_of a s) 4 \<subseteq> W"
    using assms(3) by (simp_all add: table_ready_def)
  define f where "f = (LEAST f. f \<in> free_frames s)"
  have "free_frames s \<noteq> {}" using assms(4) by auto
  then have f: "f \<in> free_frames s" unfolding f_def by (metis LeastI_ex ex_in_conv)
  have least: "frame_used s g" if "g < f" for g
    using not_less_Least [of g "\<lambda>f. f \<in> free_frames s"] that f unfolding f_def [symmetric] by (auto simp: free_frames_def)
  obtain s' where s': "alloc_frame (entry_of a s) k w s = Inr s'" "nframes s' = nframes s" "frames s' = frames s"
    "\<And>g. g < nbits s \<Longrightarrow> frame_used s' g \<longleftrightarrow> g = f \<or> frame_used s g"
    "\<And>x. x \<notin> addr_range (entry_of a s) 4 \<union> bitset_region s \<Longrightarrow> mem s' x = mem s x"
    using alloc_frame_step [OF assms(1) ap True _ _ least, where k = k and w = w] f unfolding free_frames_def by blast
  have eq: "s' = s\<lparr>mem := mem s'\<rparr>" by (rule alloc_frame_mem [OF s'(1)])
  have "free_frames s' = free_frames s - {f}" using s'(2,4) by (auto simp: free_frames_def nbits_def)
  moreover have "finite (free_frames s)" by (simp add: free_frames_def)
  ultimately have "n \<le> card (free_frames s')" using f assms(4) by (simp add: card_Diff_singleton)
  moreover have "mem s' x = mem s x" if "x \<notin> W" for x using s'(5) that assms(2) cell by blast
  ultimately show thesis using that [of "mem s'"] s'(1) eq by metis
next
  case False
  then have "alloc_frame (entry_of a s) k w s = Inr (s\<lparr>mem := mem s\<rparr>)" by (simp add: alloc_frame_def)
  then show thesis using that [of "mem s"] assms(4) by simp
qed

lemma expand_pages_ok:
  fixes s :: "'a kmem_scheme"
  assumes "bitset_wf s" "bitset_region s \<subseteq> W" "\<And>j. unat i \<le> unat j \<Longrightarrow> j < b \<Longrightarrow> table_ready W (h_addr_start (heaps s h) + j) s"
    and "unat b + 4096 \<le> 2 ^ 32" "unat b \<le> unat i + 4096 * n" "n \<le> card (free_frames s)"
  shows "\<exists>m. expand_pages (Suc n + k) kz i b h s = Inr (s\<lparr>mem := m\<rparr>) \<and> (\<forall>x. x \<notin> W \<longrightarrow> m x = mem s x)"
  using assms
proof (induction n arbitrary: i s)
  case 0
  then have "\<not> i < b" by (simp add: word_less_nat_alt)
  then show ?case by (intro exI [of _ "mem s"]) simp
next
  case (Suc n)
  show ?case
  proof (cases "i < b")
    case True
    let ?a = "h_addr_start (heaps s h) + i"
    have rdy: "table_ready W ?a s" using Suc.prems(3) True by blast
    obtain m where m: "alloc_frame (entry_of ?a s) (h_su (heaps s h)) (h_ro (heaps s h)) s = Inr (s\<lparr>mem := m\<rparr>)"
      "\<And>x. x \<notin> W \<Longrightarrow> m x = mem s x" "n \<le> card (free_frames (s\<lparr>mem := m\<rparr>))"
      by (rule map_page_frame [OF Suc.prems(1,2) rdy Suc.prems(6), where k = "h_su (heaps s h)" and w = "h_ro (heaps s h)"]) (rule that, assumption+)
    have i': "unat (i + 0x1000) = unat i + 4096"
      using True Suc.prems(4) by (subst unat_add_nowrap) (simp_all add: word_less_nat_alt)
    have rdy': "table_ready W (h_addr_start (heaps (s\<lparr>mem := m\<rparr>) h) + j) (s\<lparr>mem := m\<rparr>)"
      if "unat (i + 0x1000) \<le> unat j" "j < b" for j
      using table_ready_cong [OF Suc.prems(3) m(2)] that i' by simp
    have "\<exists>m'. expand_pages (Suc n + k) kz (i + 0x1000) b h (s\<lparr>mem := m\<rparr>) = Inr (s\<lparr>mem := m\<rparr>\<lparr>mem := m'\<rparr>)
        \<and> (\<forall>x. x \<notin> W \<longrightarrow> m' x = mem (s\<lparr>mem := m\<rparr>) x)"
      by (rule Suc.IH [OF _ _ rdy' Suc.prems(4) _ m(3)])
        (use Suc.prems(1,2,5) i' in \<open>simp_all add: bitset_wf_def bitset_region_def del: addr_range_code\<close>)
    then obtain m' where "expand_pages (Suc n + k) kz (i + 0x1000) b h (s\<lparr>mem := m\<rparr>) = Inr (s\<lparr>mem := m'\<rparr>)"
      "\<forall>x. x \<notin> W \<longrightarrow> m' x = mem s x" using m(2) by auto
    then show ?thesis using True get_page_ready [OF rdy] m(1) by (intro exI [of _ m']) simp
  next
    case False
    then show ?thesis by (intro exI [of _ "mem s"]) simp
  qed
qed

section \<open>expand\<close>

text \<open>The size to which the heap grows when \<open>k\<close> bytes are asked for: \<open>align_up\<close> on numbers.\<close>

definition grown :: "nat \<Rightarrow> nat" where
  "grown k = (if k < 4096 then k else k div 4096 * 4096 + 4096)"

lemma grown_bounds: "k \<le> grown k" "grown k \<le> k + 4096"
proof -
  have "k div 4096 * 4096 \<le> k" "k < k div 4096 * 4096 + 4096"
    using div_mult_mod_eq [of k 4096] mod_less_divisor [of 4096 k] by linarith+
  then show "k \<le> grown k" "grown k \<le> k + 4096" by (simp_all add: grown_def)
qed

lemma unat_align_up:
  assumes "grown (unat a) < 2 ^ 32"
  shows "unat (align_up a) = grown (unat a)"
proof -
  have "(0xFFFFF000 :: u32) = NOT (mask 12)" by (simp add: mask_eq_exp_minus_1)
  then have u: "unat (a AND 0xFFFFF000) = unat a div 4096 * 4096"
    using unat_and_not_mask [of a 12] minus_mod_eq_div_mult [of "unat a" 4096] by simp
  have z: "a AND 0xFFFFF000 = 0 \<longleftrightarrow> unat a < 4096"
    unfolding word_unat_eq_iff u by (simp add: div_eq_0_iff)
  show ?thesis
  proof (cases "unat a < 4096")
    case True
    then show ?thesis using z by (simp add: align_up_def grown_def)
  next
    case False
    then have "unat ((a AND 0xFFFFF000) + 0x1000) = unat a div 4096 * 4096 + 4096"
      using assms u by (subst unat_add_nowrap) (simp_all add: grown_def)
    then show ?thesis using z False by (simp add: align_up_def grown_def)
  qed
qed

text \<open>What \<open>expand\<close> needs: frames and page tables for the new pages, away from the heap.\<close>

definition grow_ready :: "u32 \<Rightarrow> u32 set \<Rightarrow> nat \<Rightarrow> 'a kmem_scheme \<Rightarrow> bool" where
  "grow_ready h W b s \<longleftrightarrow> bitset_wf s \<and> bitset_region s \<subseteq> W \<and> 4096 \<le> hstart h s
     \<and> hstart h s + b \<le> unat (h_addr_max (heaps s h))
     \<and> b \<le> hend h s - hstart h s + 4096 * card (free_frames s)
     \<and> (\<forall>j. hend h s - hstart h s \<le> unat j \<and> unat j < b \<longrightarrow> table_ready W (h_addr_start (heaps s h) + j) s)
     \<and> sa_region (h_index (heaps s h)) \<inter> W = {} \<and> (\<forall>x \<in> W. \<not> (hstart h s \<le> unat x \<and> unat x < hstart h s + b))"

lemma pages_needed:
  fixes b l c :: nat
  shows "b \<le> l + 4096 * ((b - l + 4095) div 4096)" "b \<le> l + 4096 * c \<Longrightarrow> (b - l + 4095) div 4096 \<le> c"
proof -
  show "b \<le> l + 4096 * ((b - l + 4095) div 4096)"
    using div_mult_mod_eq [of "b - l + 4095" 4096] mod_less_divisor [of 4096 "b - l + 4095"] by linarith
  assume "b \<le> l + 4096 * c"
  then have "b - l + 4095 < Suc c * 4096" by simp
  then show "(b - l + 4095) div 4096 \<le> c" using less_mult_imp_div_less by (simp add: less_Suc_eq_le)
qed

lemma expand_ok:
  fixes s :: "'a kmem_scheme"
  assumes le: "hstart h s \<le> hend h s" and gr: "hend h s - hstart h s < unat new" and rdy: "grow_ready h W (grown (unat new)) s"
  obtains m where "expand kz new h s
      = Inr (upd_heap h (\<lambda>hp. hp\<lparr>h_addr_end := h_addr_start hp + of_nat (grown (unat new))\<rparr>) (s\<lparr>mem := m\<rparr>))"
    "\<And>x. x \<notin> W \<Longrightarrow> m x = mem s x"
proof -
  let ?b = "align_up new"
  let ?l = "heap_len h s"
  have r: "bitset_wf s" "bitset_region s \<subseteq> W" "4096 \<le> hstart h s" "hstart h s + grown (unat new) \<le> unat (h_addr_max (heaps s h))"
    "grown (unat new) \<le> hend h s - hstart h s + 4096 * card (free_frames s)"
    and tab: "\<And>j. hend h s - hstart h s \<le> unat j \<Longrightarrow> unat j < grown (unat new) \<Longrightarrow> table_ready W (h_addr_start (heaps s h) + j) s"
    using rdy by (auto simp: grow_ready_def)
  have lt: "hstart h s + grown (unat new) < 2 ^ 32" using r(4) unat_lt_power [of "h_addr_max (heaps s h)"] by linarith
  have b: "unat ?b = grown (unat new)" using lt by (intro unat_align_up) linarith
  have l: "unat ?l = hend h s - hstart h s" using le by (simp add: heap_len_def unat_sub_nowrap)
  have sum: "unat (h_addr_start (heaps s h) + ?b) = hstart h s + grown (unat new)"
    using lt b by (subst unat_add_nowrap) simp_all
  obtain n where n: "unat ?b \<le> unat ?l + 4096 * n" "n \<le> card (free_frames s)" "n \<le> 2 ^ 20"
  proof (rule that [OF pages_needed(1)])
    show "(unat ?b - unat ?l + 4095) div 4096 \<le> card (free_frames s)"
      by (rule pages_needed(2)) (use r(5) b l in simp)
    show "(unat ?b - unat ?l + 4095) div 4096 \<le> 2 ^ 20"
      by (rule pages_needed(2)) (use unat_lt32 [of ?b, THEN less_imp_le, THEN trans_le_add2, of "unat ?l"] in simp)
  qed
  obtain k where k: "page_fuel = Suc n + k" using le_Suc_ex [of "Suc n" page_fuel] n(3) by (auto simp: page_fuel_def)
  have "\<exists>m. expand_pages (Suc n + k) kz ?l ?b h s = Inr (s\<lparr>mem := m\<rparr>) \<and> (\<forall>x. x \<notin> W \<longrightarrow> m x = mem s x)"
  proof (rule expand_pages_ok [OF r(1,2) _ _ n(1,2)])
    show "table_ready W (h_addr_start (heaps s h) + j) s" if "unat ?l \<le> unat j" "j < ?b" for j
      using tab [of j] that l b by (simp add: word_less_nat_alt)
    show "unat ?b + 4096 \<le> 2 ^ 32" using lt b r(3) by linarith
  qed
  then obtain m where m: "expand_pages page_fuel kz ?l ?b h s = Inr (s\<lparr>mem := m\<rparr>)" "\<And>x. x \<notin> W \<Longrightarrow> m x = mem s x"
    unfolding k by blast
  have bw: "?b = of_nat (grown (unat new))" unfolding b [symmetric] by simp
  show thesis
    by (rule that [OF _ m(2)]) (use m(1) gr l sum r(4) in
        \<open>simp_all add: expand_def kassert_def Let_def word_less_nat_alt word_le_nat_alt flip: bw\<close>)
qed

section \<open>The endmost hole\<close>

lemma endmost_header_spec:
  assumes "sa_wf ix" "i \<le> sa_size ix"
  shows "\<exists>r. endmost_header ix m i idx val = Inr r
    \<and> (if \<forall>j. i \<le> j \<and> j < sa_size ix \<longrightarrow> sa_get ix m j \<le> val then r = idx
       else i \<le> r \<and> r < sa_size ix \<and> val < sa_get ix m r \<and> (\<forall>j. i \<le> j \<and> j < sa_size ix \<longrightarrow> sa_get ix m j \<le> sa_get ix m r))"
  using assms
proof (induction ix m i idx val rule: endmost_header.induct)
  case (1 ix m i idx val)
  show ?case
  proof (cases "i < sa_size ix")
    case True
    let ?t = "sa_get ix m i"
    have look: "lookup_sorted_array ix i m = Inr ?t" using True by (simp add: lookup_sorted_array_def)
    have suc: "unat (i + 1) = Suc (unat i)" by (rule unat_Suc32 [OF True])
    have le: "i + 1 \<le> sa_size ix" using True suc by (simp add: word_le_nat_alt word_less_nat_alt)
    have split: "i \<le> j \<longleftrightarrow> j = i \<or> i + 1 \<le> j" for j
      using suc by (auto simp: word_le_nat_alt word_unat_eq_iff)
    have all: "(\<forall>j. i \<le> j \<and> j < sa_size ix \<longrightarrow> P j) \<longleftrightarrow> P i \<and> (\<forall>j. i + 1 \<le> j \<and> j < sa_size ix \<longrightarrow> P j)" for P
      unfolding split using True by blast
    have up: "i + 1 \<le> r \<Longrightarrow> i \<le> r" for r using split by blast
    show ?thesis
    proof (cases "val < ?t")
      case gt: True
      then show ?thesis
        using "1.IH"(1) [OF True look gt "1.prems"(1) le] True look up unfolding all
        by (subst endmost_header.simps) (auto split: if_splits)
    next
      case no: False
      then show ?thesis
        using "1.IH"(2) [OF True look no "1.prems"(1) le] True look up unfolding all
        by (subst endmost_header.simps) (auto split: if_splits)
    qed
  next
    case False
    then have "\<not> (i \<le> j \<and> j < sa_size ix)" for j by auto
    then show ?thesis using False by (subst endmost_header.simps) auto
  qed
qed

section \<open>The hole at the end\<close>

text \<open>Only a hole that reaches the end may lack its footer.\<close>

lemma tiles_end:
  assumes "tiles m e a bs" "a + total bs < e \<or> (\<forall>b \<in> set bs. \<not> snd b)"
  shows "tiles m e' a bs"
  using assms
proof (induction m e a bs rule: tiles.induct)
  case (2 m e a n f bs)
  then have "block_at m e' a n f" by (auto simp: block_at_def)
  then show ?case using 2 by auto
qed simp

lemma holes_none: "\<forall>b \<in> set bs. \<not> snd b \<Longrightarrow> holes a bs = []"
  by (induction a bs rule: holes.induct) auto

lemma holes_below: "x \<in> set (holes a bs) \<Longrightarrow> tiles m e a bs \<Longrightarrow> x < a + total bs"
  by (induction a bs rule: holes.induct) (auto simp: block_at_def split: if_splits)

text \<open>
  The heap after \<open>expand\<close>: the record has the new end, memory is new inside \<open>W\<close>. \<open>d\<close> bytes behind the
  blocks are not yet part of a block.
\<close>

definition expanded :: "u32 \<Rightarrow> u32 set \<Rightarrow> (nat \<times> bool) list \<Rightarrow> nat \<Rightarrow> 'a kmem_scheme \<Rightarrow> 'a kmem_scheme \<Rightarrow> bool" where
  "expanded h W bs d s s1 \<longleftrightarrow> heap_ok h bs s \<and> hend h s1 = hend h s + d \<and> h_addr_start (heaps s1 h) = h_addr_start (heaps s h)
     \<and> h_index (heaps s1 h) = h_index (heaps s h) \<and> only_heap s s1 \<and> (\<forall>x. x \<notin> W \<longrightarrow> mem s1 x = mem s x)
     \<and> sa_region (h_index (heaps s h)) \<inter> W = {} \<and> (\<forall>x \<in> W. \<not> (hstart h s \<le> unat x \<and> unat x < hend h s + d))"

lemma expandedD:
  assumes "expanded h W bs d s s1"
  shows "agree (hstart h s) (hend h s + d) (mem s) (mem s1)"
    "sa_elems (h_index (heaps s1 h)) (mem s1) = sa_elems (h_index (heaps s h)) (mem s)"
    "tiles (mem s1) (hend h s) (hstart h s) bs" "hend h s + d < 2 ^ 32"
proof -
  have e: "heap_ok h bs s" "hend h s1 = hend h s + d" "h_index (heaps s1 h) = h_index (heaps s h)"
    "\<And>x. x \<notin> W \<Longrightarrow> mem s1 x = mem s x" "sa_region (h_index (heaps s h)) \<inter> W = {}"
    "\<And>x. x \<in> W \<Longrightarrow> \<not> (hstart h s \<le> unat x \<and> unat x < hend h s + d)"
    using assms by (auto simp: expanded_def)
  show "hend h s + d < 2 ^ 32" using e(2) unat_lt_power [of "h_addr_end (heaps s1 h)"] by simp
  show ag: "agree (hstart h s) (hend h s + d) (mem s) (mem s1)" using e(4,6) unfolding agree_def by blast
  show "sa_elems (h_index (heaps s1 h)) (mem s1) = sa_elems (h_index (heaps s h)) (mem s)"
    unfolding e(3) by (rule sa_elems_frame [OF heap_okD(3) [OF e(1)]]) (use e(4,5) in blast)
  show "tiles (mem s1) (hend h s) (hstart h s) bs"
    using tiles_agree [OF agree_sub [OF ag], of "hstart h s" bs "hend h s"] heap_okD(1,2) [OF e(1)]
      less_imp_le [OF unat_lt32 [of "h_addr_end (heaps s h)"]] by simp
qed

text \<open>Without a hole the new space becomes one, and enters the index.\<close>

lemma new_end_hole:
  assumes ex: "expanded h W bs d s s1" and none: "\<forall>b \<in> set bs. \<not> snd b" and d: "20 \<le> d"
    and room: "0 < sa_maxsize (h_index (heaps s h))"
  obtains s2 where
    "index_insert h (h_addr_end (heaps s h)) (s1\<lparr>mem := put_block (hend h s) d True (mem s1)\<rparr>) = Inr s2"
    "heap_ok h (bs @ [(d, True)]) s2" "only_heap s s2" "h_addr_start (heaps s2 h) = h_addr_start (heaps s h)"
    "\<And>x. x \<notin> W \<Longrightarrow> x \<notin> sa_region (h_index (heaps s h)) \<Longrightarrow> \<not> (hend h s \<le> unat x \<and> unat x < hend h s + d) \<Longrightarrow>
       mem s2 x = mem s x"
proof -
  have ok: "heap_ok h bs s" and e1: "hend h s1 = hend h s + d" "h_addr_start (heaps s1 h) = h_addr_start (heaps s h)"
    "h_index (heaps s1 h) = h_index (heaps s h)" "only_heap s s1" "\<And>x. x \<notin> W \<Longrightarrow> mem s1 x = mem s x"
    using ex by (auto simp: expanded_def)
  note okd = heap_okD [OF ok] and exd = expandedD [OF ex]
  let ?m = "put_block (hend h s) d True (mem s1)"
  let ?s = "s1\<lparr>mem := ?m\<rparr>"
  note pb = put_block_ok [OF d less_imp_le [OF exd(4)], where m = "mem s1" and f = True]
  have none': "holes (hstart h s) bs = []" by (rule holes_none [OF none])
  then have nil: "sa_elems (h_index (heaps s h)) (mem s) = []" using okd(6) by simp
  then have "sa_size (h_index (heaps s h)) = 0" using length_sa_elems [of "h_index (heaps s h)" "mem s"] by (simp add: word_unat_eq_iff)
  then have rm: "sa_size (h_index (heaps ?s h)) < sa_maxsize (h_index (heaps ?s h))" using room e1(3) by simp
  have below: "unat (sa_array (h_index (heaps ?s h))) + 4 * unat (sa_maxsize (h_index (heaps ?s h))) \<le> hstart h s"
    using okd(5) e1(3) by simp
  have wf: "sa_wf (h_index (heaps ?s h))" "sa_cmp (h_index (heaps ?s h)) = Some vm_heap_header_cmp" using okd(3,4) e1(3) by simp_all
  obtain s2 where s2: "index_insert h (h_addr_end (heaps s h)) ?s = Inr s2" "index_step h ?s s2"
    "mset (sa_elems (h_index (heaps s2 h)) (mem s2)) = add_mset (h_addr_end (heaps s h)) (mset (sa_elems (h_index (heaps ?s h)) (mem ?s)))"
    by (rule index_insert_ok [OF wf rm])
  note st = index_stepD [OF s2(2) wf(1) below]
  have le: "hstart h s \<le> hend h s" using okd(1) by simp
  have els: "sa_elems (h_index (heaps ?s h)) (mem ?s) = []"
    using index_agree [OF okd(3,5) agree_sub [OF pb(2)]] le exd(2) nil e1(3) by simp
  have ag: "agree (hstart h s) (hend h s + d) ?m (mem s2)" using st(9) by simp
  have fr: "mem s2 x = mem s x"
    if "x \<notin> W" "x \<notin> sa_region (h_index (heaps s h))" "\<not> (hend h s \<le> unat x \<and> unat x < hend h s + d)" for x
  proof -
    have "mem s2 x = ?m x" using st(10) [of x] that(2) e1(3) by simp
    also have "\<dots> = mem s1 x" using that(3) pb(2) pb(3) [of "2 ^ 32"] unat_lt_power [of x] by (auto simp: agree_def not_le)
    finally show ?thesis using e1(5) [OF that(1)] by simp
  qed
  have "agree (hstart h s) (hend h s) (mem s1) (mem s2)"
    by (rule agree_trans [OF agree_sub [OF pb(2)] agree_sub [OF ag]]) simp_all
  then have "tiles (mem s2) (hend h s) (hstart h s) bs"
    using tiles_agree [of "hstart h s" bs "mem s1" "mem s2" "hend h s"] exd(3) okd(1) less_imp_le [OF unat_lt32 [of "h_addr_end (heaps s h)"]] by simp
  then have old: "tiles (mem s2) (hend h s + d) (hstart h s) bs" by (rule tiles_end) (simp add: none)
  have new: "block_at (mem s2) (hend h s + d) (hend h s) d True"
    using block_at_agree [OF agree_sub [OF ag], of "hend h s" d] pb(1) exd(4) le by simp
  have u: "h_addr_end (heaps s h) = h_addr_start (heaps s h) + of_nat (total bs)"
    using arg_cong [OF okd(1), of "of_nat :: nat \<Rightarrow> u32"] by simp
  have "heap_ok h (bs @ [(d, True)]) s2"
    using old new okd(1,5) st(3-8) e1(1-3) s2(3) els none' okd(4) u by (simp add: heap_ok_def Let_def tiles_append holes_append)
  then show thesis
    using only_heap_trans [OF only_heap_trans [OF e1(4) only_heap_mem] st(11)] st(4) e1(2) by (intro that [OF s2(1) _ _ _ fr]) simp_all
qed

text \<open>A hole at the end is lengthened, and given a footer.\<close>

lemma longer_end_hole:
  assumes ex: "expanded h W (xs @ [(n, True)]) d s s1"
  defines "a \<equiv> hstart h s + total xs"
  defines "m2 \<equiv> put_footer (of_nat (a + (n + d) - 8)) (of_nat a) (set_hh_size (of_nat a) (of_nat (n + d)) (mem s1))"
  shows "heap_ok h (xs @ [(n + d, True)]) (s1\<lparr>mem := m2\<rparr>)"
    "x \<notin> W \<Longrightarrow> \<not> (a \<le> unat x \<and> unat x < hend h s + d) \<Longrightarrow> m2 x = mem s x"
proof -
  have ok: "heap_ok h (xs @ [(n, True)]) s" and e1: "hend h s1 = hend h s + d" "h_addr_start (heaps s1 h) = h_addr_start (heaps s h)"
    "h_index (heaps s1 h) = h_index (heaps s h)" "only_heap s s1" "\<And>x. x \<notin> W \<Longrightarrow> mem s1 x = mem s x"
    using ex by (auto simp: expanded_def)
  note okd = heap_okD [OF ok] and exd = expandedD [OF ex] and sp = heap_ok_split [OF ok, folded a_def]
  have e: "a + n = hend h s" using sp(2) by simp
  have le: "hstart h s \<le> a" by (simp add: a_def)
  let ?m1 = "set_hh_size (of_nat a) (of_nat (n + d)) (mem s1)"
  have fit: "a + (n + d) - 8 + 8 \<le> 2 ^ 32" "a + 12 \<le> a + (n + d) - 8" "a + 12 \<le> 2 ^ 32" using sp(1) exd(4) e by linarith+
  have low: "agree 0 a (mem s1) m2"
    unfolding m2_def by (rule agree_put_footer [OF agree_set_hh_size [OF agree_refl]]) (use fit in auto)
  have high: "agree (a + (n + d)) (2 ^ 32) (mem s1) m2"
    unfolding m2_def by (rule agree_put_footer [OF agree_set_hh_size [OF agree_refl]]) (use fit in auto)
  show fr: "x \<notin> W \<Longrightarrow> \<not> (a \<le> unat x \<and> unat x < hend h s + d) \<Longrightarrow> m2 x = mem s x" for x
    using low high e1(5) [of x] unat_lt_power [of x] e by (auto simp: agree_def not_le)
  have hdr: "agree a (a + 12) ?m1 m2" unfolding m2_def by (rule agree_put_footer [OF agree_refl]) (use fit in auto)
  have b1: "block_at (mem s1) (hend h s) a n True" using exd(3) by (simp add: tiles_append a_def)
  have "hh_magic m2 (of_nat a) = VM_HEAP_HDR_MAGIC" "hh_is_hole m2 (of_nat a) = 1" "hh_size m2 (of_nat a) = of_nat (n + d)"
    using header_agree [OF hdr, of a] fit(3) b1 by (simp_all add: block_at_def)
  moreover have "footer_at m2 a (n + d)" by (simp add: m2_def footer_at_def)
  ultimately have new: "block_at m2 (hend h s + d) a (n + d) True" using sp(1) by (simp add: block_at_def)
  have "tiles (mem s1) (hend h s) (hstart h s) xs" using exd(3) by (simp add: tiles_append)
  then have "tiles (mem s1) (hend h s + d) (hstart h s) xs" by (rule tiles_end) (use e sp(1) in \<open>simp add: a_def\<close>)
  then have old: "tiles m2 (hend h s + d) (hstart h s) xs"
    using tiles_agree [OF agree_sub [OF low], of "hstart h s" xs "hend h s + d"] sp(3) by (simp add: a_def)
  have els: "sa_elems (h_index (heaps s h)) m2 = sa_elems (h_index (heaps s h)) (mem s)"
    using index_agree [OF okd(3,5) agree_sub [OF low]] le exd(2) e1(3) by simp
  show "heap_ok h (xs @ [(n + d, True)]) (s1\<lparr>mem := m2\<rparr>)"
    using old new okd e1(1-3) els e by (simp add: heap_ok_def Let_def tiles_append holes_append a_def)
qed

section \<open>alloc without a fitting hole\<close>

lemma grow_expanded:
  fixes s :: "'a kmem_scheme"
  assumes ok: "heap_ok h bs s" and w: "unat new = w" "20 \<le> w" and rdy: "grow_ready h W (grown (total bs + w)) s"
  defines "d \<equiv> grown (total bs + w) - total bs"
  obtains s1 where "expand kz (heap_len h s + new) h s = Inr s1" "expanded h W bs d s s1"
    "heap_len h s1 - heap_len h s = of_nat d" "w \<le> d"
proof -
  let ?b = "grown (total bs + w)"
  have r: "hstart h s + ?b \<le> unat (h_addr_max (heaps s h))" "sa_region (h_index (heaps s h)) \<inter> W = {}"
    "\<forall>x \<in> W. \<not> (hstart h s \<le> unat x \<and> unat x < hstart h s + ?b)"
    using rdy by (auto simp: grow_ready_def)
  have lt: "hstart h s + ?b < 2 ^ 32" using r(1) unat_lt_power [of "h_addr_max (heaps s h)"] by linarith
  have e: "hstart h s + total bs = hend h s" by (rule heap_okD(1) [OF ok])
  have b: "total bs + w \<le> ?b" by (rule grown_bounds)
  have d: "w \<le> d" "hend h s + d = hstart h s + ?b" using b e by (simp_all add: d_def)
  have l: "unat (heap_len h s) = total bs" using e by (simp add: heap_len_def unat_sub_nowrap)
  have nw: "unat (heap_len h s + new) = total bs + w" using l w(1) b lt by (subst unat_add_nowrap) simp_all
  obtain m where m: "expand kz (heap_len h s + new) h s
      = Inr (upd_heap h (\<lambda>hp. hp\<lparr>h_addr_end := h_addr_start hp + of_nat ?b\<rparr>) (s\<lparr>mem := m\<rparr>))"
    "\<And>x. x \<notin> W \<Longrightarrow> m x = mem s x"
    by (rule expand_ok [where h = h and s = s and new = "heap_len h s + new" and W = W and kz = kz]) (use e nw w(2) rdy in auto)
  let ?s1 = "upd_heap h (\<lambda>hp. hp\<lparr>h_addr_end := h_addr_start hp + of_nat ?b\<rparr>) (s\<lparr>mem := m\<rparr>)"
  have ub: "unat (of_nat ?b :: u32) = ?b" using lt by (intro unat_of_nat32) simp
  have end1: "hend h ?s1 = hend h s + d" using lt ub d(2) by (simp add: unat_add_nowrap)
  have "only_heap s ?s1" unfolding only_heap_def upd_heap_def by (cases s) simp
  then have "expanded h W bs d s ?s1" using ok end1 m(2) r(2,3) d(2) by (simp add: expanded_def)
  moreover have "heap_len h ?s1 - heap_len h s = of_nat d"
  proof -
    have "heap_len h ?s1 = of_nat ?b" by (simp add: heap_len_def)
    moreover have "heap_len h s = of_nat (total bs)" using l by (metis of_nat_unat ucast_id)
    ultimately show ?thesis using b by (simp add: d_def of_nat_diff)
  qed
  ultimately show thesis using that [OF m(1)] d(1) by blast
qed

lemma endmost_is_last:
  assumes ok: "heap_ok h (xs @ [(n, True)]) s" and pos: "0 < hstart h s"
    and els: "sa_elems (h_index (heaps s h)) m = sa_elems (h_index (heaps s h)) (mem s)"
  obtains i where "endmost_header (h_index (heaps s h)) m 0 (-1) 0 = Inr i" "i \<noteq> -1"
    "lookup_sorted_array (h_index (heaps s h)) i m = Inr (of_nat (hstart h s + total xs))"
proof -
  let ?ix = "h_index (heaps s h)" and ?a = "hstart h s + total xs"
  note okd = heap_okD [OF ok] and sp = heap_ok_split [OF ok]
  have wf: "sa_wf ?ix" by (rule okd(3))
  have set: "set (sa_elems ?ix m) = of_nat ` set (holes (hstart h s) (xs @ [(n, True)]))" using index_set [OF ok] els by simp
  have a32: "unat (of_nat ?a :: u32) = ?a" using sp(3) by (intro unat_of_nat32) simp
  have le: "x \<le> of_nat ?a" if "x \<in> set (sa_elems ?ix m)" for x
  proof -
    have "x \<in> of_nat ` set (holes (hstart h s) (xs @ [(n, True)]))" using that unfolding set .
    then obtain k where k: "k \<in> set (holes (hstart h s) (xs @ [(n, True)]))" "x = of_nat k" by blast
    then have "k \<le> ?a" using holes_below [OF _ sp(4)] by (auto simp: holes_append intro: less_imp_le)
    moreover have "k < 4294967296" using calculation sp(3) by simp
    ultimately show ?thesis using a32 k(2) by (simp only: word_le_nat_alt unat_of_nat32)
  qed
  have "of_nat ?a \<in> set (sa_elems ?ix m)" unfolding set by (simp add: holes_append)
  then obtain k where k: "k < unat (sa_size ?ix)" "sa_elems ?ix m ! k = of_nat ?a" by (auto simp: in_set_conv_nth)
  have k32: "unat (of_nat k :: u32) = k" using k(1) unat_lt32 [of "sa_size ?ix"] by (intro unat_of_nat32) linarith
  have gk: "sa_get ?ix m (of_nat k) = of_nat ?a" using k by (simp add: sa_elems_nth)
  have kl: "of_nat k < sa_size ?ix" using k(1) k32 by (simp add: word_less_nat_alt)
  have "0 < (of_nat ?a :: u32)" using a32 pos by (simp add: word_less_nat_alt)
  then have nall: "\<not> (\<forall>j. 0 \<le> j \<and> j < sa_size ?ix \<longrightarrow> sa_get ?ix m j \<le> 0)" using gk kl by (metis leD word_zero_le)
  obtain i where i: "endmost_header ?ix m 0 (-1) 0 = Inr i" "i < sa_size ?ix"
    "\<forall>j. 0 \<le> j \<and> j < sa_size ?ix \<longrightarrow> sa_get ?ix m j \<le> sa_get ?ix m i"
    using endmost_header_spec [OF wf word_zero_le, of m "-1" 0] unfolding if_not_P [OF nall] by blast
  have "sa_get ?ix m i \<in> set (sa_elems ?ix m)"
    using i(2) sa_elems_nth_word [OF i(2), of m] by (metis length_sa_elems nth_mem word_less_nat_alt)
  then have "sa_get ?ix m i = of_nat ?a" using le i(3) gk kl by (metis antisym word_zero_le)
  moreover have "i \<noteq> -1"
  proof -
    have "unat i < 2 ^ 30" using i(2) index_size_small [OF wf] by (simp add: word_less_nat_alt)
    moreover have "unat (-1 :: u32) = 4294967295" by (simp add: unsigned_minus_1_eq_mask mask_eq_exp_minus_1)
    ultimately show ?thesis by auto
  qed
  ultimately show thesis using that [OF i(1)] i(2) by (simp add: lookup_sorted_array_def)
qed

text \<open>
  Growth leaves a hole at the end that is large enough, and the blocks in use as they were. The heap must end with a
  hole or have none: a hole elsewhere that is the endmost one would be lengthened over the blocks behind it.
\<close>

definition grows_at_end :: "(nat \<times> bool) list \<Rightarrow> bool" where
  "grows_at_end bs \<longleftrightarrow> (\<forall>b \<in> set bs. \<not> snd b) \<or> bs \<noteq> [] \<and> snd (last bs)"

lemma alloc_grow_ok:
  fixes s :: "'a kmem_scheme"
  assumes ok: "heap_ok h bs s" and w: "unat new = w" "20 \<le> w" and rdy: "grow_ready h W (grown (total bs + w)) s"
    and at_end: "grows_at_end bs" and room: "0 < sa_maxsize (h_index (heaps s h))"
  obtains ys k s2 where "alloc_grow kz new h s = Inr s2" "heap_ok h (ys @ [(k, True)]) s2" "w \<le> k"
    "payloads (hstart h s) (ys @ [(k, True)]) = payloads (hstart h s) bs" "h_addr_start (heaps s2 h) = h_addr_start (heaps s h)"
    "hend h s2 = hstart h s + grown (total bs + w)" "only_heap s s2"
    "\<And>x. x \<notin> W \<Longrightarrow> x \<notin> sa_region (h_index (heaps s h)) \<Longrightarrow>
       \<not> (hstart h s + total ys \<le> unat x \<and> unat x < hstart h s + grown (total bs + w)) \<Longrightarrow> mem s2 x = mem s x"
proof -
  define d where "d = grown (total bs + w) - total bs"
  have b: "total bs + d = grown (total bs + w)" using grown_bounds(1) [of "total bs + w"] by (simp add: d_def)
  have e: "hstart h s + total bs = hend h s" by (rule heap_okD(1) [OF ok])
  have hd: "hend h s + d = hstart h s + grown (total bs + w)" using b e by simp
  obtain s1 where s1: "expand kz (heap_len h s + new) h s = Inr s1" "expanded h W bs d s s1"
    "heap_len h s1 - heap_len h s = of_nat d" "w \<le> d"
    by (rule grow_expanded [OF ok w rdy, of kz, folded d_def])
  note exd = expandedD [OF s1(2)]
  have ix: "h_index (heaps s1 h) = h_index (heaps s h)" and st: "h_addr_start (heaps s1 h) = h_addr_start (heaps s h)"
    and end1: "hend h s1 = hend h s + d" and oh: "only_heap s s1"
    using s1(2) by (simp_all add: expanded_def)
  have d20: "20 \<le> d" using s1(4) w(2) by simp
  have pos: "0 < hstart h s" using rdy by (auto simp: grow_ready_def)
  show thesis
  proof (cases "\<forall>b \<in> set bs. \<not> snd b")
    case True
    have "sa_elems (h_index (heaps s h)) (mem s) = []" using heap_okD(6) [OF ok] holes_none [OF True] by simp
    then have z: "sa_size (h_index (heaps s h)) = 0"
      using length_sa_elems [of "h_index (heaps s h)" "mem s"] by (simp add: word_unat_eq_iff)
    have em: "endmost_header (h_index (heaps s1 h)) (mem s1) 0 (-1) 0 = Inr (-1)"
      by (subst endmost_header.simps) (simp add: ix z)
    obtain s2 where s2: "index_insert h (h_addr_end (heaps s h)) (s1\<lparr>mem := put_block (hend h s) d True (mem s1)\<rparr>) = Inr s2"
      "heap_ok h (bs @ [(d, True)]) s2" "only_heap s s2" "h_addr_start (heaps s2 h) = h_addr_start (heaps s h)"
      and fr: "\<And>x. x \<notin> W \<Longrightarrow> x \<notin> sa_region (h_index (heaps s h)) \<Longrightarrow> \<not> (hend h s \<le> unat x \<and> unat x < hend h s + d) \<Longrightarrow>
        mem s2 x = mem s x"
      by (rule new_end_hole [OF s1(2) True d20 room]) (rule that, assumption+)
    have "hend h s + d - 8 + 8 = hend h s + d" using d20 by linarith
    then have "(of_nat (hend h s + d - 8) :: u32) + 8 = h_addr_end (heaps s h) + of_nat d"
      by (metis of_nat_add of_nat_numeral of_nat_unat ucast_id)
    then have foot: "h_addr_end (heaps s h) + of_nat d - SIZEOF_footer = of_nat (hend h s + d - 8)"
      by (simp add: SIZEOF_footer_def algebra_simps)
    have run: "alloc_grow kz new h s = Inr s2"
      using s2(1) unfolding alloc_grow_def Let_def s1(1,3) ebind_Inr em if_True put_block_def by (simp add: s1(3) foot)
    have "payloads (hstart h s) (bs @ [(d, True)]) = payloads (hstart h s) bs" by (simp add: payloads_append)
    moreover have "hend h s2 = hstart h s + grown (total bs + w)" using heap_okD(1) [OF s2(2)] s2(4) b by simp
    ultimately show thesis
      by (rule that [OF run s2(2) s1(4) _ s2(4) _ s2(3)]) (rule fr, use hd e in simp_all)
  next
    case False
    then obtain xs n where bs: "bs = xs @ [(n, True)]" using at_end by (cases bs rule: rev_cases) (auto simp: grows_at_end_def)
    let ?a = "hstart h s + total xs"
    note ok' = ok [unfolded bs] and ex' = s1(2) [unfolded bs]
    note sp = heap_ok_split [OF ok']
    note lng = longer_end_hole [OF ex']
    obtain i where i: "endmost_header (h_index (heaps s h)) (mem s1) 0 (-1) 0 = Inr i" "i \<noteq> -1"
      "lookup_sorted_array (h_index (heaps s h)) i (mem s1) = Inr (of_nat ?a)"
      by (rule endmost_is_last [OF ok' pos exd(2) [unfolded ix]])
    have "block_at (mem s1) (hend h s) ?a n True" using exd(3) unfolding bs by (simp add: tiles_append)
    then have hs: "hh_size (mem s1) (of_nat ?a) = of_nat n" by (simp add: block_at_def)
    have "?a + (n + d) - 8 + 8 = ?a + (n + d)" using d20 by linarith
    then have "(of_nat (?a + (n + d) - 8) :: u32) + 8 = of_nat ?a + of_nat (n + d)" by (metis of_nat_add of_nat_numeral)
    then have foot: "of_nat ?a + of_nat (n + d) - SIZEOF_footer = (of_nat (?a + (n + d) - 8) :: u32)"
      by (simp only: SIZEOF_footer_def) (metis add_diff_cancel)
    have size: "hh_size (mem s1) (of_nat ?a) + of_nat d = of_nat (n + d)" using hs by simp
    define m2 where "m2 = put_footer (of_nat (?a + (n + d) - 8)) (of_nat ?a) (set_hh_size (of_nat ?a) (of_nat (n + d)) (mem s1))"
    have run: "alloc_grow kz new h s = Inr (s1\<lparr>mem := m2\<rparr>)"
      unfolding alloc_grow_def Let_def s1(1) ebind_Inr s1(3) ix i(1) if_not_P [OF i(2)] i(3) size header_of_set(3) foot m2_def ..
    have "payloads (hstart h s) (xs @ [(n + d, True)]) = payloads (hstart h s) bs" by (simp add: bs payloads_append)
    moreover have "w \<le> n + d" using s1(4) by simp
    moreover have "only_heap s (s1\<lparr>mem := m2\<rparr>)" by (rule only_heap_trans [OF oh only_heap_mem])
    ultimately show thesis
      using that [OF run lng(1) [folded m2_def]] lng(2) [folded m2_def] st end1 hd by simp
  qed
qed

section \<open>An example\<close>

text \<open>
  A heap at 0x2000 with one block of 40 bytes in use and no hole. The page directory is at 0x10000, its first page
  table at 0x11000, and the bits of 64 frames at 0x12000.
\<close>

definition grow_blocks :: "(nat \<times> bool) list" where
  "grow_blocks = [(40, False)]"

definition grow_heap :: vm_heap where
  "grow_heap = \<lparr>h_index = \<lparr>sa_array = 0x1000, sa_size = 0, sa_maxsize = 4, sa_cmp = Some vm_heap_header_cmp\<rparr>,
     h_addr_start = 0x2000, h_addr_end = 0x2028, h_addr_max = 0x8000, h_su = 0, h_ro = 0\<rparr>"

definition grow_example :: kmem where
  "grow_example = boot_kmem\<lparr>mem := write32 0x10000 0x11000 (put_block 8192 40 False (\<lambda>_. 0)), kernel_heap := 0x500,
     heaps := (\<lambda>_. grow_heap), kernel_directory := 0x10000, frames := 0x12000, nframes := 64\<rparr>"

lemma grow_example_simps [simp]:
  "mem grow_example = write32 0x10000 0x11000 (put_block 8192 40 False (\<lambda>_. 0))" "heaps grow_example = (\<lambda>_. grow_heap)"
  "kernel_directory grow_example = 0x10000" "frames grow_example = 0x12000" "nframes grow_example = 64"
  by (simp_all add: grow_example_def)

lemma grow_example_ok: "heap_ok h grow_blocks grow_example"
proof -
  have t: "tiles (mem grow_example) 8232 8192 grow_blocks"
    by (simp add: grow_blocks_def block_at_def footer_at_def put_block_def field_defs read32_write32_apart)
  have s: "hstart h grow_example = 8192" "hend h grow_example = 8232" by (simp_all add: grow_heap_def)
  show ?thesis
    unfolding heap_ok_def Let_def s
    using t by (simp add: grow_heap_def sa_wf_def grow_blocks_def sa_elems_def del: grow_example_simps(1))
qed

lemma grow_example_frames: "2 \<le> card (free_frames grow_example)"
proof -
  have "read32 (mem grow_example) 0x12000 = 0" by (simp add: put_block_def field_defs read32_write32_apart)
  then have "{0, 1} \<subseteq> free_frames grow_example"
    by (simp add: free_frames_def nbits_def frame_used_def frame_word_def del: grow_example_simps(1))
  moreover have "finite (free_frames grow_example)" by (simp add: free_frames_def)
  ultimately show ?thesis using card_mono [of "free_frames grow_example" "{0, 1}"] by simp
qed

lemma grow_example_ready: "grow_ready h (addr_range 0x11000 0x2000) 8192 grow_example"
proof -
  let ?W = "addr_range 0x11000 0x2000"
  have rg: "x \<in> ?W \<longleftrightarrow> 0x11000 \<le> unat x \<and> unat x < 0x13000" for x
    using addr_range_nowrap [of "0x11000" "0x2000"] by simp
  have bits: "bitset_region grow_example = addr_range 0x12000 8" by (simp add: bitset_region_def)
  have tab: "read32 (mem grow_example) 0x10000 = 0x11000" by simp
  have sub: "addr_range (0x11000 + d) k \<subseteq> ?W" if "unat d + k \<le> 0x2000" for d k by (rule addr_sub [OF that]) simp
  have ready: "table_ready ?W (h_addr_start (heaps grow_example h) + j) grow_example" if "unat j < 8192" for j
  proof -
    let ?a = "0x2000 + j"
    have ua: "unat ?a = 8192 + unat j" using that by (subst unat_add_nowrap) simp_all
    have "unat (?a div 0x1000) = 2 + unat j div 4096" by (simp add: unat_div_distrib ua)
    moreover have "unat j div 4096 < 2" using that by simp
    ultimately have p: "?a div 0x1000 = 2 \<or> ?a div 0x1000 = 3" by (auto simp: word_unat_eq_iff)
    then have dir: "?a div 0x1000 div 1024 = 0" "?a div 0x1000 mod 1024 = ?a div 0x1000" by auto
    have t: "table_of ?a grow_example = 0x11000" using tab dir by (simp add: table_of_def pd_tables_def del: grow_example_simps(1))
    have e: "entry_of ?a grow_example = 0x11008 \<or> entry_of ?a grow_example = 0x1100C"
      using p t dir by (auto simp: entry_of_def pt_pages_def)
    have "addr_range 0x10000 4 \<inter> ?W = {}" by (rule addr_range_disjoint) simp_all
    moreover have "addr_range (entry_of ?a grow_example) 4 \<subseteq> ?W" using e sub [of 8 4] sub [of 12 4] by auto
    moreover have "addr_range (entry_of ?a grow_example) 4 \<inter> addr_range 0x12000 8 = {}"
      using e addr_range_disjoint [of "0x11008" 4 "0x12000" 8] addr_range_disjoint [of "0x1100C" 4 "0x12000" 8] by auto
    ultimately have "table_ready ?W ?a grow_example"
      unfolding table_ready_def page_apart_def bits using t dir by (simp add: pd_tables_def del: addr_range_code grow_example_simps(1))
    then show ?thesis by (simp add: grow_heap_def del: grow_example_simps(1))
  qed
  have "sa_region (h_index grow_heap) \<inter> ?W = {}"
    unfolding sa_region_def by (rule addr_range_disjoint) (simp_all add: grow_heap_def)
  moreover have "\<forall>x \<in> ?W. \<not> (8192 \<le> unat x \<and> unat x < 8192 + 8192)"
  proof
    fix x assume "x \<in> ?W"
    then have "0x11000 \<le> unat x" using rg by blast
    then show "\<not> (8192 \<le> unat x \<and> unat x < 8192 + 8192)" by simp
  qed
  moreover have "bitset_region grow_example \<subseteq> ?W" unfolding bits using sub [of "0x1000" 8] by simp
  ultimately show ?thesis
    unfolding grow_ready_def using ready grow_example_frames
    by (simp add: bitset_wf_def grow_heap_def del: addr_range_code)
qed

section \<open>Properties\<close>

text \<open>A search without success.\<close>

lemma no_hole_fits:
  assumes ok: "heap_ok h bs s" and small: "\<forall>n. (n, True) \<in> set bs \<longrightarrow> n < unat new"
  shows "find_smallest_hole new 0 (heaps s h) (mem s) = Inr (-1)"
proof -
  let ?es = "sa_elems (h_index (heaps s h)) (mem s)"
  have "\<not> hole_fits new 0 (mem s) (?es ! j)" if j: "j < length ?es" for j
  proof -
    obtain xs n ys where n: "bs = xs @ (n, True) # ys" "hh_size (mem s) (?es ! j) = of_nat n" "n < 2 ^ 32"
      using hole_in_index [OF ok nth_mem [OF j]] by metis
    then have "n < unat new" using small by auto
    then show ?thesis using n by (simp add: hole_fits_def word_le_nat_alt unat_of_nat32)
  qed
  then show ?thesis using find_smallest_hole_spec [OF heap_okD(3) [OF ok], where sz = new and pa = 0 and m = "mem s"] by blast
qed





end
