(* ===== verification/Boot_Paging.thy ===== *)
theory Boot_Paging
  imports Kernel_Memory Heap_Grow
begin

text \<open>
  What \<open>init_paging\<close> leaves behind, whatever memory held before: the placement allocator lays out the frame
  bitset, the page directory, the table of the heap pages, the heap record and the table of the
  low pages; every address below the placement pointer is mapped to itself, the pages of the heap to the
  frames behind, and nothing else is mapped. The mapping is read the way the processor does it (\<open>mmu_walk\<close>).
\<close>

section \<open>Placement\<close>

lemma placement_zeroed:
  assumes "kernel_heap s = 0"
  shows "kmalloc0 n len s = Inr (placement_address s,
    s\<lparr>placement_address := placement_address s + len, mem := bzero (placement_address s) len (mem s)\<rparr>)"
  using assms by (simp add: kmalloc0_def kmalloc_internal_def placement_alloc_def Let_def drop_phys_def M_ALIGNED_def M_ZERO_def)

text \<open>The next page boundary strictly above an address.\<close>

definition next_page :: "u32 \<Rightarrow> u32" where
  "next_page p = (p AND 0xFFFFF000) + 0x1000"

lemma placement_aligned:
  assumes "kernel_heap s = 0" "4096 \<le> unat (placement_address s)" "unat (placement_address s) + 4096 < 2 ^ 32"
  shows "kmalloc0_a n len s = Inr (next_page (placement_address s),
      s\<lparr>placement_address := next_page (placement_address s) + len, mem := bzero (next_page (placement_address s)) len (mem s)\<rparr>)"
    "kmalloc0_ap n len s = Inr (next_page (placement_address s), next_page (placement_address s),
      s\<lparr>placement_address := next_page (placement_address s) + len, mem := bzero (next_page (placement_address s)) len (mem s)\<rparr>)"
  using align_next_page(2) [OF assms(2,3)] assms(1)
  by (simp_all add: kmalloc0_a_def kmalloc0_ap_def kmalloc_internal_def placement_alloc_def Let_def drop_phys_def
      M_ALIGNED_def M_ZERO_def next_page_def)

lemma unat_next_page:
  assumes "4096 \<le> unat p" "unat p + 4096 < 2 ^ 32"
  shows "unat (next_page p) = unat p div 4096 * 4096 + 4096"
  using align_next_page(1) [OF assms] by (simp add: next_page_def minus_mod_eq_div_mult)

text \<open>Addresses behind a page boundary.\<close>

lemma next_page_at:
  fixes d k :: u32
  assumes "unat d mod 4096 = 0" "4096 \<le> unat d" "unat d + unat k + 4096 < 2 ^ 32"
  shows "next_page (d + k) = d + of_nat (unat k div 4096 * 4096 + 4096)"
proof -
  have u: "unat (d + k) = unat d + unat k" using assms(3) by (subst unat_add_nowrap) simp_all
  have "4096 dvd unat d" using assms(1) by (simp add: mod_eq_0_iff_dvd)
  then obtain q where q: "unat d = 4096 * q" by (rule dvdE)
  have e: "unat (next_page (d + k)) = unat d + (unat k div 4096 * 4096 + 4096)"
    using unat_next_page [of "d + k"] assms(2,3) u q by simp
  have le: "unat k div 4096 * 4096 \<le> unat k" by simp
  have "unat (of_nat (unat k div 4096 * 4096 + 4096) :: u32) = unat k div 4096 * 4096 + 4096"
    using assms(3) le by (intro unat_of_nat32) simp
  then have "unat (d + of_nat (unat k div 4096 * 4096 + 4096)) = unat d + (unat k div 4096 * 4096 + 4096)"
    using assms(3) le by (subst unat_add_nowrap) simp_all
  then show ?thesis using e by (simp add: word_unat_eq_iff)
qed

section \<open>Page tables\<close>

lemma get_page_old:
  assumes "read32 (mem s) (pd_tables dir (a div 0x1000 div 1024)) = tbl" "tbl \<noteq> 0"
  shows "get_page kz a create dir s = Inr (pt_pages tbl (a div 0x1000 mod 1024), s)"
  using assms by (simp add: get_page_def Let_def)

text \<open>A new table is entered in both halves of the directory.\<close>

definition enter_table :: "u32 \<Rightarrow> u32 \<Rightarrow> u32 \<Rightarrow> mem \<Rightarrow> mem" where
  "enter_table dir i tbl m = write32 (pd_tblphys dir i) (tbl OR 0x7) (write32 (pd_tables dir i) tbl (bzero tbl SIZEOF_vm_page_table m))"

lemma unat_pd:
  assumes "unat dir + 8196 \<le> 2 ^ 32" "unat i < 1024"
  shows "unat (pd_tables dir i) = unat dir + 4 * unat i" "unat (pd_tblphys dir i) = unat dir + 4096 + 4 * unat i"
proof -
  have i: "i < 1024" using assms(2) by (simp add: word_less_nat_alt)
  show "unat (pd_tables dir i) = unat dir + 4 * unat i"
    unfolding pd_tables_def using assms(1) by (intro slot32_unat [OF _ i]) simp
  have "unat (4 * i) = 4 * unat i" using assms by (subst unat_mult_nowrap) simp_all
  moreover have "unat (dir + 1024 * 4) = unat dir + 4096" using assms(1) by (subst unat_add_nowrap) simp_all
  ultimately show "unat (pd_tblphys dir i) = unat dir + 4096 + 4 * unat i"
    unfolding pd_tblphys_def using assms by (subst unat_add_nowrap) simp_all
qed

lemma get_page_new:
  assumes "kernel_heap s = 0" "4096 \<le> unat (placement_address s)" "unat (placement_address s) + 4096 < 2 ^ 32"
    and "i = a div 0x1000 div 1024" "tbl = next_page (placement_address s)"
    and "read32 (mem s) (pd_tables dir i) = 0" "unat dir + 8196 \<le> 2 ^ 32"
  shows "get_page (kmalloc0_ap n) a True dir s = Inr (pt_pages tbl (a div 0x1000 mod 1024),
    s\<lparr>placement_address := tbl + SIZEOF_vm_page_table, mem := enter_table dir i tbl (mem s)\<rparr>)"
proof -
  have i: "unat i < 1024" unfolding assms(4)
    using unat_lt32 [of a] by (simp add: unat_div_distrib div_mult2_eq [symmetric] less_mult_imp_div_less)
  note u = unat_pd [OF assms(7) i]
  have "read32 (write32 (pd_tblphys dir i) v m) (pd_tables dir i) = read32 m (pd_tables dir i)" for v m
    using u i assms(7) by (intro read32_write32_apart) simp
  then show ?thesis
    using assms(1,6) placement_aligned(2) [OF assms(1-3), of n SIZEOF_vm_page_table] assms(4,5)
    by (simp add: get_page_def Let_def enter_table_def)
qed

lemma enter_table_outside:
  assumes "unat dir + 8196 \<le> 2 ^ 32" "unat i < 1024" "x \<notin> addr_range dir 8196" "x \<notin> addr_range tbl 4096"
  shows "enter_table dir i tbl m x = m x"
proof -
  note u = unat_pd [OF assms(1,2)]
  have "addr_range (pd_tables dir i) 4 \<subseteq> addr_range dir 8196" "addr_range (pd_tblphys dir i) 4 \<subseteq> addr_range dir 8196"
    using addr_range_nowrap [OF assms(1)] addr_range_nowrap [of "pd_tables dir i" 4] addr_range_nowrap [of "pd_tblphys dir i" 4] u assms(1,2)
    by (auto simp del: addr_range_code)
  then have "x \<notin> addr_range (pd_tables dir i) 4" "x \<notin> addr_range (pd_tblphys dir i) 4" using assms(3) by blast+
  then show ?thesis
    using assms(4) by (simp add: enter_table_def write32_outside bzero_apply SIZEOF_vm_page_table_def del: addr_range_code)
qed

text \<open>Reading the directory and the table after the entry; the table lies behind the directory.\<close>

lemma enter_table_reads:
  assumes "unat dir + 8196 \<le> unat tbl" "unat tbl + 4096 \<le> 2 ^ 32" "unat i < 1024" "unat j < 1024"
  shows "read32 (enter_table dir i tbl m) (pd_tables dir j) = (if j = i then tbl else read32 m (pd_tables dir j))"
    "read32 (enter_table dir i tbl m) (pd_tblphys dir j) = (if j = i then tbl OR 0x7 else read32 m (pd_tblphys dir j))"
    "x \<in> addr_range tbl 4096 \<Longrightarrow> enter_table dir i tbl m x = 0"
proof -
  have le: "unat dir + 8196 \<le> 2 ^ 32" using assms(1,2) by simp
  note ui = unat_pd [OF le assms(3)] and uj = unat_pd [OF le assms(4)]
  have ne: "j \<noteq> i \<Longrightarrow> unat j < unat i \<or> unat i < unat j" by (metis linorder_neqE_nat word_unat_eq_iff)
  let ?z = "bzero tbl SIZEOF_vm_page_table m"
  have z: "read32 ?z a = read32 m a" if "unat a + 4 \<le> unat tbl" for a
  proof (rule read32_cong)
    fix x assume "x \<in> addr_range a 4"
    then have "unat x < unat tbl" using that assms(2) addr_range_nowrap [of a 4 x] by simp
    then have "x \<notin> addr_range tbl 4096" using addr_range_nowrap [OF assms(2), of x] by simp
    then show "?z x = m x" by (simp add: bzero_apply SIZEOF_vm_page_table_def)
  qed
  show "read32 (enter_table dir i tbl m) (pd_tables dir j) = (if j = i then tbl else read32 m (pd_tables dir j))"
    unfolding enter_table_def using ui uj assms ne z [of "pd_tables dir j"]
    by (cases "j = i") (auto simp: read32_write32_apart)
  show "read32 (enter_table dir i tbl m) (pd_tblphys dir j) = (if j = i then tbl OR 0x7 else read32 m (pd_tblphys dir j))"
    unfolding enter_table_def using ui uj assms ne z [of "pd_tblphys dir j"]
    by (cases "j = i") (auto simp: read32_write32_apart)
  show "enter_table dir i tbl m x = 0" if "x \<in> addr_range tbl 4096"
  proof -
    have "unat tbl \<le> unat x" using addr_range_nowrap [OF assms(2), of x] that by blast
    then have "x \<notin> addr_range (pd_tables dir i) 4" "x \<notin> addr_range (pd_tblphys dir i) 4"
      using ui assms addr_range_nowrap [of "pd_tables dir i" 4 x] addr_range_nowrap [of "pd_tblphys dir i" 4 x] by simp_all
    then show ?thesis using that
      by (simp add: enter_table_def write32_outside bzero_apply SIZEOF_vm_page_table_def del: addr_range_code)
  qed
qed

text \<open>A table whose first \<open>k\<close> entries have the frames from \<open>f\<close> on, and whose other entries are empty.\<close>

definition table_view :: "'a paging_scheme \<Rightarrow> u32 \<Rightarrow> nat \<Rightarrow> nat \<Rightarrow> bool" where
  "table_view s t k f \<longleftrightarrow> (\<forall>j < 1024. page_at s (pt_pages t (of_nat j))
     = (if j < k then mapped_page 0 0 (f + j) (page_of 0) else page_of 0))"

lemma pt_pages_range:
  assumes "unat t + 4096 \<le> 2 ^ 32" "j < 1024"
  shows "unat (pt_pages t (of_nat j)) = unat t + 4 * j" "addr_range (pt_pages t (of_nat j)) 4 \<subseteq> addr_range t 4096"
proof -
  have j: "(of_nat j :: u32) < 1024" "unat (of_nat j :: u32) = j" using assms(2) unat_of_nat32 [of j] by (simp_all add: word_less_nat_alt)
  have t: "unat t + 4 * unat (1024 :: u32) \<le> 2 ^ 32" using assms(1) by simp
  show "unat (pt_pages t (of_nat j)) = unat t + 4 * j" unfolding pt_pages_def using slot32_unat [OF t j(1)] j(2) by simp
  show "addr_range (pt_pages t (of_nat j)) 4 \<subseteq> addr_range t 4096" unfolding pt_pages_def using slot32_range [OF t j(1)] by simp
qed

lemma table_view_cong:
  assumes "table_view s t k f" "unat t + 4096 \<le> 2 ^ 32" "\<And>x. x \<in> addr_range t 4096 \<Longrightarrow> mem s' x = mem s x"
  shows "table_view s' t k f"
proof -
  have "page_at s' (pt_pages t (of_nat j)) = page_at s (pt_pages t (of_nat j))" if "j < 1024" for j
    by (rule page_at_cong) (use pt_pages_range(2) [OF assms(2) that] assms(3) in blast)
  then show ?thesis using assms(1) by (simp add: table_view_def)
qed

lemma table_view_step:
  assumes "table_view s t k f" "unat t + 4096 \<le> 2 ^ 32" "k < 1024"
    and "page_at s' (pt_pages t (of_nat k)) = mapped_page 0 0 (f + k) (page_of 0)"
    and "\<And>x. x \<in> addr_range t 4096 \<Longrightarrow> x \<notin> addr_range (pt_pages t (of_nat k)) 4 \<Longrightarrow> mem s' x = mem s x"
  shows "table_view s' t (Suc k) f"
proof -
  have "page_at s' (pt_pages t (of_nat j)) = page_at s (pt_pages t (of_nat j))" if j: "j < 1024" "j \<noteq> k" for j
  proof (rule page_at_cong, rule assms(5))
    fix x assume x: "x \<in> addr_range (pt_pages t (of_nat j)) 4"
    then show "x \<in> addr_range t 4096" using pt_pages_range(2) [OF assms(2) j(1)] by blast
    have "unat (pt_pages t (of_nat j)) + 4 \<le> 2 ^ 32" "unat (pt_pages t (of_nat k)) + 4 \<le> 2 ^ 32"
      using pt_pages_range(1) [OF assms(2)] j(1) assms(2,3) by simp_all
    then have rj: "unat t + 4 * j \<le> unat x" "unat x < unat t + 4 * j + 4"
      using x addr_range_nowrap [of "pt_pages t (of_nat j)" 4 x] pt_pages_range(1) [OF assms(2) j(1)] by simp_all
    show "x \<notin> addr_range (pt_pages t (of_nat k)) 4"
    proof
      assume "x \<in> addr_range (pt_pages t (of_nat k)) 4"
      then have "unat t + 4 * k \<le> unat x" "unat x < unat t + 4 * k + 4"
        using \<open>unat (pt_pages t (of_nat k)) + 4 \<le> 2 ^ 32\<close> addr_range_nowrap [of "pt_pages t (of_nat k)" 4 x] pt_pages_range(1) [OF assms(2,3)] by simp_all
      with rj have "j = k" by linarith
      with j(2) show False ..
    qed
  qed
  then show ?thesis using assms(1,4) by (auto simp: table_view_def less_Suc_eq)
qed

lemma table_view_zero:
  assumes "unat t + 4096 \<le> 2 ^ 32" "\<And>x. x \<in> addr_range t 4096 \<Longrightarrow> mem s x = 0"
  shows "table_view s t 0 f"
proof -
  have "read32 (mem s) (pt_pages t (of_nat j)) = 0" if "j < 1024" for j
    by (rule read32_zero) (use pt_pages_range(2) [OF assms(1) that] assms(2) in blast)
  then show ?thesis by (simp add: table_view_def page_at_def)
qed

section \<open>Handing out the first frames\<close>

text \<open>
  The frames are given out in order. \<open>low\<close> is the table of the addresses below 4 MB, \<open>high\<close> that of the heap
  pages; in memory the frame bits come first, then the directory, then the two tables.
\<close>

definition boot_layout :: "u32 \<Rightarrow> u32 \<Rightarrow> 'a kmem_scheme \<Rightarrow> bool" where
  "boot_layout low high s \<longleftrightarrow> nframes s = 4096 \<and> unat (frames s) + 512 \<le> unat (kernel_directory s)
     \<and> unat (kernel_directory s) + 8196 \<le> unat high \<and> unat high + 4096 \<le> unat low \<and> unat low + 4096 \<le> 2 ^ 32
     \<and> read32 (mem s) (pd_tables (kernel_directory s) 0) = low \<and> read32 (mem s) (pd_tables (kernel_directory s) 0x300) = high"

definition boot_inv :: "u32 \<Rightarrow> u32 \<Rightarrow> nat \<Rightarrow> nat \<Rightarrow> nat \<Rightarrow> 'a kmem_scheme \<Rightarrow> 'a kmem_scheme \<Rightarrow> bool" where
  "boot_inv low high n k l base s \<longleftrightarrow> (\<exists>m. s = base\<lparr>mem := m\<rparr>) \<and> (\<forall>g < 1024. frame_used s g \<longleftrightarrow> g < k + l)
     \<and> table_view s low k 0 \<and> table_view s high l n
     \<and> (\<forall>x. x \<notin> bitset_region base \<union> addr_range low 4096 \<union> addr_range high 4096 \<longrightarrow> mem s x = mem base x)"

lemma boot_layoutD:
  assumes "boot_layout low high s"
  shows "bitset_wf s" "nbits s = 4096" "bitset_region s = addr_range (frames s) 512"
    "addr_range low 4096 \<inter> bitset_region s = {}" "addr_range high 4096 \<inter> bitset_region s = {}"
    "addr_range low 4096 \<inter> addr_range high 4096 = {}"
    "addr_range (kernel_directory s) 8196 \<inter> (bitset_region s \<union> addr_range low 4096 \<union> addr_range high 4096) = {}"
    "unat low + 4096 \<le> 2 ^ 32" "unat high + 4096 \<le> 2 ^ 32" "low \<noteq> 0" "high \<noteq> 0" "unat (kernel_directory s) + 8196 \<le> 2 ^ 32"
proof -
  have l: "nframes s = 4096" "unat (frames s) + 512 \<le> unat (kernel_directory s)" "unat (kernel_directory s) + 8196 \<le> unat high"
    "unat high + 4096 \<le> unat low" "unat low + 4096 \<le> 2 ^ 32"
    using assms by (simp_all add: boot_layout_def)
  show "bitset_wf s" "nbits s = 4096" "unat low + 4096 \<le> 2 ^ 32" "unat high + 4096 \<le> 2 ^ 32" "low \<noteq> 0" "high \<noteq> 0"
    "unat (kernel_directory s) + 8196 \<le> 2 ^ 32"
    using l by (auto simp: bitset_wf_def nbits_def)
  show br: "bitset_region s = addr_range (frames s) 512" using l by (simp add: bitset_region_def)
  have d: "addr_range (frames s) 512 \<inter> addr_range low 4096 = {}" "addr_range (frames s) 512 \<inter> addr_range high 4096 = {}"
    "addr_range high 4096 \<inter> addr_range low 4096 = {}" "addr_range (kernel_directory s) 8196 \<inter> addr_range low 4096 = {}"
    "addr_range (kernel_directory s) 8196 \<inter> addr_range high 4096 = {}" "addr_range (frames s) 512 \<inter> addr_range (kernel_directory s) 8196 = {}"
    using l by (auto intro!: addr_range_disjoint simp del: addr_range_code)
  show "addr_range low 4096 \<inter> bitset_region s = {}" "addr_range high 4096 \<inter> bitset_region s = {}"
    "addr_range low 4096 \<inter> addr_range high 4096 = {}"
    "addr_range (kernel_directory s) 8196 \<inter> (bitset_region s \<union> addr_range low 4096 \<union> addr_range high 4096) = {}"
    unfolding br using d by blast+
qed

lemma next_frame:
  fixes s :: "'a kmem_scheme"
  assumes "bitset_wf s" "nbits s = 4096" "\<forall>g < 1024. frame_used s g \<longleftrightarrow> g < c" "c < 1024"
    and "page_apart s p" "page_at s p = page_of 0"
  obtains m where "alloc_frame p 0 0 s = Inr (s\<lparr>mem := m\<rparr>)" "\<forall>g < 1024. frame_used (s\<lparr>mem := m\<rparr>) g \<longleftrightarrow> g < Suc c"
    "page_at (s\<lparr>mem := m\<rparr>) p = mapped_page 0 0 c (page_of 0)"
    "\<And>x. x \<notin> addr_range p 4 \<Longrightarrow> x \<notin> bitset_region s \<Longrightarrow> m x = mem s x"
proof -
  have new: "p_frame (page_at s p) = 0" using assms(6) by (simp add: page_of_def)
  obtain s' where s': "alloc_frame p 0 0 s = Inr s'" "\<And>g. g < nbits s \<Longrightarrow> frame_used s' g \<longleftrightarrow> g = c \<or> frame_used s g"
    "page_at s' p = mapped_page 0 0 c (page_at s p)" "\<And>x. x \<notin> addr_range p 4 \<union> bitset_region s \<Longrightarrow> mem s' x = mem s x"
    by (rule alloc_frame_step [OF assms(1,5) new, of c 0 0]) (use assms in \<open>auto simp del: addr_range_code\<close>)
  have e: "s' = s\<lparr>mem := mem s'\<rparr>" by (rule alloc_frame_mem [OF s'(1)])
  have "frame_used s' g \<longleftrightarrow> g < Suc c" if "g < 1024" for g using s'(2) [of g] assms(2,3) that by auto
  then show thesis using that [of "mem s'"] s' e assms(6) by (metis UnE)
qed

text \<open>The next entry of a table gets the next frame.\<close>

lemma next_entry:
  fixes s :: "'a kmem_scheme"
  assumes "bitset_wf s" "nbits s = 4096" "\<forall>g < 1024. frame_used s g \<longleftrightarrow> g < c" "c < 1024"
    and t: "unat t + 4096 \<le> 2 ^ 32" "addr_range t 4096 \<inter> bitset_region s = {}" "table_view s t k f" "f + k = c"
  obtains m where "alloc_frame (pt_pages t (of_nat k)) 0 0 s = Inr (s\<lparr>mem := m\<rparr>)"
    "\<forall>g < 1024. frame_used (s\<lparr>mem := m\<rparr>) g \<longleftrightarrow> g < Suc c" "table_view (s\<lparr>mem := m\<rparr>) t (Suc k) f"
    "\<And>x. x \<notin> addr_range t 4096 \<Longrightarrow> x \<notin> bitset_region s \<Longrightarrow> m x = mem s x"
proof -
  have k: "k < 1024" using assms(4) t(4) by simp
  note pr = pt_pages_range(2) [OF t(1) k]
  have ap: "page_apart s (pt_pages t (of_nat k))" unfolding page_apart_def using pr t(2) by blast
  have z: "page_at s (pt_pages t (of_nat k)) = page_of 0" using t(3) k by (simp add: table_view_def)
  obtain m where m: "alloc_frame (pt_pages t (of_nat k)) 0 0 s = Inr (s\<lparr>mem := m\<rparr>)"
    "\<forall>g < 1024. frame_used (s\<lparr>mem := m\<rparr>) g \<longleftrightarrow> g < Suc c"
    "page_at (s\<lparr>mem := m\<rparr>) (pt_pages t (of_nat k)) = mapped_page 0 0 c (page_of 0)"
    "\<And>x. x \<notin> addr_range (pt_pages t (of_nat k)) 4 \<Longrightarrow> x \<notin> bitset_region s \<Longrightarrow> m x = mem s x"
    by (rule next_frame [OF assms(1-4) ap z]) (rule that, assumption+)
  have "table_view (s\<lparr>mem := m\<rparr>) t (Suc k) f"
    by (rule table_view_step [OF t(3,1) k]) (use m(3,4) that t(2,4) in \<open>auto simp del: addr_range_code\<close>)
  moreover have "m x = mem s x" if "x \<notin> addr_range t 4096" "x \<notin> bitset_region s" for x
    using m(4) [of x] that pr by blast
  ultimately show thesis using that m(1,2) by blast
qed

lemma boot_inv_step:
  assumes lay: "boot_layout low high base" and inv: "boot_inv low high n k l base s" and lt: "k + l < 1024"
  shows "l = 0 \<Longrightarrow> \<exists>s'. alloc_frame (pt_pages low (of_nat k)) 0 0 s = Inr s' \<and> boot_inv low high n (Suc k) l base s'"
    "k = n \<Longrightarrow> \<exists>s'. alloc_frame (pt_pages high (of_nat l)) 0 0 s = Inr s' \<and> boot_inv low high n k (Suc l) base s'"
proof -
  note L = boot_layoutD [OF lay]
  obtain m0 where m0: "s = base\<lparr>mem := m0\<rparr>" using inv unfolding boot_inv_def by blast
  have I: "\<forall>g < 1024. frame_used s g \<longleftrightarrow> g < k + l" "table_view s low k 0" "table_view s high l n"
    "\<And>x. x \<notin> bitset_region base \<union> addr_range low 4096 \<union> addr_range high 4096 \<Longrightarrow> mem s x = mem base x"
    using inv unfolding boot_inv_def by blast+
  have wf: "bitset_wf s" "nbits s = 4096" "bitset_region s = bitset_region base"
    using L(1,2) by (simp_all add: m0 bitset_wf_def nbits_def bitset_region_def)
  have ap: "addr_range low 4096 \<inter> bitset_region s = {}" "addr_range high 4096 \<inter> bitset_region s = {}" unfolding wf(3) by (rule L(4,5))+
  have ex: "\<exists>m'. s\<lparr>mem := m\<rparr> = base\<lparr>mem := m'\<rparr>" for m by (rule exI [of _ m]) (simp add: m0)
  show "\<exists>s'. alloc_frame (pt_pages low (of_nat k)) 0 0 s = Inr s' \<and> boot_inv low high n (Suc k) l base s'" if l: "l = 0"
  proof (rule next_entry [OF wf(1,2) I(1) lt L(8) ap(1) I(2)])
    show "0 + k = k + l" using l by simp
    fix m assume m: "alloc_frame (pt_pages low (of_nat k)) 0 0 s = Inr (s\<lparr>mem := m\<rparr>)"
      "\<forall>g < 1024. frame_used (s\<lparr>mem := m\<rparr>) g \<longleftrightarrow> g < Suc (k + l)" "table_view (s\<lparr>mem := m\<rparr>) low (Suc k) 0"
      "\<And>x. x \<notin> addr_range low 4096 \<Longrightarrow> x \<notin> bitset_region s \<Longrightarrow> m x = mem s x"
    have "table_view (s\<lparr>mem := m\<rparr>) high l n"
      by (rule table_view_cong [OF I(3) L(9)]) (use m(4) L(5,6) wf(3) in \<open>auto simp del: addr_range_code\<close>)
    then show ?thesis
      using m ex I(4) wf(3) by (intro exI [of _ "s\<lparr>mem := m\<rparr>"]) (simp add: boot_inv_def del: addr_range_code)
  qed
  show "\<exists>s'. alloc_frame (pt_pages high (of_nat l)) 0 0 s = Inr s' \<and> boot_inv low high n k (Suc l) base s'" if k: "k = n"
  proof (rule next_entry [OF wf(1,2) I(1) lt L(9) ap(2) I(3)])
    show "n + l = k + l" using k by simp
    fix m assume m: "alloc_frame (pt_pages high (of_nat l)) 0 0 s = Inr (s\<lparr>mem := m\<rparr>)"
      "\<forall>g < 1024. frame_used (s\<lparr>mem := m\<rparr>) g \<longleftrightarrow> g < Suc (k + l)" "table_view (s\<lparr>mem := m\<rparr>) high (Suc l) n"
      "\<And>x. x \<notin> addr_range high 4096 \<Longrightarrow> x \<notin> bitset_region s \<Longrightarrow> m x = mem s x"
    have "table_view (s\<lparr>mem := m\<rparr>) low k 0"
      by (rule table_view_cong [OF I(2) L(8)]) (use m(4) L(4,6) wf(3) in \<open>auto simp del: addr_range_code\<close>)
    then show ?thesis
      using m ex I(4) wf(3) by (intro exI [of _ "s\<lparr>mem := m\<rparr>"]) (simp add: boot_inv_def del: addr_range_code)
  qed
qed

section \<open>The loops\<close>

lemma for_pages_run:
  assumes "P a s" "a \<le> b" "b - a < fuel"
    and step: "\<And>k s. a \<le> k \<Longrightarrow> k < b \<Longrightarrow> P k s
      \<Longrightarrow> go (i + of_nat (4096 * k)) s \<and> (\<exists>s'. body (i + of_nat (4096 * k)) s = Inr s' \<and> P (Suc k) s')"
    and stop: "\<And>s. P b s \<Longrightarrow> \<not> go (i + of_nat (4096 * b)) s"
  shows "\<exists>s'. for_pages fuel go body (i + of_nat (4096 * a)) s = Inr s' \<and> P b s'"
  using assms
proof (induction fuel arbitrary: a s)
  case (Suc fuel)
  show ?case
  proof (cases "a = b")
    case True
    then show ?thesis using Suc.prems(1) stop by auto
  next
    case False
    then have lt: "a < b" using Suc.prems(2) by simp
    obtain s' where s': "go (i + of_nat (4096 * a)) s" "body (i + of_nat (4096 * a)) s = Inr s'" "P (Suc a) s'"
      using Suc.prems(4) [OF order_refl lt Suc.prems(1)] by blast
    have "\<exists>s''. for_pages fuel go body (i + of_nat (4096 * Suc a)) s' = Inr s'' \<and> P b s''"
      by (rule Suc.IH [OF s'(3)]) (use Suc.prems lt in auto)
    moreover have "i + of_nat (4096 * Suc a) = i + of_nat (4096 * a) + 0x1000" by simp
    ultimately show ?thesis using s' by (simp add: ac_simps)
  qed
qed simp

lemma page_number:
  fixes k :: nat
  assumes "k < 1024"
  shows "(of_nat (4096 * k) :: u32) div 0x1000 div 1024 = 0" "(of_nat (4096 * k) :: u32) div 0x1000 mod 1024 = of_nat k"
    "(0xC0000000 + of_nat (4096 * k) :: u32) div 0x1000 div 1024 = 0x300"
    "(0xC0000000 + of_nat (4096 * k) :: u32) div 0x1000 mod 1024 = of_nat k"
proof -
  have u: "unat (of_nat (4096 * k) :: u32) = 4096 * k" "unat (of_nat k :: u32) = k"
    using assms by (intro unat_of_nat32; simp)+
  then have v: "unat (0xC0000000 + of_nat (4096 * k) :: u32) = 4096 * (0xC0000 + k)"
    using assms by (subst unat_add_nowrap) simp_all
  have "(0xC0000 + k) div 1024 = 0x300" "(0xC0000 + k) mod 1024 = k" using assms by (simp_all add: div_nat_eqI mod_nat_eqI)
  then show "(of_nat (4096 * k) :: u32) div 0x1000 div 1024 = 0" "(of_nat (4096 * k) :: u32) div 0x1000 mod 1024 = of_nat k"
    "(0xC0000000 + of_nat (4096 * k) :: u32) div 0x1000 div 1024 = 0x300"
    "(0xC0000000 + of_nat (4096 * k) :: u32) div 0x1000 mod 1024 = of_nat k"
    using assms by (simp_all only: word_unat_eq_iff unat_div_distrib unat_mod_distrib u v) simp_all
qed

text \<open>The directory does not change while frames are given out.\<close>

lemma boot_inv_dir:
  assumes "boot_layout low high base" "boot_inv low high n k l base s"
  shows "kernel_directory s = kernel_directory base" "placement_address s = placement_address base"
    "x \<in> addr_range (kernel_directory base) 8196 \<Longrightarrow> mem s x = mem base x"
    "unat i < 1024 \<Longrightarrow> read32 (mem s) (pd_tables (kernel_directory base) i) = read32 (mem base) (pd_tables (kernel_directory base) i)"
    "unat i < 1024 \<Longrightarrow> read32 (mem s) (pd_tblphys (kernel_directory base) i) = read32 (mem base) (pd_tblphys (kernel_directory base) i)"
proof -
  note L = boot_layoutD [OF assms(1)]
  show "kernel_directory s = kernel_directory base" "placement_address s = placement_address base"
    using assms(2) by (auto simp: boot_inv_def)
  show out: "mem s x = mem base x" if "x \<in> addr_range (kernel_directory base) 8196" for x
    using that L(7) assms(2) unfolding boot_inv_def by blast
  have sub: "addr_range a 4 \<subseteq> addr_range (kernel_directory base) 8196"
    if "unat (kernel_directory base) \<le> unat a" "unat a + 4 \<le> unat (kernel_directory base) + 8196" for a
    using that L(12) addr_range_nowrap [of a 4] addr_range_nowrap [OF L(12)] by (auto simp del: addr_range_code)
  show "unat i < 1024 \<Longrightarrow> read32 (mem s) (pd_tables (kernel_directory base) i) = read32 (mem base) (pd_tables (kernel_directory base) i)"
    using unat_pd(1) [OF L(12)] sub [of "pd_tables (kernel_directory base) i"] out by (intro read32_cong) auto
  show "unat i < 1024 \<Longrightarrow> read32 (mem s) (pd_tblphys (kernel_directory base) i) = read32 (mem base) (pd_tblphys (kernel_directory base) i)"
    using unat_pd(2) [OF L(12)] sub [of "pd_tblphys (kernel_directory base) i"] out by (intro read32_cong) auto
qed

lemma map_page_step:
  assumes "boot_layout low high base" "boot_inv low high n k l base s" "k + l < 1024"
  shows "l = 0 \<Longrightarrow> \<exists>s'. map_page f c (of_nat (4096 * k)) s = Inr s' \<and> boot_inv low high n (Suc k) l base s'"
    "k = n \<Longrightarrow> \<exists>s'. map_page f c (0xC0000000 + of_nat (4096 * l)) s = Inr s' \<and> boot_inv low high n k (Suc l) base s'"
proof -
  note L = boot_layoutD [OF assms(1)] and D = boot_inv_dir [OF assms(1,2)]
  have w: "read32 (mem s) (pd_tables (kernel_directory s) 0) = low" "read32 (mem s) (pd_tables (kernel_directory s) 0x300) = high"
    using D(4) [of 0] D(4) [of "0x300"] assms(1) by (simp_all add: D(1) boot_layout_def)
  have kl: "k < 1024" "l < 1024" using assms(3) by simp_all
  show "\<exists>s'. map_page f c (of_nat (4096 * k)) s = Inr s' \<and> boot_inv low high n (Suc k) l base s'" if "l = 0"
    using boot_inv_step(1) [OF assms that] get_page_old [of s "kernel_directory s" "of_nat (4096 * k)" low] w(1) L(10)
    by (simp add: map_page_def page_number [OF kl(1)] del: of_nat_mult)
  show "\<exists>s'. map_page f c (0xC0000000 + of_nat (4096 * l)) s = Inr s' \<and> boot_inv low high n k (Suc l) base s'" if "k = n"
    using boot_inv_step(2) [OF assms that] get_page_old [of s "kernel_directory s" "0xC0000000 + of_nat (4096 * l)" high] w(2) L(11)
    by (simp add: map_page_def page_number [OF kl(2)] del: of_nat_mult)
qed

section \<open>Memory before the first frame\<close>

text \<open>
  With the placement pointer at \<open>p\<close> the directory goes to \<open>d = boot_dir p\<close>, the table of the heap pages to
  \<open>d + 0x3000\<close>, the heap record to \<open>d + 0x4000\<close> and the table of the low pages to \<open>d + 0x5000\<close>.
\<close>

definition boot_dir :: "u32 \<Rightarrow> u32" where
  "boot_dir p = next_page (p + 128)"

definition boot_mem :: "u32 \<Rightarrow> u32 \<Rightarrow> mem \<Rightarrow> mem" where
  "boot_mem p d m = enter_table d 0 (d + 0x5000) (bzero (d + 0x4000) SIZEOF_vm_heap
     (enter_table d 0x300 (d + 0x3000) (bzero d SIZEOF_vm_page_directory (bzero p 128 m))))"

definition boot_base :: "'a kmem_scheme \<Rightarrow> 'a kmem_scheme" where
  "boot_base s = s\<lparr>nframes := 4096, frames := placement_address s, kernel_directory := boot_dir (placement_address s),
     placement_address := boot_dir (placement_address s) + 0x6000,
     mem := boot_mem (placement_address s) (boot_dir (placement_address s)) (mem s)\<rparr>"

text \<open>
  No heap yet; the 512 bytes of the bitset (of which the code allocates and clears 128) end before the directory,
  and all that is laid out ends below 3 MB, so that the frames given out lie in the cleared part.
\<close>

definition boot_ready :: "'a kmem_scheme \<Rightarrow> bool" where
  "boot_ready s \<longleftrightarrow> kernel_heap s = 0 \<and> length (interrupt_handlers s) = 256 \<and> 4096 \<le> unat (placement_address s)
     \<and> unat (placement_address s) \<le> 0x2F0000
     \<and> unat (placement_address s) + 512 \<le> unat (boot_dir (placement_address s))
     \<and> unat (boot_dir (placement_address s)) + 0x6000 \<le> 0x300000"

lemma boot_dir_aligned:
  assumes "4096 \<le> unat p" "unat p \<le> 0x2F0000"
  shows "unat (boot_dir p) mod 4096 = 0" "4096 \<le> unat (boot_dir p)"
proof -
  have u: "unat (p + 128) = unat p + 128" using assms by (subst unat_add_nowrap) simp_all
  have "unat (boot_dir p) = (unat p + 128) div 4096 * 4096 + 4096"
    using unat_next_page [of "p + 128"] assms u by (simp add: boot_dir_def)
  then show "unat (boot_dir p) mod 4096 = 0" "4096 \<le> unat (boot_dir p)" by simp_all
qed

lemma boot_readyD:
  assumes "boot_ready s" "d = boot_dir (placement_address s)"
  shows "kernel_heap s = 0" "length (interrupt_handlers s) = 256" "4096 \<le> unat (placement_address s)" "unat (placement_address s) \<le> 0x2F0000"
    "unat (placement_address s) + 512 \<le> unat d" "unat d + 0x6000 \<le> 0x300000" "unat d mod 4096 = 0" "4096 \<le> unat d"
    "\<And>k. k \<le> 0x6000 \<Longrightarrow> unat (d + k) = unat d + unat k"
    "next_page (d + 0x2004) = d + 0x3000" "next_page (d + 0x4024) = d + 0x5000"
proof -
  show r: "kernel_heap s = 0" "length (interrupt_handlers s) = 256" "4096 \<le> unat (placement_address s)" "unat (placement_address s) \<le> 0x2F0000"
    "unat (placement_address s) + 512 \<le> unat d" "unat d + 0x6000 \<le> 0x300000"
    using assms by (simp_all add: boot_ready_def)
  show al: "unat d mod 4096 = 0" "4096 \<le> unat d" using boot_dir_aligned [OF r(3,4)] assms(2) by simp_all
  show "unat (d + k) = unat d + unat k" if "k \<le> 0x6000" for k
    using that r(6) by (subst unat_add_nowrap) (simp_all add: word_le_nat_alt)
  show "next_page (d + 0x2004) = d + 0x3000" "next_page (d + 0x4024) = d + 0x5000"
    using next_page_at [OF al, of "0x2004"] next_page_at [OF al, of "0x4024"] r(6) by simp_all
qed

lemma bzero_read32:
  assumes "unat a + 4 \<le> unat z \<and> unat z + unat len \<le> 2 ^ 32 \<or> unat z + unat len \<le> unat a \<and> unat a + 4 \<le> 2 ^ 32"
  shows "read32 (bzero z len m) a = read32 m a"
proof -
  have "addr_range a 4 \<inter> addr_range z (unat len) = {}"
    using assms addr_range_disjoint [of a 4 z "unat len"] addr_range_disjoint [of z "unat len" a 4] by blast
  then show ?thesis by (intro read32_cong) (auto simp: bzero_apply)
qed

text \<open>What the directory holds: the two tables, and nothing else.\<close>

lemma boot_mem_dir:
  assumes rdy: "boot_ready s" and d: "d = boot_dir (placement_address s)" and i: "unat i < 1024"
  shows "read32 (boot_mem (placement_address s) d m) (pd_tables d i) = (if i = 0 then d + 0x5000 else if i = 0x300 then d + 0x3000 else 0)"
    "read32 (boot_mem (placement_address s) d m) (pd_tblphys d i)
       = (if i = 0 then (d + 0x5000) OR 7 else if i = 0x300 then (d + 0x3000) OR 7 else 0)"
proof -
  note r = boot_readyD [OF rdy d]
  have a: "unat (d + 0x3000) = unat d + 0x3000" "unat (d + 0x4000) = unat d + 0x4000" "unat (d + 0x5000) = unat d + 0x5000"
    using r(9) [of "0x3000"] r(9) [of "0x4000"] r(9) [of "0x5000"] by simp_all
  have le: "unat d + 8196 \<le> 2 ^ 32" using r(6) by simp
  note u = unat_pd [OF le i]
  let ?m = "bzero d SIZEOF_vm_page_directory (bzero (placement_address s) 128 m)"
  have z: "read32 ?m w = 0" if "unat d \<le> unat w" "unat w + 4 \<le> unat d + 8196" for w
  proof (rule read32_zero)
    fix x assume "x \<in> addr_range w 4"
    then have "unat d \<le> unat x \<and> unat x < unat d + 8196" using that le addr_range_nowrap [of w 4 x] by simp
    then have "x \<in> addr_range d 8196" using addr_range_nowrap [OF le] by blast
    then show "?m x = 0" by (simp add: bzero_apply SIZEOF_vm_page_directory_def)
  qed
  have e1: "unat d + 8196 \<le> unat (d + 0x3000)" "unat (d + 0x3000) + 4096 \<le> 2 ^ 32"
    and e2: "unat d + 8196 \<le> unat (d + 0x5000)" "unat (d + 0x5000) + 4096 \<le> 2 ^ 32"
    using a r(6) by simp_all
  have i3: "unat (0x300 :: u32) < 1024" "unat (0 :: u32) < 1024" by simp_all
  have hz: "read32 (bzero (d + 0x4000) SIZEOF_vm_heap m') w = read32 m' w" if "unat w + 4 \<le> unat d + 8196" for m' w
    using that a r(6) by (intro bzero_read32) (simp add: SIZEOF_vm_heap_def)
  show "read32 (boot_mem (placement_address s) d m) (pd_tables d i) = (if i = 0 then d + 0x5000 else if i = 0x300 then d + 0x3000 else 0)"
    unfolding boot_mem_def enter_table_reads(1) [OF e2 i3(2) i]
    using hz [of "pd_tables d i"] u i z [of "pd_tables d i"] by (simp add: enter_table_reads(1) [OF e1 i3(1) i])
  show "read32 (boot_mem (placement_address s) d m) (pd_tblphys d i)
       = (if i = 0 then (d + 0x5000) OR 7 else if i = 0x300 then (d + 0x3000) OR 7 else 0)"
    unfolding boot_mem_def enter_table_reads(2) [OF e2 i3(2) i]
    using hz [of "pd_tblphys d i"] u i z [of "pd_tblphys d i"] by (simp add: enter_table_reads(2) [OF e1 i3(1) i])
qed

text \<open>What lies below the directory keeps the cleared frame bits; the tables are empty.\<close>

lemma boot_mem_rest:
  assumes rdy: "boot_ready s" and d: "d = boot_dir (placement_address s)"
  shows "unat x < unat d \<Longrightarrow> boot_mem (placement_address s) d m x = bzero (placement_address s) 128 m x"
    "unat d + 0x6000 \<le> unat x \<Longrightarrow> boot_mem (placement_address s) d m x = m x"
    "x \<in> addr_range (d + 0x5000) 4096 \<Longrightarrow> boot_mem (placement_address s) d m x = 0"
    "x \<in> addr_range (d + 0x3000) 4096 \<Longrightarrow> boot_mem (placement_address s) d m x = 0"
proof -
  note r = boot_readyD [OF rdy d]
  have a: "unat (d + 0x3000) = unat d + 0x3000" "unat (d + 0x4000) = unat d + 0x4000" "unat (d + 0x5000) = unat d + 0x5000"
    using r(9) [of "0x3000"] r(9) [of "0x4000"] r(9) [of "0x5000"] by simp_all
  have le: "unat d + 8196 \<le> 2 ^ 32" "unat (placement_address s) + 128 \<le> 2 ^ 32" "unat (d + 0x3000) + 4096 \<le> 2 ^ 32"
    "unat (d + 0x4000) + 36 \<le> 2 ^ 32" "unat (d + 0x5000) + 4096 \<le> 2 ^ 32"
    using r(4,6) a by simp_all
  note rg = addr_range_nowrap [OF le(1)] addr_range_nowrap [OF le(2)] addr_range_nowrap [OF le(3)]
    addr_range_nowrap [OF le(4)] addr_range_nowrap [OF le(5)]
  have bz: "bzero z len m' y = (if y \<in> addr_range z (unat len) then 0 else m' y)" for z len m' y by (rule bzero_apply)
  note et = enter_table_outside [OF le(1)]
  have sz: "unat SIZEOF_vm_heap = 36" "unat SIZEOF_vm_page_directory = 8196" by (simp_all add: SIZEOF_vm_heap_def SIZEOF_vm_page_directory_def)
  have i3: "unat (0x300 :: u32) < 1024" "unat (0 :: u32) < 1024" by simp_all
  have out: "boot_mem (placement_address s) d m x = bzero (placement_address s) 128 m x"
    if "x \<notin> addr_range d 8196" "x \<notin> addr_range (d + 0x3000) 4096" "x \<notin> addr_range (d + 0x4000) 36" "x \<notin> addr_range (d + 0x5000) 4096"
    unfolding boot_mem_def using that by (simp add: et i3 bz sz del: addr_range_code)
  show "boot_mem (placement_address s) d m x = bzero (placement_address s) 128 m x" if "unat x < unat d"
    by (rule out) (use that in \<open>simp_all only: rg a, simp_all\<close>)
  show "boot_mem (placement_address s) d m x = m x" if "unat d + 0x6000 \<le> unat x"
  proof -
    have "x \<notin> addr_range (placement_address s) 128" unfolding rg(2) using that r(5) by simp
    moreover have "boot_mem (placement_address s) d m x = bzero (placement_address s) 128 m x"
      by (rule out) (use that in \<open>simp_all only: rg a, simp_all\<close>)
    ultimately show ?thesis by (simp add: bz del: addr_range_code)
  qed
  have e1: "unat d + 8196 \<le> unat (d + 0x3000)" and e2: "unat d + 8196 \<le> unat (d + 0x5000)" using a by simp_all
  show "boot_mem (placement_address s) d m x = 0" if "x \<in> addr_range (d + 0x5000) 4096"
    unfolding boot_mem_def by (rule enter_table_reads(3) [OF e2 le(5) i3(2) i3(2) that])
  show "boot_mem (placement_address s) d m x = 0" if x: "x \<in> addr_range (d + 0x3000) 4096"
  proof -
    have "unat d + 0x3000 \<le> unat x" "unat x < unat d + 0x4000" using x unfolding rg(3) a by simp_all
    then have "x \<notin> addr_range d 8196" "x \<notin> addr_range (d + 0x4000) 36" "x \<notin> addr_range (d + 0x5000) 4096" unfolding rg a by simp_all
    then show ?thesis
      unfolding boot_mem_def using enter_table_reads(3) [OF e1 le(3) i3(1) i3(1) x] by (simp add: et i3 bz sz del: addr_range_code)
  qed
qed

lemma boot_base_inv:
  assumes rdy: "boot_ready s" and d: "d = boot_dir (placement_address s)"
  shows "boot_layout (d + 0x5000) (d + 0x3000) (boot_base s)"
    "boot_inv (d + 0x5000) (d + 0x3000) n 0 0 (boot_base s) (boot_base s)"
proof -
  note r = boot_readyD [OF rdy d]
  have a: "unat (d + 0x3000) = unat d + 0x3000" "unat (d + 0x5000) = unat d + 0x5000" using r(9) [of "0x3000"] r(9) [of "0x5000"] by simp_all
  have dirs: "read32 (boot_mem (placement_address s) d (mem s)) (pd_tables d 0) = d + 0x5000"
    "read32 (boot_mem (placement_address s) d (mem s)) (pd_tables d 0x300) = d + 0x3000"
    using boot_mem_dir(1) [OF rdy d, of 0] boot_mem_dir(1) [OF rdy d, of "0x300"] by simp_all
  have flds: "nframes (boot_base s) = 4096" "frames (boot_base s) = placement_address s" "kernel_directory (boot_base s) = d"
    "mem (boot_base s) = boot_mem (placement_address s) d (mem s)"
    by (simp_all add: boot_base_def d)
  show lay: "boot_layout (d + 0x5000) (d + 0x3000) (boot_base s)"
    using r a dirs by (simp add: boot_layout_def flds)
  note L = boot_layoutD [OF lay]
  have free: "\<not> frame_used (boot_base s) g" if g: "g < 1024" for g
  proof -
    let ?w = "placement_address s + 4 * of_nat (g div 32)"
    have "g div 32 < 32" using g by (simp add: less_mult_imp_div_less)
    then have u: "unat ?w = unat (placement_address s) + 4 * (g div 32)" "g div 32 < 32"
      using slot32_unat [of "placement_address s" "0x20" "of_nat (g div 32)"] r(4) by (simp_all add: word_less_nat_alt unat_of_nat32)
    have "read32 (mem (boot_base s)) ?w = 0"
    proof (rule read32_zero)
      fix x assume "x \<in> addr_range ?w 4"
      then have x: "unat (placement_address s) \<le> unat x" "unat x < unat (placement_address s) + 128"
        using u addr_range_nowrap [of ?w 4 x] r(4) by simp_all
      then have "x \<in> addr_range (placement_address s) 128" using addr_range_nowrap [of "placement_address s" 128 x] r(4) by simp
      moreover have "unat x < unat d" using x(2) r(5) by simp
      ultimately show "mem (boot_base s) x = 0"
        using boot_mem_rest(1) [OF rdy d, of x "mem s"] by (simp add: flds bzero_apply del: addr_range_code)
    qed
    then show ?thesis by (simp add: frame_used_def frame_word_def flds)
  qed
  have tabs: "table_view (boot_base s) (d + 0x5000) 0 0" "table_view (boot_base s) (d + 0x3000) 0 n"
    using table_view_zero [OF L(8), of "boot_base s"] table_view_zero [OF L(9), of "boot_base s"] boot_mem_rest(3,4) [OF rdy d] by (simp_all add: flds)
  have "\<exists>m. boot_base s = (boot_base s)\<lparr>mem := m\<rparr>" by (rule exI [of _ "mem (boot_base s)"]) simp
  then show "boot_inv (d + 0x5000) (d + 0x3000) n 0 0 (boot_base s) (boot_base s)"
    using free tabs by (simp add: boot_inv_def del: addr_range_code)
qed

section \<open>Running \<open>init_paging\<close>\<close>

text \<open>The number of low pages.\<close>

definition boot_pages :: "'a kmem_scheme \<Rightarrow> nat" where
  "boot_pages s = (unat (boot_dir (placement_address s)) + 0x6000) div 4096"

lemma boot_pages:
  assumes "boot_ready s"
  shows "4096 * boot_pages s = unat (boot_dir (placement_address s)) + 0x6000" "0 < boot_pages s" "boot_pages s \<le> 768"
proof -
  note r = boot_readyD [OF assms refl]
  have "4096 dvd unat (boot_dir (placement_address s))" using r(7) by (simp add: mod_eq_0_iff_dvd)
  then obtain q where q: "unat (boot_dir (placement_address s)) = 4096 * q" by (rule dvdE)
  have "unat (boot_dir (placement_address s)) + 0x6000 = 4096 * (q + 6)" using q by simp
  then have n: "boot_pages s = q + 6" by (simp only: boot_pages_def nonzero_mult_div_cancel_left)
  show "4096 * boot_pages s = unat (boot_dir (placement_address s)) + 0x6000" "0 < boot_pages s" "boot_pages s \<le> 768"
    using q n r(6) by simp_all
qed

lemma page_fuel_Suc: obtains q where "page_fuel = Suc q" "1024 \<le> q"
  by (rule that [of "2 ^ 20"]) (simp_all add: page_fuel_def)

lemma heap_table_loop:
  assumes ks: "kernel_heap s = 0" "kernel_directory s = d" "placement_address s = d + SIZEOF_vm_page_directory"
    and d: "4096 \<le> unat d" "unat d + 0x6000 \<le> 0x300000" "next_page (d + 0x2004) = d + 0x3000"
    and z: "read32 (mem s) (pd_tables d 0x300) = 0"
  shows "for_pages page_fuel (\<lambda>i s. i < VM_KERN_HEAP_START + VM_KERN_HEAP_INITIAL_SIZE) (make_page n) VM_KERN_HEAP_START s
    = Inr (s\<lparr>placement_address := d + 0x4000, mem := enter_table d 0x300 (d + 0x3000) (mem s)\<rparr>)"
proof -
  let ?s = "s\<lparr>placement_address := d + 0x4000, mem := enter_table d 0x300 (d + 0x3000) (mem s)\<rparr>"
  let ?go = "\<lambda>i s. i < VM_KERN_HEAP_START + VM_KERN_HEAP_INITIAL_SIZE"
  have a: "unat (d + 0x2004) = unat d + 0x2004" "unat (d + 0x3000) = unat d + 0x3000"
    using d(2) by (subst unat_add_nowrap; simp)+
  have pa: "placement_address s = d + 0x2004" using ks(3) by (simp add: SIZEOF_vm_page_directory_def)
  have first: "make_page n 0xC0000000 s = Inr ?s"
    using get_page_new [of s "0x300" "0xC0000000" "d + 0x3000" d n] ks(1,2) pa a d z
    by (simp add: make_page_def SIZEOF_vm_page_table_def)
  have le: "unat d + 8196 \<le> unat (d + 0x3000)" "unat (d + 0x3000) + 4096 \<le> 2 ^ 32" using a d(2) by simp_all
  have i3: "unat (0x300 :: u32) < 1024" by simp
  have dir: "read32 (mem ?s) (pd_tables d 0x300) = d + 0x3000" using enter_table_reads(1) [OF le i3 i3] by simp
  have nz: "d + 0x3000 \<noteq> 0" using a(2) d(1) by auto
  have rest: "make_page n (0xC0000000 + of_nat (4096 * k)) ?s = Inr ?s" if "k < 1024" for k
    using get_page_old [of ?s d "0xC0000000 + of_nat (4096 * k)", OF _ nz] dir ks(2) page_number(3,4) [OF that]
    by (simp add: make_page_def del: of_nat_mult)
  have go: "?go (0xC0000000 + of_nat (4096 * k)) t \<longleftrightarrow> k < 256" if "k \<le> 256" for k and t :: "'a kmem_scheme"
  proof -
    have "unat (of_nat (4096 * k) :: u32) = 4096 * k" using that by (intro unat_of_nat32) simp
    then have "unat (0xC0000000 + of_nat (4096 * k) :: u32) = 0xC0000000 + 4096 * k"
      using that by (subst unat_add_nowrap) simp_all
    then show ?thesis by (simp add: heap_consts word_less_nat_alt del: of_nat_mult)
  qed
  obtain q where q: "page_fuel = Suc q" "1024 \<le> q" by (rule page_fuel_Suc)
  have "\<exists>s'. for_pages q ?go (make_page n) (0xC0000000 + of_nat (4096 * 1)) ?s = Inr s' \<and> s' = ?s"
    by (rule for_pages_run [of "\<lambda>k t. t = ?s" 1 _ 256]) (use go rest q(2) in \<open>simp_all add: heap_consts del: of_nat_mult\<close>)
  moreover have "(0xC0000000 + of_nat (4096 * 1) :: u32) = 0xC0000000 + 0x1000" by simp
  ultimately have "for_pages q ?go (make_page n) (0xC0000000 + 0x1000) ?s = Inr ?s" by (simp only:) blast
  then show ?thesis using first by (simp add: heap_consts q)
qed

text \<open>The identity loop: its first round makes the table of the low pages.\<close>

lemma low_pages_loop:
  assumes rdy: "boot_ready s" and d: "d = boot_dir (placement_address s)"
    and t: "t = s\<lparr>nframes := 4096, frames := placement_address s, kernel_directory := d, placement_address := d + 0x4024,
      mem := bzero (d + 0x4000) SIZEOF_vm_heap
        (enter_table d 0x300 (d + 0x3000) (bzero d SIZEOF_vm_page_directory (bzero (placement_address s) 128 (mem s))))\<rparr>"
  shows "\<exists>s'. for_pages page_fuel (\<lambda>i s. i < placement_address s) (map_page n True) 0 t = Inr s'
    \<and> boot_inv (d + 0x5000) (d + 0x3000) (boot_pages s) (boot_pages s) 0 (boot_base s) s'"
proof -
  let ?go = "\<lambda>i (s :: 'a kmem_scheme). i < placement_address s"
  let ?I = "\<lambda>k. boot_inv (d + 0x5000) (d + 0x3000) (boot_pages s) k 0 (boot_base s)"
  note r = boot_readyD [OF rdy d] and N = boot_pages [OF rdy, folded d] and lay = boot_base_inv(1) [OF rdy d]
  have a: "unat (d + 0x4024) = unat d + 0x4024" "unat (d + 0x3000) = unat d + 0x3000" "unat (d + 0x5000) = unat d + 0x5000"
    using r(9) [of "0x4024"] r(9) [of "0x3000"] r(9) [of "0x5000"] by simp_all
  have le: "unat d + 8196 \<le> unat (d + 0x5000)" "unat (d + 0x5000) + 4096 \<le> 2 ^ 32" using a r(6) by simp_all
  have i0: "unat (0 :: u32) < 1024" by simp
  have base: "t\<lparr>placement_address := d + 0x5000 + SIZEOF_vm_page_table, mem := enter_table d 0 (d + 0x5000) (mem t)\<rparr> = boot_base s"
    by (simp add: t boot_base_def boot_mem_def d SIZEOF_vm_page_table_def)
  have z: "read32 (mem t) (pd_tables d 0) = 0"
  proof -
    let ?m = "bzero d SIZEOF_vm_page_directory (bzero (placement_address s) 128 (mem s))"
    have u: "unat (pd_tables d 0) = unat d" by (simp add: pd_tables_def)
    have "read32 (mem t) (pd_tables d 0) = read32 (enter_table d 0x300 (d + 0x3000) ?m) (pd_tables d 0)"
      unfolding t using u r(6) r(9) [of "0x4000"] by (simp add: bzero_read32 SIZEOF_vm_heap_def)
    also have "\<dots> = read32 ?m (pd_tables d 0)"
      by (subst enter_table_reads(1)) (use a r(6) in simp_all)
    also have "\<dots> = 0"
    proof (rule read32_zero)
      fix x assume "x \<in> addr_range (pd_tables d 0) 4"
      then have "x \<in> addr_range d 8196" by (simp add: pd_tables_def)
      then show "?m x = 0" by (simp add: bzero_apply SIZEOF_vm_page_directory_def)
    qed
    finally show ?thesis .
  qed
  have kt: "kernel_heap t = 0" "kernel_directory t = d" "placement_address t = d + 0x4024" using r(1) by (simp_all add: t)
  have get: "get_page (kmalloc0_ap n) 0 True d t = Inr (pt_pages (d + 0x5000) 0, boot_base s)"
    using get_page_new [of t 0 0 "d + 0x5000" d n] kt z a r(6,8,11) base by simp
  obtain s1 where s1: "alloc_frame (pt_pages (d + 0x5000) (of_nat 0)) 0 0 (boot_base s) = Inr s1" "?I (Suc 0) s1"
    using boot_inv_step(1) [OF lay boot_base_inv(2) [OF rdy d, of "boot_pages s"]] by auto
  have first: "map_page n True 0 t = Inr s1" using get s1(1) kt(2) by (simp add: map_page_def)
  have pa: "placement_address u = d + 0x6000" if "?I k u" for k u
    using boot_inv_dir(2) [OF lay that] by (simp add: boot_base_def d)
  have go: "?go (0 + of_nat (4096 * k)) u \<longleftrightarrow> k < boot_pages s" if "k \<le> boot_pages s" "?I j u" for j k and u :: "'a kmem_scheme"
  proof -
    have "unat (of_nat (4096 * k) :: u32) = 4096 * k" using that(1) N(3) by (intro unat_of_nat32) simp
    then show ?thesis using N(1) r(9) [of "0x6000"] by (simp add: pa [OF that(2)] word_less_nat_alt flip: N(1) del: of_nat_mult)
  qed
  obtain q where q: "page_fuel = Suc q" "1024 \<le> q" by (rule page_fuel_Suc)
  have "\<exists>s'. for_pages q ?go (map_page n True) (0 + of_nat (4096 * 1)) s1 = Inr s' \<and> ?I (boot_pages s) s'"
  proof (rule for_pages_run [of ?I])
    show "?I 1 s1" using s1(2) by simp
    show "1 \<le> boot_pages s" "boot_pages s - 1 < q" using N(2,3) q(2) by simp_all
    show "?go (0 + of_nat (4096 * k)) u \<and> (\<exists>s'. map_page n True (0 + of_nat (4096 * k)) u = Inr s' \<and> ?I (Suc k) s')"
      if "1 \<le> k" "k < boot_pages s" "?I k u" for k u
      using go [OF less_imp_le [OF that(2)] that(3)] map_page_step(1) [OF lay that(3)] that(2) N(3) by simp
    show "\<not> ?go (0 + of_nat (4096 * boot_pages s)) u" if "?I (boot_pages s) u" for u using go [OF order_refl that] by simp
  qed
  moreover have "(0 :: u32) < placement_address t" using kt(3) a(1) r(8) by (simp add: word_less_nat_alt)
  ultimately show ?thesis using first by (simp add: q)
qed

text \<open>The loop over the pages of the heap.\<close>

lemma heap_pages_loop:
  assumes rdy: "boot_ready s" and d: "d = boot_dir (placement_address s)"
    and inv: "boot_inv (d + 0x5000) (d + 0x3000) (boot_pages s) (boot_pages s) 0 (boot_base s) t"
  shows "\<exists>s'. for_pages page_fuel (\<lambda>i s. i < VM_KERN_HEAP_START + VM_KERN_HEAP_INITIAL_SIZE) (map_page n False) VM_KERN_HEAP_START t = Inr s'
    \<and> boot_inv (d + 0x5000) (d + 0x3000) (boot_pages s) (boot_pages s) 256 (boot_base s) s'"
proof -
  let ?go = "\<lambda>i (s :: 'a kmem_scheme). i < VM_KERN_HEAP_START + VM_KERN_HEAP_INITIAL_SIZE"
  let ?I = "\<lambda>l. boot_inv (d + 0x5000) (d + 0x3000) (boot_pages s) (boot_pages s) l (boot_base s)"
  note N = boot_pages [OF rdy, folded d] and lay = boot_base_inv(1) [OF rdy d]
  have go: "?go (0xC0000000 + of_nat (4096 * k)) u \<longleftrightarrow> k < 256" if "k \<le> 256" for k and u :: "'a kmem_scheme"
  proof -
    have "unat (of_nat (4096 * k) :: u32) = 4096 * k" using that by (intro unat_of_nat32) simp
    then have "unat (0xC0000000 + of_nat (4096 * k) :: u32) = 0xC0000000 + 4096 * k"
      using that by (subst unat_add_nowrap) simp_all
    then show ?thesis by (simp add: heap_consts word_less_nat_alt del: of_nat_mult)
  qed
  have "\<exists>s'. for_pages page_fuel ?go (map_page n False) (0xC0000000 + of_nat (4096 * 0)) t = Inr s' \<and> ?I 256 s'"
  proof (rule for_pages_run [of ?I])
    show "?go (0xC0000000 + of_nat (4096 * l)) u \<and> (\<exists>s'. map_page n False (0xC0000000 + of_nat (4096 * l)) u = Inr s' \<and> ?I (Suc l) s')"
      if "0 \<le> l" "l < 256" "?I l u" for l u
      using go [of l] map_page_step(2) [OF lay that(3)] that(2) N(3) by simp
    show "\<not> ?go (0xC0000000 + of_nat (4096 * 256)) u" if "?I 256 u" for u using go [of 256] by simp
  qed (use inv in \<open>simp_all add: page_fuel_def\<close>)
  then show ?thesis by (simp add: heap_consts)
qed

text \<open>What is left of the state when the heap is made.\<close>

lemma init_heap_shape:
  assumes "init_heap h start e mx su ro s = Inr s'"
  shows "\<exists>m hp. s' = s\<lparr>mem := m, heaps := hp\<rparr>"
  using assms
  by (auto simp: init_heap_def index_insert_def upd_heap_def Let_def kassert_def split: prod.splits if_splits elim!: ebind_eq_InrE)

lemma init_paging_run:
  assumes rdy: "boot_ready s" and d: "d = boot_dir (placement_address s)"
  obtains t s' where "init_paging n s = Inr s'"
    "boot_inv (d + 0x5000) (d + 0x3000) (boot_pages s) (boot_pages s) 256 (boot_base s) t"
    "\<exists>m hp. s' = t\<lparr>mem := m, heaps := hp, kernel_heap := d + 0x4000, current_directory := d, cr3 := pd_tblphys d 0,
       cr0 := cr0 s OR 0x80000000, interrupt_handlers := (interrupt_handlers s)[14 := Some Page_fault_handler]\<rparr>"
    "\<And>x. unat x < 0xC0000000 \<Longrightarrow> mem s' x = mem t x"
    "heap_ok (d + 0x4000) [(0x7F000, True)] s'" "h_addr_start (heaps s' (d + 0x4000)) = 0xC0081000"
    "h_addr_end (heaps s' (d + 0x4000)) = 0xC0100000" "h_addr_max (heaps s' (d + 0x4000)) = 0xCFFFF000"
    "sa_array (h_index (heaps s' (d + 0x4000))) = 0xC0000000" "sa_maxsize (h_index (heaps s' (d + 0x4000))) = VM_HEAP_INDEX_SIZE"
proof -
  note r = boot_readyD [OF rdy d]
  let ?p = "placement_address s"
  define sA where "sA = s\<lparr>nframes := 4096, placement_address := ?p + 128, mem := bzero ?p 128 (mem s), frames := ?p\<rparr>"
  define sB where "sB = sA\<lparr>placement_address := d + SIZEOF_vm_page_directory, mem := bzero d SIZEOF_vm_page_directory (mem sA), kernel_directory := d\<rparr>"
  define sC where "sC = sB\<lparr>placement_address := d + 0x4000, mem := enter_table d 0x300 (d + 0x3000) (mem sB)\<rparr>"
  define sD where "sD = sC\<lparr>placement_address := d + 0x4024, mem := bzero (d + 0x4000) SIZEOF_vm_heap (mem sC)\<rparr>"
  have kh: "kernel_heap sA = 0" "kernel_heap sB = 0" "kernel_heap sC = 0" using r(1) by (simp_all add: sA_def sB_def sC_def)
  have idx: "INDEX_FROM_BIT 4096 = 128" by (simp add: INDEX_FROM_BIT_def)
  have up: "unat (?p + 128) = unat ?p + 128" using r(4) by (subst unat_add_nowrap) simp_all
  have k1: "kmalloc0 n 128 (s\<lparr>nframes := 4096\<rparr>) = Inr (?p, s\<lparr>nframes := 4096, placement_address := ?p + 128, mem := bzero ?p 128 (mem s)\<rparr>)"
    using placement_zeroed [of "s\<lparr>nframes := 4096\<rparr>" n 128] r(1) by simp
  have k2: "kmalloc0_a n SIZEOF_vm_page_directory sA
      = Inr (d, sA\<lparr>placement_address := d + SIZEOF_vm_page_directory, mem := bzero d SIZEOF_vm_page_directory (mem sA)\<rparr>)"
    using placement_aligned(1) [of sA n SIZEOF_vm_page_directory] kh(1) up r(3,4) d by (simp add: sA_def boot_dir_def)
  have z: "read32 (mem sB) (pd_tables d 0x300) = 0"
  proof (rule read32_zero)
    have le: "unat d + 8196 \<le> 2 ^ 32" using r(6) by simp
    fix x assume "x \<in> addr_range (pd_tables d 0x300) 4"
    then have "unat d \<le> unat x \<and> unat x < unat d + 8196"
      using unat_pd(1) [OF le, of "0x300"] addr_range_nowrap [of "pd_tables d 0x300" 4 x] r(6) by simp
    then have "x \<in> addr_range d 8196" using addr_range_nowrap [OF le] by blast
    then show "mem sB x = 0" by (simp add: sB_def bzero_apply SIZEOF_vm_page_directory_def)
  qed
  have l1: "for_pages page_fuel (\<lambda>i s. i < VM_KERN_HEAP_START + VM_KERN_HEAP_INITIAL_SIZE) (make_page n) VM_KERN_HEAP_START sB = Inr sC"
    using heap_table_loop [of sB d n] kh(2) r(6,8,10) z by (simp add: sB_def sC_def)
  have k3: "kmalloc0 n SIZEOF_vm_heap sC = Inr (d + 0x4000, sD)"
    using placement_zeroed [OF kh(3), of n SIZEOF_vm_heap] by (simp add: sC_def sD_def SIZEOF_vm_heap_def)
  have "sD = s\<lparr>nframes := 4096, frames := ?p, kernel_directory := d, placement_address := d + 0x4024,
      mem := bzero (d + 0x4000) SIZEOF_vm_heap (enter_table d 0x300 (d + 0x3000) (bzero d SIZEOF_vm_page_directory (bzero ?p 128 (mem s))))\<rparr>"
    by (rule kmem.equality) (simp_all add: sA_def sB_def sC_def sD_def)
  from low_pages_loop [OF rdy d this, of n] obtain sE where
    l2: "for_pages page_fuel (\<lambda>i s. i < placement_address s) (map_page n True) 0 sD = Inr sE"
    and invE: "boot_inv (d + 0x5000) (d + 0x3000) (boot_pages s) (boot_pages s) 0 (boot_base s) sE" by blast
  obtain t where
    l3: "for_pages page_fuel (\<lambda>i s. i < VM_KERN_HEAP_START + VM_KERN_HEAP_INITIAL_SIZE) (map_page n False) VM_KERN_HEAP_START sE = Inr t"
    and inv: "boot_inv (d + 0x5000) (d + 0x3000) (boot_pages s) (boot_pages s) 256 (boot_base s) t"
    using heap_pages_loop [OF rdy d invE, of n] by blast
  obtain mt where mt: "t = boot_base s\<lparr>mem := mt\<rparr>" using inv unfolding boot_inv_def by blast
  have ft: "interrupt_handlers t = interrupt_handlers s" "kernel_directory t = d" "cr0 t = cr0 s" by (simp_all add: mt boot_base_def d)
  define sG where "sG = t\<lparr>current_directory := d, cr3 := pd_tblphys d 0, cr0 := cr0 s OR 0x80000000,
     interrupt_handlers := (interrupt_handlers s)[14 := Some Page_fault_handler]\<rparr>"
  have reg: "register_interrupt_handler 14 Page_fault_handler t = Inr (t\<lparr>interrupt_handlers := (interrupt_handlers s)[14 := Some Page_fault_handler]\<rparr>)"
    using r(2) ft(1) by (simp add: register_interrupt_handler_def)
  have sw: "switch_page_directory d (t\<lparr>interrupt_handlers := (interrupt_handlers s)[14 := Some Page_fault_handler]\<rparr>) = sG"
    using ft by (simp add: switch_page_directory_def sG_def)
  have al: "unat (0xC0000000 :: u32) mod 4096 = 0" "unat (0xC0100000 :: u32) mod 4096 = 0"
    "unat (0xC0000000 :: u32) + 0x81000 + 20 \<le> unat (0xC0100000 :: u32)" by simp_all
  obtain sH where h: "init_heap (d + 0x4000) 0xC0000000 0xC0100000 0xCFFFF000 0 0 sG = Inr sH"
    "heap_ok (d + 0x4000) [(unat (0xC0100000 :: u32) - (unat (0xC0000000 :: u32) + 0x81000), True)] sH"
    "h_addr_start (heaps sH (d + 0x4000)) = 0xC0000000 + 0x81000" "h_addr_end (heaps sH (d + 0x4000)) = 0xC0100000"
    "h_addr_max (heaps sH (d + 0x4000)) = 0xCFFFF000"
    "\<And>x. unat x < unat (0xC0000000 :: u32) \<or> unat (0xC0000000 :: u32) + 0x8100C \<le> unat x \<Longrightarrow> mem sH x = mem sG x"
    "sa_array (h_index (heaps sH (d + 0x4000))) = 0xC0000000" "sa_maxsize (h_index (heaps sH (d + 0x4000))) = VM_HEAP_INDEX_SIZE"
    by (rule init_heap_ok [OF al, of "d + 0x4000" "0xCFFFF000" 0 0 sG]) (rule that, assumption+)
  obtain m hp where sh: "sH = sG\<lparr>mem := m, heaps := hp\<rparr>" using init_heap_shape [OF h(1)] by blast
  have run: "init_paging n s = Inr (sH\<lparr>kernel_heap := d + 0x4000\<rparr>)"
    using k1 k2 l1 k3 l2 l3 reg sw h(1) ft(2)
    by (simp add: init_paging_def Let_def idx heap_consts flip: sA_def sB_def)
  show thesis
  proof (rule that [OF run inv])
    show "\<exists>m hp. sH\<lparr>kernel_heap := d + 0x4000\<rparr> = t\<lparr>mem := m, heaps := hp, kernel_heap := d + 0x4000, current_directory := d, cr3 := pd_tblphys d 0,
       cr0 := cr0 s OR 0x80000000, interrupt_handlers := (interrupt_handlers s)[14 := Some Page_fault_handler]\<rparr>"
      by (rule exI [of _ m], rule exI [of _ hp]) (simp add: sh sG_def)
    show "mem (sH\<lparr>kernel_heap := d + 0x4000\<rparr>) x = mem t x" if "unat x < 0xC0000000" for x
      using h(6) [of x] that by (simp add: sG_def)
  qed (use h(2-5,7,8) in \<open>simp_all add: heap_ok_def Let_def\<close>)
qed

section \<open>The processor's view\<close>

text \<open>
  The address translation of the processor with paging enabled: bits 22 to 31 select the directory entry, bits 12 to 21
  the table entry; \<open>cr3\<close> and the entries hold physical page addresses.
\<close>

definition mmu_walk :: "'a paging_scheme \<Rightarrow> u32 \<Rightarrow> u32 option" where
  "mmu_walk s va =
     (if bit (cr0 s) 31
      then
        let pde = read32 (mem s) ((cr3 s AND 0xFFFFF000) + 4 * (va div 0x1000 div 1024))
        in if pde AND 1 = 0 then None
           else
             let pte = page_at s ((pde AND 0xFFFFF000) + 4 * (va div 0x1000 mod 1024))
             in if p_present pte = 0 then None else Some (ucast (p_frame pte) * 0x1000 + va mod 0x1000)
      else Some va)"

lemma aligned_and:
  fixes w :: u32
  assumes "unat w mod 4096 = 0"
  shows "w AND 0xFFFFF000 = w" "(w OR 7) AND 0xFFFFF000 = w" "(w OR 7) AND 1 \<noteq> 0"
proof -
  have m: "(0xFFFFF000 :: u32) = NOT (mask 12)" by (simp add: mask_eq_exp_minus_1)
  have "unat (w AND 0xFFFFF000) = unat w" unfolding m unat_and_not_mask using assms by simp
  then show w: "w AND 0xFFFFF000 = w" by (simp add: word_unat_eq_iff)
  have "(w OR 7) AND 0xFFFFF000 = (w AND 0xFFFFF000) OR (7 AND 0xFFFFF000)" by (rule bit.conj_disj_distrib2)
  then show "(w OR 7) AND 0xFFFFF000 = w" using w by simp
  have "bit ((w OR 7) AND 1) 0" by (simp add: bit_simps)
  then show "(w OR 7) AND 1 \<noteq> 0" by auto
qed

lemma page_split:
  fixes va :: u32
  shows "unat (va div 0x1000 div 1024) = unat va div 4194304" "unat (va div 0x1000 mod 1024) = unat va div 4096 mod 1024"
    "unat (va mod 0x1000) = unat va mod 4096" "unat (va div 0x1000 div 1024) < 1024"
proof -
  show "unat (va div 0x1000 div 1024) = unat va div 4194304" "unat (va div 0x1000 mod 1024) = unat va div 4096 mod 1024"
    "unat (va mod 0x1000) = unat va mod 4096"
    by (simp_all add: unat_div_distrib unat_mod_distrib div_mult2_eq [symmetric])
  then show "unat (va div 0x1000 div 1024) < 1024" using unat_lt32 [of va] by (simp add: less_mult_imp_div_less)
qed

text \<open>The walk through a table of which \<open>table_view\<close> tells the entries.\<close>

lemma table_walk:
  fixes va :: u32
  assumes "table_view s t k f" "f + 1024 \<le> 2 ^ 20"
  defines "pte \<equiv> page_at s (t + 4 * (va div 0x1000 mod 1024))" and "j \<equiv> unat va div 4096 mod 1024"
  shows "(if p_present pte = 0 then None else Some (ucast (p_frame pte) * 0x1000 + va mod 0x1000))
    = (if j < k then Some (of_nat (4096 * (f + j) + unat va mod 4096) :: u32) else None)"
proof -
  have j: "j < 1024" by (simp add: j_def)
  have w: "va div 0x1000 mod 1024 = of_nat j"
    using page_split(2) [of va] by (metis j_def of_nat_unat ucast_id)
  have pte: "pte = (if j < k then mapped_page 0 0 (f + j) (page_of 0) else page_of 0)"
    using assms(1) j unfolding pte_def w table_view_def pt_pages_def by blast
  have none: "p_present (page_of 0) = 0" by (simp add: page_of_def)
  have fr: "(ucast (of_nat (f + j) :: 20 word) :: u32) = of_nat (f + j)"
  proof -
    have lt: "f + j < 2 ^ 20" using assms(2) j by simp
    then have "unat (of_nat (f + j) :: 20 word) = f + j" "unat (of_nat (f + j) :: u32) = f + j"
      by (simp_all only: unat_of_nat) simp_all
    then show ?thesis using lt by (simp only: word_unat_eq_iff unat_ucast_mod) simp
  qed
  have low: "va mod 0x1000 = of_nat (unat va mod 4096)" using page_split(3) [of va] by (metis of_nat_unat ucast_id)
  show ?thesis
  proof (cases "j < k")
    case True
    then have p: "p_present pte = 1" "p_frame pte = of_nat (f + j)" by (simp_all add: pte mapped_page_def)
    show ?thesis unfolding p(2) fr low using True p(1) by (simp add: mult.commute)
  next
    case False
    then show ?thesis by (simp add: pte none)
  qed
qed

lemma init_paging_dir:
  fixes s :: "'a kmem_scheme" and i :: u32
  assumes rdy: "boot_ready s" and d: "d = boot_dir (placement_address s)"
    and inv: "boot_inv (d + 0x5000) (d + 0x3000) (boot_pages s) (boot_pages s) 256 (boot_base s) t"
    and low: "\<And>x. unat x < 0xC0000000 \<Longrightarrow> mem s' x = mem t x" and i: "unat i < 1024"
  shows "(pd_tblphys d 0 AND 0xFFFFF000) + 4 * i = pd_tblphys d i"
    "read32 (mem s') (pd_tblphys d i) = (if i = 0 then (d + 0x5000) OR 7 else if i = 0x300 then (d + 0x3000) OR 7 else 0)"
    "read32 (mem s') (pd_tables d i) = (if i = 0 then d + 0x5000 else if i = 0x300 then d + 0x3000 else 0)"
    "table_view s' (d + 0x5000) (boot_pages s) 0" "table_view s' (d + 0x3000) 256 (boot_pages s)"
    "unat (d + 0x3000) mod 4096 = 0" "unat (d + 0x5000) mod 4096 = 0"
proof -
  note r = boot_readyD [OF rdy d] and lay = boot_base_inv(1) [OF rdy d]
  note L = boot_layoutD [OF lay] and D = boot_inv_dir [OF lay inv]
  have a: "unat (d + 0x1000) = unat d + 0x1000" "unat (d + 0x3000) = unat d + 0x3000" "unat (d + 0x5000) = unat d + 0x5000"
    using r(9) [of "0x1000"] r(9) [of "0x3000"] r(9) [of "0x5000"] by simp_all
  have al: "unat (d + 0x1000) mod 4096 = 0" unfolding a using r(7) by (simp add: mod_add_eq [symmetric])
  show "unat (d + 0x3000) mod 4096 = 0" "unat (d + 0x5000) mod 4096 = 0"
    unfolding a using r(7) by (simp_all add: mod_add_eq [symmetric])
  have bd: "kernel_directory (boot_base s) = d" "mem (boot_base s) = boot_mem (placement_address s) d (mem s)"
    by (simp_all add: boot_base_def d)
  show "(pd_tblphys d 0 AND 0xFFFFF000) + 4 * i = pd_tblphys d i"
    using aligned_and(1) [OF al] by (simp add: pd_tblphys_def add.commute)
  have le: "unat d + 8196 \<le> 2 ^ 32" using r(6) by simp
  have low_mem: "read32 (mem s') w = read32 (mem t) w" if "unat w + 4 \<le> 0xC0000000" for w
    by (rule read32_cong, rule low) (use that addr_range_nowrap [of w 4] in auto)
  show "read32 (mem s') (pd_tblphys d i) = (if i = 0 then (d + 0x5000) OR 7 else if i = 0x300 then (d + 0x3000) OR 7 else 0)"
    using low_mem [of "pd_tblphys d i"] unat_pd(2) [OF le i] i r(6) D(5) [OF i] boot_mem_dir(2) [OF rdy d i]
    by (simp add: bd)
  show "read32 (mem s') (pd_tables d i) = (if i = 0 then d + 0x5000 else if i = 0x300 then d + 0x3000 else 0)"
    using low_mem [of "pd_tables d i"] unat_pd(1) [OF le i] i r(6) D(4) [OF i] boot_mem_dir(1) [OF rdy d i]
    by (simp add: bd)
  have vt: "table_view t (d + 0x5000) (boot_pages s) 0" "table_view t (d + 0x3000) 256 (boot_pages s)"
    using inv by (simp_all add: boot_inv_def)
  have "mem s' x = mem t x" if "x \<in> addr_range (d + 0x5000) 4096" for x
    using that addr_range_nowrap [OF L(8), of x] a(3) r(6) by (intro low) simp
  moreover have "mem s' x = mem t x" if "x \<in> addr_range (d + 0x3000) 4096" for x
    using that addr_range_nowrap [OF L(9), of x] a(2) r(6) by (intro low) simp
  ultimately show "table_view s' (d + 0x5000) (boot_pages s) 0" "table_view s' (d + 0x3000) 256 (boot_pages s)"
    using table_view_cong [OF _ L(8), of t _ _ s'] table_view_cong [OF _ L(9), of t _ _ s'] vt by blast+
qed

lemma init_paging_walk:
  fixes s :: "'a kmem_scheme" and va :: u32
  assumes rdy: "boot_ready s" and d: "d = boot_dir (placement_address s)"
    and inv: "boot_inv (d + 0x5000) (d + 0x3000) (boot_pages s) (boot_pages s) 256 (boot_base s) t"
    and s': "cr0 s' = cr0 s OR 0x80000000" "cr3 s' = pd_tblphys d 0" "\<And>x. unat x < 0xC0000000 \<Longrightarrow> mem s' x = mem t x"
  shows "mmu_walk s' va = (if va < d + 0x6000 then Some va
    else if 0xC0000000 \<le> va \<and> va < 0xC0100000 then Some (va - 0xC0000000 + (d + 0x6000)) else None)"
proof -
  note r = boot_readyD [OF rdy d] and N = boot_pages [OF rdy, folded d] and v = page_split [of va]
  have a: "unat (d + 0x6000) = unat d + 0x6000" using r(9) [of "0x6000"] by simp
  have on: "bit (cr0 s') 31" unfolding s'(1) by (simp add: bit_simps)
  let ?i = "va div 0x1000 div 1024 :: u32"
  note dir = init_paging_dir [OF rdy d inv s'(3), simplified, OF v(4)]
  note cr3 = dir(1) [folded s'(2)] and pde = dir(2) and tabs = dir(4,5) and al = dir(6,7)
  let ?n = "unat va"
  have ui: "?i = 0 \<longleftrightarrow> ?n < 4194304" "?i = 0x300 \<longleftrightarrow> 3221225472 \<le> ?n \<and> ?n < 3225419776"
    unfolding word_unat_eq_iff v(1) by (auto simp: div_eq_0_iff intro!: div_nat_eqI)
  have split: "4096 * (?n div 4096) + ?n mod 4096 = ?n" by simp
  have top: "va < d + 0x6000 \<longleftrightarrow> ?n < 4096 * boot_pages s" by (simp add: word_less_nat_alt a N(1))
  have hp: "0xC0000000 \<le> va \<and> va < 0xC0100000 \<longleftrightarrow> 3221225472 \<le> ?n \<and> ?n < 3222274048"
    by (simp add: word_less_nat_alt word_le_nat_alt)
  have va: "of_nat ?n = va" by simp
  consider "?n < 4194304" | "3221225472 \<le> ?n" "?n < 3225419776" | "4194304 \<le> ?n" "\<not> (3221225472 \<le> ?n \<and> ?n < 3225419776)" by linarith
  then show ?thesis
  proof cases
    case 1
    have j: "?n div 4096 mod 1024 = ?n div 4096" using 1 by (simp add: less_mult_imp_div_less)
    have "mmu_walk s' va = (if ?n div 4096 < boot_pages s then Some va else None)"
      using on cr3 pde ui(1) 1 aligned_and(2,3) [OF al(2)] table_walk [OF tabs(1), of va] split va
      by (simp add: mmu_walk_def Let_def j)
    moreover have "?n div 4096 < boot_pages s \<longleftrightarrow> ?n < 4096 * boot_pages s" by (simp add: div_less_iff_less_mult mult.commute)
    ultimately show ?thesis using 1 top hp by auto
  next
    case 2
    define k where "k = ?n - 3221225472"
    have n: "?n = 3221225472 + k" "k < 4194304" using 2 by (simp_all add: k_def)
    have j: "?n div 4096 mod 1024 = k div 4096" "?n mod 4096 = k mod 4096"
    proof -
      have e: "(4096 * q + k) div 4096 = q + k div 4096" "(4096 * q + k) mod 4096 = k mod 4096" for q :: nat by simp_all
      have f: "(1024 * c + k div 4096) mod 1024 = k div 4096" for c :: nat using n(2) by (simp add: less_mult_imp_div_less)
      have "?n = 4096 * (1024 * 768) + k" using n(1) by simp
      then show "?n div 4096 mod 1024 = k div 4096" "?n mod 4096 = k mod 4096" by (simp_all only: e f)
    qed
    have tgt: "(of_nat (4096 * (boot_pages s + k div 4096) + k mod 4096) :: u32) = va - 0xC0000000 + (d + 0x6000)"
    proof -
      have "4096 * (boot_pages s + k div 4096) + k mod 4096 = k + unat (d + 0x6000)"
        using N(1) a by (simp add: add_mult_distrib2)
      moreover have "va - 0xC0000000 = of_nat k" using n(1) va by (metis add_diff_cancel_left' of_nat_add of_nat_numeral)
      ultimately show ?thesis by simp
    qed
    have z: "?i \<noteq> 0" "?i = 0x300" using ui n by simp_all
    have "mmu_walk s' va = (if k div 4096 < 256 then Some (va - 0xC0000000 + (d + 0x6000)) else None)"
      using on cr3 pde z aligned_and(2,3) [OF al(1)] table_walk [OF tabs(2), of va] N(3) tgt
      by (simp add: mmu_walk_def Let_def j)
    moreover have "k div 4096 < 256 \<longleftrightarrow> ?n < 3222274048" using n by (simp add: div_less_iff_less_mult)
    ultimately show ?thesis using 2 top hp N(3) by auto
  next
    case 3
    then have "?i \<noteq> 0" "?i \<noteq> 0x300" unfolding ui by simp_all
    then have "read32 (mem s') (pd_tblphys d ?i) = 0" using pde by simp
    then have "mmu_walk s' va = None" using on cr3 by (simp add: mmu_walk_def Let_def)
    then show ?thesis using 3 top hp N(3) by auto
  qed
qed

lemma init_paging_maps_all:
  assumes rdy: "boot_ready s"
  obtains s' where "init_paging n s = Inr s'" "placement_address s' = boot_dir (placement_address s) + 0x6000"
    "unat (placement_address s') = 4096 * boot_pages s"
    "\<And>va. mmu_walk s' va = (if va < placement_address s' then Some va
      else if 0xC0000000 \<le> va \<and> va < 0xC0100000 then Some (va - 0xC0000000 + placement_address s') else None)"
    "\<And>g. g < 1024 \<Longrightarrow> frame_used s' g \<longleftrightarrow> g < boot_pages s + 256"
    "\<exists>m hp. s' = s\<lparr>mem := m, nframes := 4096, frames := placement_address s, kernel_directory := boot_dir (placement_address s),
       placement_address := boot_dir (placement_address s) + 0x6000, heaps := hp, kernel_heap := boot_dir (placement_address s) + 0x4000,
       current_directory := boot_dir (placement_address s), cr3 := pd_tblphys (boot_dir (placement_address s)) 0,
       cr0 := cr0 s OR 0x80000000, interrupt_handlers := (interrupt_handlers s)[14 := Some Page_fault_handler]\<rparr>"
    "heap_ok (kernel_heap s') [(0x7F000, True)] s'" "kernel_heap s' \<noteq> 0" "h_addr_start (heaps s' (kernel_heap s')) = 0xC0081000"
    "h_addr_end (heaps s' (kernel_heap s')) = 0xC0100000"
proof -
  define d where "d = boot_dir (placement_address s)"
  note r = boot_readyD [OF rdy d_def] and N = boot_pages [OF rdy, folded d_def] and lay = boot_base_inv(1) [OF rdy d_def]
  obtain t s' where run: "init_paging n s = Inr s'"
    and inv: "boot_inv (d + 0x5000) (d + 0x3000) (boot_pages s) (boot_pages s) 256 (boot_base s) t"
    and sh: "\<exists>m hp. s' = t\<lparr>mem := m, heaps := hp, kernel_heap := d + 0x4000, current_directory := d, cr3 := pd_tblphys d 0,
       cr0 := cr0 s OR 0x80000000, interrupt_handlers := (interrupt_handlers s)[14 := Some Page_fault_handler]\<rparr>"
    and low: "\<And>x. unat x < 0xC0000000 \<Longrightarrow> mem s' x = mem t x"
    and hp: "heap_ok (d + 0x4000) [(0x7F000, True)] s'" "h_addr_start (heaps s' (d + 0x4000)) = 0xC0081000"
      "h_addr_end (heaps s' (d + 0x4000)) = 0xC0100000"
    by (rule init_paging_run [OF rdy d_def, of n]) (rule that, assumption+)
  obtain mt where mt: "t = boot_base s\<lparr>mem := mt\<rparr>" using inv unfolding boot_inv_def by blast
  from sh obtain m h where s': "s' = t\<lparr>mem := m, heaps := h, kernel_heap := d + 0x4000, current_directory := d, cr3 := pd_tblphys d 0,
       cr0 := cr0 s OR 0x80000000, interrupt_handlers := (interrupt_handlers s)[14 := Some Page_fault_handler]\<rparr>" by blast
  have pa: "placement_address s' = d + 0x6000" by (simp add: s' mt boot_base_def d_def)
  have upa: "unat (placement_address s') = 4096 * boot_pages s" unfolding pa using r(9) [of "0x6000"] N(1) by simp
  have walk: "mmu_walk s' va = (if va < placement_address s' then Some va
      else if 0xC0000000 \<le> va \<and> va < 0xC0100000 then Some (va - 0xC0000000 + placement_address s') else None)" for va
    unfolding pa by (rule init_paging_walk [OF rdy d_def inv _ _ low]) (simp_all add: s')
  have used: "frame_used s' g \<longleftrightarrow> g < boot_pages s + 256" if "g < 1024" for g
  proof -
    note L = boot_layoutD [OF lay]
    have wf: "bitset_wf t" "nbits t = 4096" "bitset_region t = bitset_region (boot_base s)"
      using L(1,2) by (simp_all add: mt bitset_wf_def nbits_def bitset_region_def)
    have "frame_used s' g = frame_used t g"
    proof (rule frame_used_cong [OF _ _ wf(1)])
      fix x assume "x \<in> bitset_region t"
      then have "x \<in> addr_range (placement_address s) 512" using L(3) wf(3) by (simp add: boot_base_def del: addr_range_code)
      then have "unat x < 0xC0000000" using addr_range_nowrap [of "placement_address s" 512 x] r(4) by simp
      then show "mem s' x = mem t x" by (rule low)
    qed (use that wf(2) in \<open>simp_all add: s'\<close>)
    then show ?thesis using inv that by (simp add: boot_inv_def)
  qed
  have shape: "\<exists>m hp. s' = s\<lparr>mem := m, nframes := 4096, frames := placement_address s, kernel_directory := d,
       placement_address := d + 0x6000, heaps := hp, kernel_heap := d + 0x4000, current_directory := d, cr3 := pd_tblphys d 0,
       cr0 := cr0 s OR 0x80000000, interrupt_handlers := (interrupt_handlers s)[14 := Some Page_fault_handler]\<rparr>"
    by (rule exI [of _ m], rule exI [of _ h], rule kmem.equality) (simp_all add: s' mt boot_base_def d_def)
  have kh: "kernel_heap s' = d + 0x4000" by (simp add: s')
  have "d + 0x4000 \<noteq> 0" using r(9) [of "0x4000"] by auto
  then show thesis
    using that [OF run] pa upa walk used shape hp unfolding kh d_def by blast
qed

section \<open>Properties\<close>

text \<open>
  C6: \<open>init_paging\<close> returns, and with the tables it leaves the processor translates every address below the
  placement pointer to itself, the megabyte of the kernel heap to the memory right behind the placement pointer, and no
  other address.
\<close>
theorem init_paging_maps:
  assumes "boot_ready s"
  shows "\<exists>s'. init_paging n s = Inr s' \<and> placement_address s < placement_address s'
    \<and> (\<forall>va. mmu_walk s' va = (if va < placement_address s' then Some va
        else if 0xC0000000 \<le> va \<and> va < 0xC0100000 then Some (va - 0xC0000000 + placement_address s') else None))"
proof -
  note r = boot_readyD [OF assms refl]
  obtain s' where s': "init_paging n s = Inr s'" "placement_address s' = boot_dir (placement_address s) + 0x6000"
    "\<And>va. mmu_walk s' va = (if va < placement_address s' then Some va
      else if 0xC0000000 \<le> va \<and> va < 0xC0100000 then Some (va - 0xC0000000 + placement_address s') else None)"
    by (rule init_paging_maps_all [OF assms, of n]) (rule that, assumption+)
  have "placement_address s < placement_address s'" using r(5) r(9) [of "0x6000"] by (simp add: s'(2) word_less_nat_alt)
  then show ?thesis using s'(1,3) by blast
qed

lemma boot_kmem_ready: "boot_ready boot_kmem"
proof -
  have "boot_dir 0x200000 = 0x201000" by (simp add: boot_dir_def next_page_def)
  moreover have "length (interrupt_handlers boot_kmem) = 256"
    by (simp add: boot_kmem_def paging.extend_def boot_paging_def descr.extend_def boot_descr_def)
  ultimately show ?thesis by (simp add: boot_ready_def)
qed

theorem init_paging_maps_witness:
  "\<exists>s'. init_paging 0 boot_kmem = Inr s' \<and> mmu_walk s' 0x12345 = Some 0x12345 \<and> mmu_walk s' 0xD0000000 = None"
proof -
  obtain s' where s': "init_paging 0 boot_kmem = Inr s'" "placement_address boot_kmem < placement_address s'"
    "\<forall>va. mmu_walk s' va = (if va < placement_address s' then Some va
        else if 0xC0000000 \<le> va \<and> va < 0xC0100000 then Some (va - 0xC0000000 + placement_address s') else None)"
    using init_paging_maps [OF boot_kmem_ready, of 0] by blast
  have p: "unat (placement_address s') = 4096 * boot_pages boot_kmem"
    by (rule init_paging_maps_all [OF boot_kmem_ready, of 0]) (use s'(1) in simp)
  have "0x12345 < placement_address s'" using s'(2) by (simp add: word_less_nat_alt)
  moreover have "\<not> 0xD0000000 < placement_address s'" using p boot_pages(3) [OF boot_kmem_ready] by (simp add: word_less_nat_alt)
  ultimately show ?thesis using s'(1,3) by simp
qed

text \<open>
  C31: Two different addresses that are mapped after \<open>init_paging\<close> never share a byte of physical memory.
\<close>
theorem init_paging_no_alias:
  assumes "boot_ready s" "init_paging n s = Inr s'" "mmu_walk s' a = Some p" "mmu_walk s' b = Some p"
  shows "a = b"
proof -
  obtain s'' where s'': "init_paging n s = Inr s''" "unat (placement_address s'') = 4096 * boot_pages s"
    "\<And>va. mmu_walk s'' va = (if va < placement_address s'' then Some va
      else if 0xC0000000 \<le> va \<and> va < 0xC0100000 then Some (va - 0xC0000000 + placement_address s'') else None)"
    by (rule init_paging_maps_all [OF assms(1), of n]) (rule that, assumption+)
  define top where "top = placement_address s'"
  have w: "unat top = 4096 * boot_pages s"
    "\<And>va. mmu_walk s' va = (if va < top then Some va
      else if 0xC0000000 \<le> va \<and> va < 0xC0100000 then Some (va - 0xC0000000 + top) else None)"
    using s'' assms(2) by (simp_all add: top_def)
  have t: "unat top \<le> 0x300000" using w(1) boot_pages(3) [OF assms(1)] by simp
  have val: "if unat v < unat top then unat p = unat v else 0xC0000000 \<le> unat v \<and> unat p = unat v - 0xC0000000 + unat top"
    if v: "mmu_walk s' v = Some p" for v
  proof (cases "v < top")
    case True
    then show ?thesis using v w(2) [of v] by (simp add: word_less_nat_alt)
  next
    case False
    then have h: "0xC0000000 \<le> v" "v < 0xC0100000" "p = v - 0xC0000000 + top" using v w(2) [of v] by (simp_all split: if_splits)
    have "unat (v - 0xC0000000) = unat v - 0xC0000000" using h(1) by (subst unat_sub_nowrap) (simp_all add: word_le_nat_alt)
    then have "unat p = unat v - 0xC0000000 + unat top"
      unfolding h(3) using t h(2) by (subst unat_add_nowrap) (simp_all add: word_less_nat_alt)
    then show ?thesis using False h(1) by (simp add: word_less_nat_alt word_le_nat_alt)
  qed
  have "unat a = unat b" using val [OF assms(3)] val [OF assms(4)] by (auto split: if_splits)
  then show ?thesis by (simp add: word_unat_eq_iff)
qed

theorem init_paging_no_alias_witness:
  "\<exists>s' p. init_paging 0 boot_kmem = Inr s' \<and> mmu_walk s' 0xC0000000 = Some p \<and> (\<forall>b. mmu_walk s' b = Some p \<longrightarrow> b = 0xC0000000)"
proof -
  obtain s' where s': "init_paging 0 boot_kmem = Inr s'" "unat (placement_address s') = 4096 * boot_pages boot_kmem"
    "\<And>va. mmu_walk s' va = (if va < placement_address s' then Some va
      else if 0xC0000000 \<le> va \<and> va < 0xC0100000 then Some (va - 0xC0000000 + placement_address s') else None)"
    by (rule init_paging_maps_all [OF boot_kmem_ready, of 0]) (rule that, assumption+)
  have "\<not> 0xC0000000 < placement_address s'" using s'(2) boot_pages(3) [OF boot_kmem_ready] by (simp add: word_less_nat_alt)
  then have m: "mmu_walk s' 0xC0000000 = Some (placement_address s')" using s'(3) [of "0xC0000000"] by simp
  show ?thesis using s'(1) m init_paging_no_alias [OF boot_kmem_ready s'(1) _ m] by blast
qed

end
