(* ===== verification/Scheduler.thy ===== *)
theory Scheduler
  imports Kernel_Memory
begin

text \<open>
  \<open>scheduler.c\<close>, \<open>thread.c\<close> and \<open>thread_asm.s\<close>: the ready queue, a singly linked list of nodes in
  memory, the creation of threads, and the context switch. A node has the thread at offset 0 and the
  next node at offset 4; \<open>thread_t\<close> has \<open>esp, ebp, ebx, esi, edi, eflags, id\<close> at offsets 0, 4, .., 24.
  The registers that the switch saves and restores are the record \<open>cpu\<close>.
\<close>

record cpu =
  cpu_esp :: u32
  cpu_ebp :: u32
  cpu_ebx :: u32
  cpu_esi :: u32
  cpu_edi :: u32
  cpu_eflags :: u32
  cpu_eip :: u32

text \<open>
  \<open>current_thread\<close> is the variable of \<open>scheduler.c\<close>, which the assembly code uses; \<open>thread.c\<close> has a
  static variable of the same name, here \<open>thread_c_current\<close>.
\<close>

record sched = kmem +
  ready_queue :: u32
  current_thread :: u32
  thread_c_current :: u32
  next_tid :: u32
  cpu :: cpu

definition SIZEOF_thread_list_t :: u32 where "SIZEOF_thread_list_t = 8"
definition SIZEOF_thread_t :: u32 where "SIZEOF_thread_t = 28"

definition tl_thread :: "mem \<Rightarrow> u32 \<Rightarrow> u32" where "tl_thread m a = read32 m a"
definition tl_next :: "mem \<Rightarrow> u32 \<Rightarrow> u32" where "tl_next m a = read32 m (a + 4)"

definition put_node :: "u32 \<Rightarrow> u32 \<Rightarrow> u32 \<Rightarrow> mem \<Rightarrow> mem" where
  "put_node a t nx m = write32 (a + 4) nx (write32 a t m)"

section \<open>scheduler.c\<close>

definition init_scheduler :: "nat \<Rightarrow> u32 \<Rightarrow> 'a sched_scheme \<Rightarrow> kerror + 'a sched_scheme" where
  "init_scheduler n initial_thread s =
     ebind (kmalloc n SIZEOF_thread_list_t s) (\<lambda>(node, s).
       let s = s\<lparr>current_thread := node\<rparr>;
           s = s\<lparr>mem := put_node (current_thread s) initial_thread 0 (mem s)\<rparr>
       in Inr (s\<lparr>ready_queue := 0\<rparr>))"

text \<open>The walk to the end of the queue, with a bound on its length.\<close>

fun last_node :: "nat \<Rightarrow> mem \<Rightarrow> u32 \<Rightarrow> kerror + u32" where
  "last_node 0 m iterator = Inl OutOfFuel"
| "last_node (Suc k) m iterator =
     (if tl_next m iterator \<noteq> 0 then last_node k m (tl_next m iterator) else Inr iterator)"

definition thread_is_ready :: "nat \<Rightarrow> u32 \<Rightarrow> 'a sched_scheme \<Rightarrow> kerror + 'a sched_scheme" where
  "thread_is_ready n t s =
     ebind (kmalloc n SIZEOF_thread_list_t s) (\<lambda>(item, s).
       let s = s\<lparr>mem := put_node item t 0 (mem s)\<rparr>
       in if ready_queue s = 0 then Inr (s\<lparr>ready_queue := item\<rparr>)
          else ebind (last_node n (mem s) (ready_queue s)) (\<lambda>iterator.
            Inr (s\<lparr>mem := write32 (iterator + 4) item (mem s)\<rparr>)))"

fun not_ready_walk :: "nat \<Rightarrow> u32 \<Rightarrow> u32 \<Rightarrow> 'a sched_scheme \<Rightarrow> kerror + 'a sched_scheme" where
  "not_ready_walk 0 t iterator s = Inl OutOfFuel"
| "not_ready_walk (Suc k) t iterator s =
     (if iterator \<noteq> 0 \<and> tl_next (mem s) iterator \<noteq> 0
      then
        let tmp = tl_next (mem s) iterator
        in if tl_thread (mem s) tmp = t
           then kfree tmp (s\<lparr>mem := write32 (iterator + 4) (tl_next (mem s) tmp) (mem s)\<rparr>)
           else not_ready_walk k t tmp s
      else Inr s)"

definition thread_not_ready :: "nat \<Rightarrow> u32 \<Rightarrow> 'a sched_scheme \<Rightarrow> kerror + 'a sched_scheme" where
  "thread_not_ready n t s =
     (let iterator = ready_queue s
      in if iterator \<noteq> 0 \<and> tl_thread (mem s) iterator = t
         then kfree iterator (s\<lparr>ready_queue := tl_next (mem s) iterator\<rparr>)
         else not_ready_walk n t iterator s)"

section \<open>thread_asm.s\<close>

definition push32 :: "u32 \<Rightarrow> 'a sched_scheme \<Rightarrow> 'a sched_scheme" where
  "push32 v s = s\<lparr>mem := write32 (cpu_esp (cpu s) - 4) v (mem s), cpu := (cpu s)\<lparr>cpu_esp := cpu_esp (cpu s) - 4\<rparr>\<rparr>"

text \<open>
  The saved words of the thread at \<open>t\<close>: first the five registers, then the flags, which go through
  the stack (\<open>pushf; pop ecx\<close>).
\<close>

definition save_context :: "u32 \<Rightarrow> cpu \<Rightarrow> mem \<Rightarrow> mem" where
  "save_context t c m =
     (let m = write32 (t + 0) (cpu_esp c) m;
          m = write32 (t + 4) (cpu_ebp c) m;
          m = write32 (t + 8) (cpu_ebx c) m;
          m = write32 (t + 12) (cpu_esi c) m;
          m = write32 (t + 16) (cpu_edi c) m;
          m = write32 (cpu_esp c - 4) (cpu_eflags c) m
      in write32 (t + 20) (read32 m (cpu_esp c - 4)) m)"

text \<open>Loading the registers of the thread at \<open>t\<close>; the flags go through the new stack, and \<open>ret\<close> pops
  the return address.\<close>

definition load_context :: "u32 \<Rightarrow> mem \<Rightarrow> mem \<times> cpu" where
  "load_context t m =
     (let esp = read32 m (t + 0);
          m' = write32 (esp - 4) (read32 m (t + 20)) m
      in (m', \<lparr>cpu_esp = esp + 4, cpu_ebp = read32 m (t + 4), cpu_ebx = read32 m (t + 8),
            cpu_esi = read32 m (t + 12), cpu_edi = read32 m (t + 16), cpu_eflags = read32 m' (esp - 4),
            cpu_eip = read32 m' esp\<rparr>))"

definition switch_thread :: "'a sched_scheme \<Rightarrow> 'a sched_scheme" where
  "switch_thread s =
     (let m = save_context (tl_thread (mem s) (current_thread s)) (cpu s) (mem s);
          nx = read32 m (cpu_esp (cpu s) + 4)
      in case load_context (tl_thread m nx) m of (m, c) \<Rightarrow> s\<lparr>mem := m, current_thread := nx, cpu := c\<rparr>)"

text \<open>\<open>schedule\<close> calls it with the node on the stack; \<open>ra\<close> is the return address of that call.\<close>

definition schedule :: "nat \<Rightarrow> u32 \<Rightarrow> 'a sched_scheme \<Rightarrow> kerror + 'a sched_scheme" where
  "schedule n ra s =
     (if ready_queue s = 0 then Inr s
      else ebind (last_node n (mem s) (ready_queue s)) (\<lambda>iterator.
        let s = s\<lparr>mem := write32 (iterator + 4) (current_thread s) (mem s)\<rparr>;
            s = s\<lparr>mem := write32 (current_thread s + 4) 0 (mem s)\<rparr>;
            new_thread = ready_queue s;
            s = s\<lparr>ready_queue := tl_next (mem s) (ready_queue s)\<rparr>
        in Inr (switch_thread (push32 ra (push32 new_thread s)))))"

section \<open>thread.c\<close>

definition init_threading :: "nat \<Rightarrow> 'a sched_scheme \<Rightarrow> kerror + u32 \<times> 'a sched_scheme" where
  "init_threading n s =
     ebind (kmalloc n SIZEOF_thread_t s) (\<lambda>(thread, s).
       let s = s\<lparr>mem := write32 (thread + 24) (next_tid s) (mem s), next_tid := next_tid s + 1\<rparr>
       in Inr (thread, s\<lparr>thread_c_current := thread\<rparr>))"

text \<open>\<open>exit_addr\<close> is the address of \<open>thread_exit\<close>.\<close>

definition create_thread ::
  "nat \<Rightarrow> u32 \<Rightarrow> u32 \<Rightarrow> u32 \<Rightarrow> u32 \<Rightarrow> 'a sched_scheme \<Rightarrow> kerror + u32 \<times> 'a sched_scheme" where
  "create_thread n exit_addr fn arg stack s =
     ebind (kmalloc n SIZEOF_thread_t s) (\<lambda>(thread, s).
       let m = memset thread 0 SIZEOF_thread_t (mem s);
           m = write32 (thread + 24) (next_tid s) m;
           stack = stack - 4; m = write32 stack arg m;
           stack = stack - 4; m = write32 stack exit_addr m;
           stack = stack - 4; m = write32 stack fn m;
           m = write32 (thread + 0) stack m;
           m = write32 (thread + 4) 0 m;
           m = write32 (thread + 20) 0x200 m
       in ebind (thread_is_ready n thread (s\<lparr>mem := m, next_tid := next_tid s + 1\<rparr>)) (\<lambda>s. Inr (thread, s)))"

text \<open>\<open>thread_exit\<close> prints the value of \<open>eax\<close> and loops; the result is the machine in which it loops.\<close>

definition thread_exit :: "u32 \<Rightarrow> 'a screen_scheme \<Rightarrow> kerror + 'a screen_scheme" where
  "thread_exit eax s = printk (bytes ''Thread exited with value %d'' @ [10]) [Word eax] s"

section \<open>Lists of nodes\<close>

text \<open>\<open>qseg m p q e\<close>: following \<open>next\<close> from \<open>p\<close> one meets the nodes of \<open>q\<close>, pairs of address and thread,
  and then \<open>e\<close>. The queue itself ends in the null pointer.\<close>

fun qseg :: "mem \<Rightarrow> u32 \<Rightarrow> (u32 \<times> u32) list \<Rightarrow> u32 \<Rightarrow> bool" where
  "qseg m p [] e \<longleftrightarrow> p = e"
| "qseg m p ((a, t) # q) e \<longleftrightarrow> p = a \<and> a \<noteq> 0 \<and> tl_thread m a = t \<and> qseg m (tl_next m a) q e"

definition node_cells :: "u32 \<Rightarrow> u32 set" where
  "node_cells a = addr_range a 8"

text \<open>No two nodes of a list overlap.\<close>

definition nodes_apart :: "u32 list \<Rightarrow> bool" where
  "nodes_apart xs \<longleftrightarrow> sorted_wrt (\<lambda>a b. node_cells a \<inter> node_cells b = {}) xs"

lemma node_words: "addr_range a 4 \<subseteq> node_cells a" "addr_range (a + 4) 4 \<subseteq> node_cells a"
  using addr_sub [of 0 4 8 a] addr_sub [of 4 4 8 a] by (simp_all add: node_cells_def del: addr_range_code)

lemma node_agree:
  assumes "\<And>x. x \<in> node_cells a \<Longrightarrow> m' x = m x"
  shows "tl_thread m' a = tl_thread m a" "tl_next m' a = tl_next m a"
  unfolding tl_thread_def tl_next_def using assms node_words by (blast intro: read32_cong)+

lemma qseg_agree:
  assumes "\<And>a x. a \<in> fst ` set q \<Longrightarrow> x \<in> node_cells a \<Longrightarrow> m' x = m x"
  shows "qseg m' p q e = qseg m p q e"
  using assms
proof (induction q arbitrary: p)
  case (Cons b q)
  obtain a t where b: "b = (a, t)" by (cases b)
  have same: "m' x = m x" if "x \<in> node_cells a" for x using Cons.prems [OF _ that] b by simp
  have "tl_thread m' a = tl_thread m a" by (rule node_agree(1)) (rule same)
  moreover have "tl_next m' a = tl_next m a" by (rule node_agree(2)) (rule same)
  moreover have "qseg m' r q e = qseg m r q e" for r
  proof (rule Cons.IH)
    fix c x assume "c \<in> fst ` set q" "x \<in> node_cells c"
    then show "m' x = m x" using Cons.prems [of c x] by simp
  qed
  ultimately show ?case using b by simp
qed simp

lemma qseg_append: "qseg m p (q1 @ q2) e \<longleftrightarrow> (\<exists>x. qseg m p q1 x \<and> qseg m x q2 e)"
  by (induction m p q1 e rule: qseg.induct) auto

lemma qseg_nonnull: "qseg m p (b # q) e \<Longrightarrow> p \<noteq> 0"
  by (cases b) simp

lemma write_next_outside: "x \<notin> node_cells a \<Longrightarrow> write32 (a + 4) v m x = m x"
  using node_words(2) by (intro write32_outside) blast

lemma write_next_self:
  "tl_next (write32 (a + 4) v m) a = v" "tl_thread (write32 (a + 4) v m) a = tl_thread m a"
  by (simp_all add: tl_next_def tl_thread_def read_field)

text \<open>The walk finds the last node; relinking it appends.\<close>

lemma last_node_qseg:
  "qseg m p (q @ [(a, t)]) 0 \<Longrightarrow> length q < n \<Longrightarrow> last_node n m p = Inr a"
proof (induction q arbitrary: p n)
  case Nil
  then show ?case by (cases n) auto
next
  case (Cons b q)
  obtain c u where b: "b = (c, u)" by (cases b)
  have s: "qseg m (tl_next m c) (q @ [(a, t)]) 0" "p = c" using Cons.prems(1) b by simp_all
  obtain k where n: "n = Suc k" "length q < k" using Cons.prems(2) by (cases n) auto
  have "tl_next m c \<noteq> 0" using s(1) by (cases q) (auto dest: qseg_nonnull)
  then show ?case using Cons.IH [OF s(1) n(2)] n(1) s(2) by simp
qed

lemma qseg_relink:
  assumes "qseg m p (q @ [(a, t)]) e" "\<And>b. b \<in> fst ` set q \<Longrightarrow> node_cells b \<inter> node_cells a = {}"
  shows "qseg (write32 (a + 4) e' m) p (q @ [(a, t)]) e'"
proof -
  obtain x where x: "qseg m p q x" "qseg m x [(a, t)] e" using assms(1) unfolding qseg_append by blast
  have "qseg (write32 (a + 4) e' m) p q x"
  proof (subst qseg_agree [of q])
    fix b x assume "b \<in> fst ` set q" "x \<in> node_cells b"
    then have "x \<notin> node_cells a" using assms(2) by blast
    then show "write32 (a + 4) e' m x = m x" by (rule write_next_outside)
  qed (rule x(1))
  then show ?thesis using x(2) unfolding qseg_append by (auto simp: write_next_self)
qed

text \<open>Appending a detached node to a queue, the common step of \<open>thread_is_ready\<close> and \<open>schedule\<close>.\<close>

lemma qseg_enqueue:
  assumes q: "qseg m p (q @ [(a, t)]) 0" and c: "c \<noteq> 0" "tl_thread m c = u" "tl_next m c = 0"
    and apart: "nodes_apart (map fst (q @ [(a, t)]) @ [c])"
  shows "qseg (write32 (a + 4) c m) p (q @ [(a, t), (c, u)]) 0"
proof -
  have ap: "node_cells b \<inter> node_cells a = {}" if "b \<in> fst ` set q" for b
    using apart that by (auto simp: nodes_apart_def sorted_wrt_append)
  have ac: "node_cells a \<inter> node_cells c = {}" using apart by (simp add: nodes_apart_def sorted_wrt_append)
  let ?m = "write32 (a + 4) c m"
  have "qseg ?m p (q @ [(a, t)]) c" by (rule qseg_relink [OF q ap])
  moreover have "qseg ?m c [(c, u)] 0"
  proof -
    have "?m x = m x" if "x \<in> node_cells c" for x using that ac by (intro write_next_outside) blast
    then show ?thesis using c node_agree [of c ?m m] by simp
  qed
  ultimately have "qseg ?m p ((q @ [(a, t)]) @ [(c, u)]) 0" unfolding qseg_append by blast
  then show ?thesis by simp
qed

section \<open>Contexts\<close>

definition thread_cells :: "u32 \<Rightarrow> u32 set" where
  "thread_cells t = addr_range t 28"

lemma thread_words: "d \<in> {0, 4, 8, 12, 16, 20, 24} \<Longrightarrow> addr_range (t + d) 4 \<subseteq> thread_cells t"
  unfolding thread_cells_def by (rule addr_sub) auto

lemma thread_word_other:
  assumes "addr_range b 4 \<inter> thread_cells t = {}" "d \<in> {0, 4, 8, 12, 16, 20, 24}"
  shows "read32 (write32 b v m) (t + d) = read32 m (t + d)" "read32 (write32 (t + d) v m) b = read32 m b"
  using assms(1) thread_words [OF assms(2), of t] by (intro read32_write32_other; blast)+

text \<open>The words of the thread at \<open>t\<close> are those of the registers \<open>c\<close>.\<close>

definition context_of :: "mem \<Rightarrow> u32 \<Rightarrow> cpu \<Rightarrow> bool" where
  "context_of m t c \<longleftrightarrow> read32 m t = cpu_esp c \<and> read32 m (t + 4) = cpu_ebp c \<and> read32 m (t + 8) = cpu_ebx c
     \<and> read32 m (t + 12) = cpu_esi c \<and> read32 m (t + 16) = cpu_edi c \<and> read32 m (t + 20) = cpu_eflags c"

lemma save_context_saves:
  assumes "addr_range (cpu_esp c - 4) 4 \<inter> thread_cells t = {}"
  shows "context_of (save_context t c m) t c"
proof -
  note other = thread_word_other(1) [OF assms]
  have z: "read32 (write32 (t + e) v m) t = read32 m t" if "e \<in> {4, 8, 12, 16, 20}" for e v m
    using read32_field [of 0 e t v m] that by (elim insertE) simp_all
  have o: "read32 (write32 (cpu_esp c - 4) v m) t = read32 m t" for v m using other [of 0] by simp
  show ?thesis
    by (simp add: context_of_def save_context_def Let_def read32_field other z o)
qed

lemma save_context_outside:
  assumes "x \<notin> thread_cells t" "x \<notin> addr_range (cpu_esp c - 4) 4"
  shows "save_context t c m x = m x"
proof -
  have out: "write32 (t + d) v m x = m x" if "d \<in> {0, 4, 8, 12, 16, 20}" for d v m
    using assms(1) thread_words [of d t] that by (intro write32_outside) blast
  have out0: "write32 t v m x = m x" for v m using out [of 0] by simp
  show ?thesis
    using out out0 write32_outside [OF assms(2)] by (simp add: save_context_def Let_def)
qed

lemma load_context_spec:
  assumes "context_of m t c" "addr_range (cpu_esp c - 4) 4 \<inter> thread_cells t = {}"
  shows "snd (load_context t m) = c\<lparr>cpu_esp := cpu_esp c + 4, cpu_eip := read32 m (cpu_esp c)\<rparr>"
    "x \<notin> addr_range (cpu_esp c - 4) 4 \<Longrightarrow> fst (load_context t m) x = m x"
proof -
  have "read32 (write32 (cpu_esp c - 4) v m) (cpu_esp c) = read32 m (cpu_esp c)" for v
    using read32_field [of 4 0 "cpu_esp c - 4" v m] by simp
  then show "snd (load_context t m) = c\<lparr>cpu_esp := cpu_esp c + 4, cpu_eip := read32 m (cpu_esp c)\<rparr>"
    using assms(1) by (simp add: load_context_def context_of_def Let_def)
  show "x \<notin> addr_range (cpu_esp c - 4) 4 \<Longrightarrow> fst (load_context t m) x = m x"
    using assms(1) by (simp add: load_context_def context_of_def Let_def write32_outside del: addr_range_code)
qed

lemma context_agree:
  assumes "\<And>x. x \<in> thread_cells t \<Longrightarrow> m' x = m x"
  shows "context_of m' t c = context_of m t c"
proof -
  have r: "read32 m' (t + d) = read32 m (t + d)" if "d \<in> {0, 4, 8, 12, 16, 20}" for d
  proof (rule read32_cong)
    fix x assume "x \<in> addr_range (t + d) 4"
    then have "x \<in> thread_cells t" using thread_words [of d t] that by blast
    then show "m' x = m x" by (rule assms)
  qed
  show ?thesis using r r [of 0] by (simp add: context_of_def)
qed

section \<open>The context switch\<close>

definition all_apart :: "u32 set list \<Rightarrow> bool" where
  "all_apart As \<longleftrightarrow> sorted_wrt (\<lambda>A B. A \<inter> B = {}) As"

text \<open>
  The memory that a switch touches does not overlap: the stack of the old thread around the call, its
  context, the context of the new thread, and the top of the stack of the new thread. The node that is
  passed lies outside what is written before it is read.
\<close>

definition switch_apart :: "'a sched_scheme \<Rightarrow> u32 \<Rightarrow> cpu \<Rightarrow> bool" where
  "switch_apart s nx c' \<longleftrightarrow> all_apart [node_cells nx, addr_range (cpu_esp (cpu s) - 4) 12,
     thread_cells (tl_thread (mem s) (current_thread s)), thread_cells (tl_thread (mem s) nx),
     addr_range (cpu_esp c' - 4) 8]"

lemma stack_parts:
  "addr_range (e - 4) 4 \<subseteq> addr_range (e - 4) 12" "addr_range (e + 4) 4 \<subseteq> addr_range (e - 4) 12"
  "addr_range (e - 4) 4 \<subseteq> addr_range (e - 4) 8" "addr_range e 4 \<subseteq> addr_range (e - 4) 8"
  using addr_sub [of 0 4 12 "e - 4"] addr_sub [of 8 4 12 "e - 4"] addr_sub [of 0 4 8 "e - 4"] addr_sub [of 4 4 8 "e - 4"]
  by (simp_all add: add.commute del: addr_range_code)

lemma return_slots_apart: "addr_range (e + 4) 4 \<inter> addr_range (e - 4) 4 = {}"
proof -
  have eq: "e - 4 + 8 = e + 4" "e - 4 + 0 = (e - 4 :: u32)" by simp_all
  have "addr_range (e - 4 + 8) 4 \<inter> addr_range (e - 4 + 0) 4 = {}" by (rule fields_apart) simp_all
  then show ?thesis unfolding eq .
qed

text \<open>The memory behind the first half of the switch still has the argument and what is to be loaded.\<close>

lemma switch_saved:
  fixes s :: "'a sched_scheme"
  defines "t \<equiv> tl_thread (mem s) (current_thread s)" and "e \<equiv> cpu_esp (cpu s)"
  defines "m \<equiv> save_context t (cpu s) (mem s)"
  assumes arg: "read32 (mem s) (e + 4) = nx"
    and ctx: "context_of (mem s) (tl_thread (mem s) nx) c'" and apart: "switch_apart s nx c'"
  shows "read32 m (e + 4) = nx" "tl_thread m nx = tl_thread (mem s) nx" "context_of m (tl_thread (mem s) nx) c'"
    "\<And>x. x \<notin> thread_cells t \<Longrightarrow> x \<notin> addr_range (e - 4) 4 \<Longrightarrow> m x = mem s x"
proof -
  let ?t' = "tl_thread (mem s) nx"
  have ap: "node_cells nx \<inter> addr_range (e - 4) 12 = {}" "node_cells nx \<inter> thread_cells t = {}"
    "addr_range (e - 4) 12 \<inter> thread_cells t = {}" "addr_range (e - 4) 12 \<inter> thread_cells ?t' = {}" "thread_cells t \<inter> thread_cells ?t' = {}"
    using apart by (simp_all add: switch_apart_def all_apart_def t_def e_def)
  note sp = stack_parts [of e]
  show out: "m x = mem s x" if "x \<notin> thread_cells t" "x \<notin> addr_range (e - 4) 4" for x
    unfolding m_def by (rule save_context_outside) (use that in \<open>simp_all only: e_def not_False_eq_True\<close>)
  have "addr_range (e + 4) 4 \<inter> addr_range (e - 4) 4 = {}" by (rule return_slots_apart)
  then have "read32 m (e + 4) = read32 (mem s) (e + 4)"
    using ap(3) sp(2) by (intro read32_cong out) blast+
  then show "read32 m (e + 4) = nx" using arg by simp
  show "tl_thread m nx = ?t'" by (rule node_agree(1), rule out) (use ap(1,2) sp(1) in blast)+
  show "context_of m ?t' c'" using ctx by (subst context_agree [of ?t' m "mem s"]) (use ap(4,5) sp(1) out in blast)+
qed

lemma switch_thread_spec:
  assumes arg: "read32 (mem s) (cpu_esp (cpu s) + 4) = nx"
    and ctx: "context_of (mem s) (tl_thread (mem s) nx) c'" and apart: "switch_apart s nx c'"
  shows "current_thread (switch_thread s) = nx"
    "cpu (switch_thread s) = c'\<lparr>cpu_esp := cpu_esp c' + 4, cpu_eip := read32 (mem s) (cpu_esp c')\<rparr>"
    "context_of (mem (switch_thread s)) (tl_thread (mem s) (current_thread s)) (cpu s)"
    "\<And>x. x \<notin> thread_cells (tl_thread (mem s) (current_thread s)) \<Longrightarrow> x \<notin> addr_range (cpu_esp (cpu s) - 4) 4 \<Longrightarrow>
       x \<notin> addr_range (cpu_esp c' - 4) 4 \<Longrightarrow> mem (switch_thread s) x = mem s x"
    "ready_queue (switch_thread s) = ready_queue s" "next_tid (switch_thread s) = next_tid s"
proof -
  let ?t = "tl_thread (mem s) (current_thread s)"
  let ?t' = "tl_thread (mem s) nx"
  let ?e = "cpu_esp (cpu s)"
  define m where "m = save_context ?t (cpu s) (mem s)"
  have ap: "node_cells nx \<inter> addr_range (?e - 4) 12 = {}" "node_cells nx \<inter> thread_cells ?t = {}"
    "addr_range (?e - 4) 12 \<inter> thread_cells ?t = {}" "addr_range (?e - 4) 12 \<inter> thread_cells ?t' = {}"
    "addr_range (?e - 4) 12 \<inter> addr_range (cpu_esp c' - 4) 8 = {}" "thread_cells ?t \<inter> thread_cells ?t' = {}"
    "thread_cells ?t \<inter> addr_range (cpu_esp c' - 4) 8 = {}" "thread_cells ?t' \<inter> addr_range (cpu_esp c' - 4) 8 = {}"
    using apart by (simp_all add: switch_apart_def all_apart_def)
  note sp = stack_parts [of ?e]
  note sp' = stack_parts [of "cpu_esp c'"]
  have push: "addr_range (?e - 4) 4 \<inter> thread_cells ?t = {}" using ap(3) sp(1) by blast
  note sv = switch_saved [OF arg ctx apart, folded m_def]
  note arg' = sv(1) and t' = sv(2) and ctx' = sv(3) and out = sv(4)
  have stk: "addr_range (cpu_esp c' - 4) 4 \<inter> thread_cells ?t' = {}" using ap(8) sp'(3) by blast
  have eip: "read32 m (cpu_esp c') = read32 (mem s) (cpu_esp c')"
    by (rule read32_cong, rule out) (use ap(5,7) sp'(4) sp(1) in blast)+
  note ld = load_context_spec [OF ctx' stk]
  have run: "switch_thread s = s\<lparr>mem := fst (load_context ?t' m), current_thread := nx, cpu := snd (load_context ?t' m)\<rparr>"
    by (simp add: switch_thread_def Let_def case_prod_beta arg' t' flip: m_def)
  show "current_thread (switch_thread s) = nx" "ready_queue (switch_thread s) = ready_queue s"
    "next_tid (switch_thread s) = next_tid s"
    by (simp_all add: run)
  show "cpu (switch_thread s) = c'\<lparr>cpu_esp := cpu_esp c' + 4, cpu_eip := read32 (mem s) (cpu_esp c')\<rparr>"
    by (simp add: run ld(1) eip)
  have "context_of m ?t (cpu s)" unfolding m_def by (rule save_context_saves [OF push])
  then show "context_of (mem (switch_thread s)) ?t (cpu s)"
    unfolding run by (subst context_agree [of ?t _ m]) (use ld(2) ap(7) sp'(3) in \<open>auto simp del: addr_range_code\<close>)
  show "mem (switch_thread s) x = mem s x"
    if "x \<notin> thread_cells ?t" "x \<notin> addr_range (?e - 4) 4" "x \<notin> addr_range (cpu_esp c' - 4) 4" for x
    using that out ld(2) by (simp add: run del: addr_range_code)
qed

section \<open>One turn of the scheduler\<close>

text \<open>
  What a turn of the scheduler touches does not overlap: the nodes of the queue and of the running
  thread, twelve bytes of the stack of the running thread (the argument, the return address and the
  flags), the contexts of the running and of the next thread, and the top of the stack of the next one.
\<close>

definition turn_apart :: "'a sched_scheme \<Rightarrow> (u32 \<times> u32) list \<Rightarrow> cpu \<Rightarrow> bool" where
  "turn_apart s q c1 \<longleftrightarrow> all_apart (map (node_cells \<circ> fst) q @ [node_cells (current_thread s),
     addr_range (cpu_esp (cpu s) - 12) 12, thread_cells (tl_thread (mem s) (current_thread s)),
     thread_cells (snd (hd q)), addr_range (cpu_esp c1 - 4) 8])"

lemma all_apart_append:
  "all_apart (As @ Bs) \<longleftrightarrow> all_apart As \<and> all_apart Bs \<and> (\<forall>A \<in> set As. \<forall>B \<in> set Bs. A \<inter> B = {})"
  by (auto simp: all_apart_def sorted_wrt_append)

lemma turn_apartD:
  assumes "turn_apart s q c1"
  shows "all_apart (map (node_cells \<circ> fst) q)"
    "\<And>a. a \<in> fst ` set q \<Longrightarrow> node_cells a \<inter> (node_cells (current_thread s) \<union> addr_range (cpu_esp (cpu s) - 12) 12
       \<union> thread_cells (tl_thread (mem s) (current_thread s)) \<union> thread_cells (snd (hd q)) \<union> addr_range (cpu_esp c1 - 4) 8) = {}"
    "node_cells (current_thread s) \<inter> (addr_range (cpu_esp (cpu s) - 12) 12
       \<union> thread_cells (tl_thread (mem s) (current_thread s)) \<union> thread_cells (snd (hd q)) \<union> addr_range (cpu_esp c1 - 4) 8) = {}"
    "all_apart [addr_range (cpu_esp (cpu s) - 12) 12, thread_cells (tl_thread (mem s) (current_thread s)),
       thread_cells (snd (hd q)), addr_range (cpu_esp c1 - 4) 8]"
proof -
  note ap = assms [unfolded turn_apart_def all_apart_append]
  show "all_apart (map (node_cells \<circ> fst) q)" using ap by blast
  show "node_cells a \<inter> (node_cells (current_thread s) \<union> addr_range (cpu_esp (cpu s) - 12) 12
       \<union> thread_cells (tl_thread (mem s) (current_thread s)) \<union> thread_cells (snd (hd q)) \<union> addr_range (cpu_esp c1 - 4) 8) = {}"
    if "a \<in> fst ` set q" for a
    using ap that by (auto simp del: addr_range_code)
  show "node_cells (current_thread s) \<inter> (addr_range (cpu_esp (cpu s) - 12) 12
       \<union> thread_cells (tl_thread (mem s) (current_thread s)) \<union> thread_cells (snd (hd q)) \<union> addr_range (cpu_esp c1 - 4) 8) = {}"
    using ap by (simp add: all_apart_def Int_Un_distrib del: addr_range_code)
  show "all_apart [addr_range (cpu_esp (cpu s) - 12) 12, thread_cells (tl_thread (mem s) (current_thread s)),
       thread_cells (snd (hd q)), addr_range (cpu_esp c1 - 4) 8]"
    using ap by (simp add: all_apart_def del: addr_range_code)
qed

text \<open>Moving the running node to the end of the queue.\<close>

lemma qseg_rotate:
  assumes q: "qseg m p (q @ [(a, t)]) 0" and c: "c \<noteq> 0" "tl_thread m c = u"
    and apart: "all_apart (map (node_cells \<circ> fst) (q @ [(a, t)]))" "\<And>b. b \<in> fst ` set (q @ [(a, t)]) \<Longrightarrow> node_cells b \<inter> node_cells c = {}"
  shows "qseg (write32 (c + 4) 0 (write32 (a + 4) c m)) p (q @ [(a, t), (c, u)]) 0"
proof -
  let ?m = "write32 (a + 4) c m"
  have ap: "node_cells b \<inter> node_cells a = {}" if "b \<in> fst ` set q" for b
    using apart(1) that by (auto simp: all_apart_def sorted_wrt_append simp del: addr_range_code)
  have ac: "node_cells a \<inter> node_cells c = {}" using apart(2) [of a] by simp
  have "qseg ?m p (q @ [(a, t)]) c" by (rule qseg_relink [OF q ap])
  then have "qseg (write32 (c + 4) 0 ?m) p (q @ [(a, t)]) c"
  proof (subst qseg_agree [of "q @ [(a, t)]" _ ?m])
    fix b x assume "b \<in> fst ` set (q @ [(a, t)])" "x \<in> node_cells b"
    then have "x \<notin> node_cells c" using apart(2) by blast
    then show "write32 (c + 4) 0 ?m x = ?m x" by (rule write_next_outside)
  qed
  moreover have "tl_thread ?m c = u"
    using c(2) ac by (subst node_agree(1) [of c ?m m]) (use write_next_outside in blast)+
  then have "qseg (write32 (c + 4) 0 ?m) c [(c, u)] 0" using c(1) by (simp add: write_next_self)
  ultimately have "qseg (write32 (c + 4) 0 ?m) p ((q @ [(a, t)]) @ [(c, u)]) 0" unfolding qseg_append by blast
  then show ?thesis by simp
qed

lemma push_parts:
  "addr_range (e - 4) 4 \<subseteq> addr_range (e - 12) 12" "addr_range (e - 8) 4 \<subseteq> addr_range (e - 12) 12"
  "addr_range (e - 12) 4 \<subseteq> addr_range (e - 12) 12" "addr_range (e - 8) 8 \<subseteq> addr_range (e - 12) 12"
proof -
  have eq: "e - 4 = e - 12 + 8" "e - 8 = e - 12 + 4" "e - 12 = e - 12 + 0" for e :: u32 by simp_all
  show "addr_range (e - 4) 4 \<subseteq> addr_range (e - 12) 12" unfolding eq(1) by (rule addr_sub) simp_all
  show "addr_range (e - 8) 4 \<subseteq> addr_range (e - 12) 12" unfolding eq(2) by (rule addr_sub) simp_all
  show "addr_range (e - 12) 4 \<subseteq> addr_range (e - 12) 12" by (subst (1) eq(3), rule addr_sub) simp_all
  show "addr_range (e - 8) 8 \<subseteq> addr_range (e - 12) 12" unfolding eq(2) by (rule addr_sub) simp_all
qed

text \<open>
  The state in which \<open>schedule\<close> enters \<open>switch_thread\<close>, with the queue turned and the argument and the
  return address on the stack.
\<close>

definition turned :: "u32 \<Rightarrow> u32 \<Rightarrow> 'a sched_scheme \<Rightarrow> 'a sched_scheme" where
  "turned ra a s =
     (let m = write32 (current_thread s + 4) 0 (write32 (a + 4) (current_thread s) (mem s))
      in s\<lparr>ready_queue := tl_next m (ready_queue s),
           mem := write32 (cpu_esp (cpu s) - 8) ra (write32 (cpu_esp (cpu s) - 4) (ready_queue s) m), cpu := (cpu s)\<lparr>cpu_esp := cpu_esp (cpu s) - 8\<rparr>\<rparr>)"

lemma schedule_turned:
  assumes "qseg (mem s) (ready_queue s) (q @ [(a, t)]) 0" "length q < n"
  shows "schedule n ra s = Inr (switch_thread (turned ra a s))"
proof -
  have "ready_queue s \<noteq> 0" using assms(1) by (cases q) (auto dest: qseg_nonnull)
  then show ?thesis
    by (simp add: schedule_def turned_def push32_def Let_def last_node_qseg [OF assms])
qed

lemma turned_outside:
  assumes "x \<notin> node_cells a" "x \<notin> node_cells (current_thread s)" "x \<notin> addr_range (cpu_esp (cpu s) - 12) 12"
  shows "mem (turned ra a s) x = mem s x"
proof -
  have "x \<notin> addr_range (cpu_esp (cpu s) - 4) 4" "x \<notin> addr_range (cpu_esp (cpu s) - 8) 4"
    using assms(3) push_parts [of "cpu_esp (cpu s)"] by blast+
  then show ?thesis
    using assms by (simp add: turned_def Let_def write32_outside write_next_outside del: addr_range_code)
qed

lemma turned_stack:
  "read32 (mem (turned ra a s)) (cpu_esp (cpu s) - 8 + 4) = ready_queue s"
  "read32 (mem (turned ra a s)) (cpu_esp (cpu s) - 8) = ra"
proof -
  have eq: "cpu_esp (cpu s) - 8 + 4 = cpu_esp (cpu s) - 4" by simp
  have "read32 (write32 (cpu_esp (cpu s) - 8) v m) (cpu_esp (cpu s) - 8 + 4) = read32 m (cpu_esp (cpu s) - 8 + 4)" for v m
    using read32_field [of 4 0 "cpu_esp (cpu s) - 8" v m] by (simp del: diff_add_cancel)
  then show "read32 (mem (turned ra a s)) (cpu_esp (cpu s) - 8 + 4) = ready_queue s"
    by (simp add: turned_def Let_def eq)
  show "read32 (mem (turned ra a s)) (cpu_esp (cpu s) - 8) = ra"
    by (simp add: turned_def Let_def)
qed

text \<open>The state \<open>turned ra a s\<close> is one in which \<open>switch_thread\<close> can run; its queue is the old one with the running thread behind.\<close>

lemma turned_ready:
  fixes s :: "'a sched_scheme" and ra :: u32
  defines "c \<equiv> current_thread s" and "tc \<equiv> tl_thread (mem s) (current_thread s)" and "e \<equiv> cpu_esp (cpu s)"
  assumes q: "qseg (mem s) (ready_queue s) q 0" "q = q0 @ [(a, t)]" "q = (n1, t1) # q'" and c: "c \<noteq> 0"
    and ctx: "context_of (mem s) t1 c1" and apart: "turn_apart s q c1"
  defines "s1 \<equiv> turned ra a s"
    and "X \<equiv> addr_range (e - 12) 12 \<union> thread_cells tc \<union> thread_cells t1 \<union> addr_range (cpu_esp c1 - 4) 8"
  shows "read32 (mem s1) (e - 8 + 4) = n1" "context_of (mem s1) (tl_thread (mem s1) n1) c1" "switch_apart s1 n1 c1"
    "tl_thread (mem s1) n1 = t1" "tl_thread (mem s1) c = tc"
    "\<And>m. (\<And>x. x \<notin> X \<Longrightarrow> m x = mem s1 x) \<Longrightarrow> qseg m (ready_queue s1) (q' @ [(c, tc)]) 0"
    "node_cells n1 \<inter> X = {}"
proof -
  have n1: "ready_queue s = n1" using q(1,3) by simp
  note ap = turn_apartD [OF apart, folded c_def tc_def e_def, unfolded q(3), unfolded list.sel snd_conv, folded q(3)]
  have e1: "cpu_esp (cpu s1) = e - 8" and cur1: "current_thread s1 = c" and cpu1: "cpu s1 = (cpu s)\<lparr>cpu_esp := e - 8\<rparr>"
    by (simp_all add: s1_def turned_def Let_def c_def e_def)
  have a_in: "a \<in> fst ` set q" using q(2) by simp
  have n1_in: "n1 \<in> fst ` set q" using q(3) by simp
  have out: "mem s1 x = mem s x" if "x \<notin> node_cells a" "x \<notin> node_cells c" "x \<notin> addr_range (e - 12) 12" for x
    using turned_outside [of x a s ra] that by (simp add: s1_def c_def e_def del: addr_range_code)
  have q1: "qseg (write32 (c + 4) 0 (write32 (a + 4) c (mem s))) n1 (q @ [(c, tc)]) 0"
    using qseg_rotate [of "mem s" n1 q0 a t c tc] q(1) n1 c ap(1,2) q(2) by (auto simp: c_def tc_def simp del: addr_range_code)
  have pushes: "mem s1 x = write32 (c + 4) 0 (write32 (a + 4) c (mem s)) x" if "x \<notin> addr_range (e - 12) 12" for x
  proof -
    have "x \<notin> addr_range (e - 4) 4" "x \<notin> addr_range (e - 8) 4" using that push_parts [of e] by blast+
    then show ?thesis by (simp add: s1_def turned_def Let_def c_def e_def write32_outside del: addr_range_code)
  qed
  have node_X: "node_cells b \<inter> X = {}" if "b \<in> fst ` set (q @ [(c, tc)])" for b
    using ap(2) [of b] ap(3) that by (auto simp: X_def simp del: addr_range_code)
  have q_move: "qseg m p r z"
    if "qseg (write32 (c + 4) 0 (write32 (a + 4) c (mem s))) p r z" "set r \<subseteq> set (q @ [(c, tc)])"
      "\<And>x. x \<notin> X \<Longrightarrow> m x = mem s1 x" for m p r z
  proof (subst qseg_agree)
    fix b x assume "b \<in> fst ` set r" and x: "x \<in> node_cells b"
    then have b: "b \<in> fst ` set (q @ [(c, tc)])" using that(2) by blast
    have "x \<notin> X" using node_X [OF b] x by blast
    moreover from this have "x \<notin> addr_range (e - 12) 12" by (simp add: X_def del: addr_range_code)
    ultimately show "m x = write32 (c + 4) 0 (write32 (a + 4) c (mem s)) x" using that(3) pushes by simp
  qed (rule that(1))
  have q2: "qseg (mem s1) n1 (q @ [(c, tc)]) 0" by (rule q_move [OF q1]) simp_all
  show thr: "tl_thread (mem s1) n1 = t1" "tl_thread (mem s1) c = tc"
    using q2 q(3) by (auto simp: qseg_append)
  show "context_of (mem s1) (tl_thread (mem s1) n1) c1"
    unfolding thr
  proof (subst context_agree [of t1 _ "mem s"])
    fix x assume "x \<in> thread_cells t1"
    then show "mem s1 x = mem s x"
      using ap(2) [OF a_in] ap(3,4) by (intro out) (auto simp: all_apart_def simp del: addr_range_code)
  qed (rule ctx)
  show "switch_apart s1 n1 c1"
    using ap(2) [OF n1_in] ap(4)
    by (simp add: switch_apart_def e1 cur1 thr all_apart_def Int_Un_distrib del: addr_range_code)
  show "read32 (mem s1) (e - 8 + 4) = n1" using turned_stack(1) [of ra a s] n1 by (simp add: s1_def e_def)
  show "node_cells n1 \<inter> X = {}" by (rule node_X) (use n1_in in auto)
  have next1: "ready_queue s1 = tl_next (write32 (c + 4) 0 (write32 (a + 4) c (mem s))) n1"
    by (simp add: s1_def turned_def Let_def c_def n1)
  show "qseg m (ready_queue s1) (q' @ [(c, tc)]) 0" if "\<And>x. x \<notin> X \<Longrightarrow> m x = mem s1 x" for m
    by (rule q_move) (use q1 next1 q(3) that in auto)
qed

text \<open>
  \<open>schedule\<close> with a queue \<open>q\<close>: the head of the queue runs with its saved registers, the thread that ran
  is saved behind the call and goes to the end of the queue.
\<close>

lemma schedule_turn:
  fixes s :: "'a sched_scheme"
  defines "c \<equiv> current_thread s" and "tc \<equiv> tl_thread (mem s) (current_thread s)" and "e \<equiv> cpu_esp (cpu s)"
  assumes q: "qseg (mem s) (ready_queue s) q 0" "q \<noteq> []" "length q \<le> n" and c: "c \<noteq> 0"
    and ctx: "context_of (mem s) (snd (hd q)) c1" and apart: "turn_apart s q c1"
  obtains s' where "schedule n ra s = Inr s'" "current_thread s' = fst (hd q)"
    "qseg (mem s') (ready_queue s') (tl q @ [(c, tc)]) 0" "tl_thread (mem s') (fst (hd q)) = snd (hd q)"
    "cpu s' = c1\<lparr>cpu_esp := cpu_esp c1 + 4, cpu_eip := read32 (mem s) (cpu_esp c1)\<rparr>"
    "context_of (mem s') tc ((cpu s)\<lparr>cpu_esp := e - 8\<rparr>)" "read32 (mem s') (e - 8) = ra"
    "\<And>x. x \<notin> node_cells (fst (last q)) \<union> node_cells c \<union> addr_range (e - 12) 12 \<union> thread_cells tc \<union> addr_range (cpu_esp c1 - 4) 4 \<Longrightarrow>
       mem s' x = mem s x"
proof -
  obtain q0 a t where qa: "q = q0 @ [(a, t)]" using q(2) by (metis rev_exhaust surj_pair)
  obtain n1 t1 q' where qh: "q = (n1, t1) # q'" using q(2) by (metis list.exhaust surj_pair)
  have hd: "hd q = (n1, t1)" "tl q = q'" by (simp_all add: qh)
  have la: "fst (last q) = a" using qa by simp
  have n1: "ready_queue s = n1" using q(1) qh by simp
  define s1 where "s1 = turned ra a s"
  note ap = turn_apartD [OF apart, folded c_def tc_def e_def, unfolded hd snd_conv]
  have e1: "cpu_esp (cpu s1) = e - 8" and cur1: "current_thread s1 = c" and cpu1: "cpu s1 = (cpu s)\<lparr>cpu_esp := e - 8\<rparr>"
    by (simp_all add: s1_def turned_def Let_def c_def e_def)
  have a_in: "a \<in> fst ` set q" using qa by simp
  have n1_in: "n1 \<in> fst ` set q" using qh by simp
  have out: "mem s1 x = mem s x" if "x \<notin> node_cells a" "x \<notin> node_cells c" "x \<notin> addr_range (e - 12) 12" for x
    using turned_outside [of x a s ra] that by (simp add: s1_def c_def e_def del: addr_range_code)
  define X where "X = addr_range (e - 12) 12 \<union> thread_cells tc \<union> thread_cells t1 \<union> addr_range (cpu_esp c1 - 4) 8"
  have ctx': "context_of (mem s) t1 c1" using ctx hd by simp
  note rdy = turned_ready(1-6) [OF q(1) qa qh c [unfolded c_def] ctx' apart, where ra = ra, folded c_def tc_def e_def, folded s1_def X_def]
  note node_X = turned_ready(7) [OF q(1) qa qh c [unfolded c_def] ctx' apart, folded c_def tc_def e_def, folded X_def]
  note thr = rdy(4,5)
  note sw = switch_thread_spec [OF _ rdy(2,3), unfolded e1 cur1 thr, OF rdy(1)]
  have ret: "read32 (mem s1) (e - 8) = ra" using turned_stack(2) [of ra a s] by (simp add: s1_def e_def)
  let ?s' = "switch_thread s1"
  have out_X: "mem ?s' x = mem s1 x" if "x \<notin> X" for x
    using that push_parts(3) [of e] stack_parts(3) [of "cpu_esp c1"]
    by (intro sw(4)) (auto simp: X_def simp del: addr_range_code)
  show ?thesis
  proof (rule that [of ?s'])
    show "schedule n ra s = Inr ?s'"
      unfolding s1_def using schedule_turned [of s q0 a t n ra] q(1,3) qa by simp
    show "current_thread ?s' = fst (hd q)" using sw(1) hd by simp
    show "qseg (mem ?s') (ready_queue ?s') (tl q @ [(c, tc)]) 0"
      unfolding hd sw(5) by (rule rdy(6)) (rule out_X)
    show "tl_thread (mem ?s') (fst (hd q)) = snd (hd q)"
    proof -
      have "tl_thread (mem ?s') n1 = tl_thread (mem s1) n1" by (intro node_agree(1) out_X) (use node_X in blast)
      then show ?thesis using thr(1) hd by simp
    qed
    have "read32 (mem s1) (cpu_esp c1) = read32 (mem s) (cpu_esp c1)"
    proof (rule read32_cong)
      fix x assume "x \<in> addr_range (cpu_esp c1) 4"
      then have "x \<in> addr_range (cpu_esp c1 - 4) 8" using stack_parts(4) [of "cpu_esp c1"] by blast
      then show "mem s1 x = mem s x"
        using ap(2) [OF a_in] ap(3,4) by (intro out) (auto simp: all_apart_def simp del: addr_range_code)
    qed
    then show "cpu ?s' = c1\<lparr>cpu_esp := cpu_esp c1 + 4, cpu_eip := read32 (mem s) (cpu_esp c1)\<rparr>" using sw(2) by simp
    show "context_of (mem ?s') tc ((cpu s)\<lparr>cpu_esp := e - 8\<rparr>)" using sw(3) cpu1 by simp
    have "read32 (mem ?s') (e - 8) = read32 (mem s1) (e - 8)"
    proof (rule read32_cong, rule sw(4))
      fix x assume x: "x \<in> addr_range (e - 8) 4"
      then have st: "x \<in> addr_range (e - 12) 12" using push_parts(2) [of e] by blast
      show "x \<notin> thread_cells tc" using st ap(4) by (auto simp: all_apart_def simp del: addr_range_code)
      have "x \<notin> addr_range (cpu_esp c1 - 4) 8" using st ap(4) by (auto simp: all_apart_def simp del: addr_range_code)
      then show "x \<notin> addr_range (cpu_esp c1 - 4) 4" using stack_parts(3) [of "cpu_esp c1"] by blast
      have "addr_range (e - 12 + 4) 4 \<inter> addr_range (e - 12 + 0) 4 = {}" by (rule fields_apart) simp_all
      then show "x \<notin> addr_range (e - 8 - 4) 4" using x by (auto simp del: addr_range_code)
    qed
    then show "read32 (mem ?s') (e - 8) = ra" using ret by simp
    show "mem ?s' x = mem s x"
      if "x \<notin> node_cells (fst (last q)) \<union> node_cells c \<union> addr_range (e - 12) 12 \<union> thread_cells tc \<union> addr_range (cpu_esp c1 - 4) 4" for x
    proof -
      have x: "x \<notin> node_cells a" "x \<notin> node_cells c" "x \<notin> addr_range (e - 12) 12" "x \<notin> thread_cells tc"
        "x \<notin> addr_range (cpu_esp c1 - 4) 4"
        using that la by (simp_all del: addr_range_code)
      have "x \<notin> addr_range (e - 12) 4" using x(3) push_parts(3) [of e] by blast
      then have "mem ?s' x = mem s1 x" using x(4,5) by (intro sw(4)) (simp_all del: addr_range_code)
      then show ?thesis using out [OF x(1-3)] by simp
    qed
  qed
qed

end
