(* ===== verification/Round_Robin.thy ===== *)
theory Round_Robin
  imports Scheduler
begin

text \<open>
  The scheduler over many turns. The ring is the list of nodes with their threads, the running one
  first. Every thread has a stack of its own, the set \<open>stk t\<close>. \<open>ring_inv\<close> holds between the calls of
  \<open>schedule\<close>; a run is a sequence of calls and of the threads' own work, which leaves alone the nodes and
  the contexts and stacks of the threads that wait.
\<close>

section \<open>The ring of threads\<close>

text \<open>Nodes, contexts and stacks do not overlap.\<close>

definition ring_apart :: "(u32 \<Rightarrow> u32 set) \<Rightarrow> (u32 \<times> u32) list \<Rightarrow> bool" where
  "ring_apart stk r \<longleftrightarrow> distinct r
     \<and> (\<forall>(a, t) \<in> set r. \<forall>(b, u) \<in> set r.
          ((a, t) \<noteq> (b, u) \<longrightarrow> node_cells a \<inter> node_cells b = {} \<and> thread_cells t \<inter> thread_cells u = {} \<and> stk t \<inter> stk u = {})
        \<and> node_cells a \<inter> (thread_cells u \<union> stk u) = {} \<and> thread_cells t \<inter> stk u = {})"

lemma ring_apart_rotate: "ring_apart stk (rotate1 r) = ring_apart stk r"
  by (simp add: ring_apart_def)

lemma ring_apartD:
  assumes "ring_apart stk r" "(a, t) \<in> set r" "(b, u) \<in> set r"
  shows "node_cells a \<inter> thread_cells u = {}" "node_cells a \<inter> stk u = {}" "thread_cells t \<inter> stk u = {}"
    "(a, t) \<noteq> (b, u) \<Longrightarrow> node_cells a \<inter> node_cells b = {}"
    "(a, t) \<noteq> (b, u) \<Longrightarrow> thread_cells t \<inter> thread_cells u = {}"
    "(a, t) \<noteq> (b, u) \<Longrightarrow> stk t \<inter> stk u = {}"
  using assms unfolding ring_apart_def by (fastforce simp del: addr_range_code)+

lemma ring_apartP:
  assumes "ring_apart stk r" "p \<in> set r" "p' \<in> set r"
  shows "node_cells (fst p) \<inter> thread_cells (snd p') = {}" "node_cells (fst p) \<inter> stk (snd p') = {}"
    "thread_cells (snd p) \<inter> stk (snd p') = {}"
    "p \<noteq> p' \<Longrightarrow> thread_cells (snd p) \<inter> thread_cells (snd p') = {}"
    "p \<noteq> p' \<Longrightarrow> stk (snd p) \<inter> stk (snd p') = {}"
  using ring_apartD [OF assms(1), of "fst p" "snd p" "fst p'" "snd p'"] assms(2,3) by (simp_all add: prod_eq_iff)

text \<open>The registers that are saved for the thread at \<open>t\<close>; the program counter is on its stack.\<close>

definition saved_cpu :: "mem \<Rightarrow> u32 \<Rightarrow> cpu" where
  "saved_cpu m t = \<lparr>cpu_esp = read32 m t, cpu_ebp = read32 m (t + 4), cpu_ebx = read32 m (t + 8),
     cpu_esi = read32 m (t + 12), cpu_edi = read32 m (t + 16), cpu_eflags = read32 m (t + 20), cpu_eip = 0\<rparr>"

lemma context_saved: "context_of m t (saved_cpu m t)"
  by (simp add: context_of_def saved_cpu_def)

lemma saved_context: "context_of m t c \<Longrightarrow> saved_cpu m t = c\<lparr>cpu_eip := 0\<rparr>"
  by (simp add: context_of_def saved_cpu_def)

lemma saved_cpu_agree: "(\<And>x. x \<in> thread_cells t \<Longrightarrow> m' x = m x) \<Longrightarrow> saved_cpu m' t = saved_cpu m t"
  using context_agree [of t m' m "saved_cpu m t"] context_saved [of m t] saved_context [of m' t "saved_cpu m t"]
  by (simp add: saved_cpu_def)

text \<open>A thread that waits has the return address and the slot for the flags on its stack.\<close>

definition ring_inv :: "nat \<Rightarrow> (u32 \<Rightarrow> u32 set) \<Rightarrow> 'a sched_scheme \<Rightarrow> (u32 \<times> u32) list \<Rightarrow> bool" where
  "ring_inv n stk s r \<longleftrightarrow> r \<noteq> [] \<and> hd r = (current_thread s, tl_thread (mem s) (current_thread s))
     \<and> current_thread s \<noteq> 0 \<and> qseg (mem s) (ready_queue s) (tl r) 0 \<and> length r \<le> Suc n \<and> ring_apart stk r
     \<and> (\<forall>p \<in> set (tl r). addr_range (cpu_esp (saved_cpu (mem s) (snd p)) - 4) 8 \<subseteq> stk (snd p))"

text \<open>Room on the stack of the running thread for the call of \<open>switch_thread\<close> and the flags.\<close>

definition room :: "(u32 \<Rightarrow> u32 set) \<Rightarrow> 'a sched_scheme \<Rightarrow> bool" where
  "room stk s \<longleftrightarrow> addr_range (cpu_esp (cpu s) - 12) 12 \<subseteq> stk (tl_thread (mem s) (current_thread s))"

lemma distinct_sorted_wrt:
  "distinct xs \<Longrightarrow> (\<And>x y. x \<in> set xs \<Longrightarrow> y \<in> set xs \<Longrightarrow> x \<noteq> y \<Longrightarrow> P x y) \<Longrightarrow> sorted_wrt P xs"
  by (induction xs) auto

lemma ring_nodes:
  assumes "ring_apart stk r"
  shows "all_apart (map (node_cells \<circ> fst) r)"
  unfolding all_apart_def sorted_wrt_map
proof (rule distinct_sorted_wrt)
  show "distinct r" using assms by (simp add: ring_apart_def)
  fix x y assume xy: "x \<in> set r" "y \<in> set r" "x \<noteq> y"
  then show "(node_cells \<circ> fst) x \<inter> (node_cells \<circ> fst) y = {}"
    using ring_apartD(4) [OF assms, of "fst x" "snd x" "fst y" "snd y"] by (simp add: prod_eq_iff)
qed

lemma ring_turn_apart:
  fixes s :: "'a sched_scheme"
  assumes inv: "ring_inv n stk s (ct # at # q)" and rm: "room stk s"
  shows "turn_apart s (at # q) (saved_cpu (mem s) (snd at))"
proof -
  obtain c tc where ct: "ct = (c, tc)" by (cases ct)
  obtain a t where at: "at = (a, t)" by (cases at)
  let ?r = "(c, tc) # (a, t) # q"
  let ?top = "addr_range (cpu_esp (saved_cpu (mem s) t) - 4) 8"
  let ?st = "addr_range (cpu_esp (cpu s) - 12) 12"
  have i: "c = current_thread s" "tc = tl_thread (mem s) c" "ring_apart stk ?r" "?top \<subseteq> stk t"
    using inv ct at by (auto simp: ring_inv_def simp del: addr_range_code)
  have st: "?st \<subseteq> stk tc" using rm i(1,2) by (simp add: room_def)
  note ap = ring_apartD [OF i(3)]
  have d: "distinct ?r" using i(3) by (simp add: ring_apart_def)
  have nodes: "all_apart (map (node_cells \<circ> fst) ((a, t) # q))"
    using ring_nodes [OF i(3)] by (simp add: all_apart_def)
  have in1: "(c, tc) \<in> set ?r" and in2: "(a, t) \<in> set ?r" by simp_all
  have ne: "(c, tc) \<noteq> (a, t)" using d by auto
  have p: "node_cells c \<inter> ?st = {}" "node_cells c \<inter> thread_cells tc = {}" "node_cells c \<inter> thread_cells t = {}"
    "node_cells c \<inter> ?top = {}"
    using ap(1) [OF in1 in1] ap(1) [OF in1 in2] ap(2) [OF in1 in1] ap(2) [OF in1 in2] st i(4) by blast+
  have p': "?st \<inter> thread_cells tc = {}" "?st \<inter> thread_cells t = {}" "?st \<inter> ?top = {}"
    using ap(3) [OF in1 in1] ap(3) [OF in2 in1] ap(6) [OF in1 in2 ne] st i(4) by blast+
  have p'': "thread_cells tc \<inter> thread_cells t = {}" "thread_cells tc \<inter> ?top = {}" "thread_cells t \<inter> ?top = {}"
    using ap(3) [OF in1 in2] ap(3) [OF in2 in2] ap(5) [OF in1 in2 ne] i(4) by blast+
  have rest: "all_apart [node_cells c, ?st, thread_cells tc, thread_cells t, ?top]"
    by (simp add: all_apart_def p p' p'' del: addr_range_code)
  have cross: "node_cells b \<inter> B = {}"
    if "(b, u) \<in> set ((a, t) # q)" "B \<in> {node_cells c, ?st, thread_cells tc, thread_cells t, ?top}" for b u B
  proof -
    have bu: "(b, u) \<in> set ?r" "(b, u) \<noteq> (c, tc)" using that(1) d by auto
    show ?thesis
      using ap(4) [OF bu(1) in1 bu(2)] ap(1) [OF bu(1) in1] ap(1) [OF bu(1) in2] ap(2) [OF bu(1) in1] ap(2) [OF bu(1) in2]
        st i(4) that(2) by (elim insertE emptyE) (simp_all only:, blast+)
  qed
  have cross': "\<forall>A \<in> set (map (node_cells \<circ> fst) ((a, t) # q)). \<forall>B \<in> set [node_cells c, ?st, thread_cells tc, thread_cells t, ?top]. A \<inter> B = {}"
  proof (intro ballI)
    fix A B assume A: "A \<in> set (map (node_cells \<circ> fst) ((a, t) # q))" and B: "B \<in> set [node_cells c, ?st, thread_cells tc, thread_cells t, ?top]"
    then obtain p where p: "p \<in> set ((a, t) # q)" "A = node_cells (fst p)"
      unfolding list.set_map comp_def by blast
    show "A \<inter> B = {}" unfolding p(2) by (rule cross [of _ "snd p"]) (use p(1) B in simp_all)
  qed
  show ?thesis
    unfolding turn_apart_def all_apart_append at snd_conv list.sel i(1) [symmetric] i(2) [symmetric]
    using nodes rest cross' by blast
qed

text \<open>One call of \<open>schedule\<close> turns the ring by one.\<close>

lemma ring_yield_alone:
  assumes "ring_inv n stk s [ct]"
  shows "schedule n ra s = Inr s"
  using assms by (simp add: ring_inv_def schedule_def)

lemma ring_yield:
  fixes s :: "'a sched_scheme"
  assumes inv: "ring_inv n stk s (ct # at # q)" and rm: "room stk s"
  obtains s' where "schedule n ra s = Inr s'" "ring_inv n stk s' (at # q @ [ct])"
    "cpu s' = (saved_cpu (mem s) (snd at))\<lparr>cpu_esp := cpu_esp (saved_cpu (mem s) (snd at)) + 4,
       cpu_eip := read32 (mem s) (cpu_esp (saved_cpu (mem s) (snd at)))\<rparr>"
    "saved_cpu (mem s') (snd ct) = (cpu s)\<lparr>cpu_esp := cpu_esp (cpu s) - 8, cpu_eip := 0\<rparr>"
    "read32 (mem s') (cpu_esp (cpu s) - 8) = ra"
    "\<And>p x. p \<in> set q \<Longrightarrow> x \<in> thread_cells (snd p) \<union> stk (snd p) \<Longrightarrow> mem s' x = mem s x"
proof -
  let ?c1 = "saved_cpu (mem s) (snd at)"
  let ?e = "cpu_esp (cpu s)"
  have i: "fst ct = current_thread s" "snd ct = tl_thread (mem s) (current_thread s)" "current_thread s \<noteq> 0"
    "qseg (mem s) (ready_queue s) (at # q) 0" "length (at # q) \<le> n" "ring_apart stk (ct # at # q)"
    "\<And>p. p \<in> set (at # q) \<Longrightarrow> addr_range (cpu_esp (saved_cpu (mem s) (snd p)) - 4) 8 \<subseteq> stk (snd p)"
    using inv by (auto simp: ring_inv_def simp del: addr_range_code)
  obtain s' where s': "schedule n ra s = Inr s'" "current_thread s' = fst at"
    "qseg (mem s') (ready_queue s') (q @ [ct]) 0" "tl_thread (mem s') (fst at) = snd at"
    "cpu s' = ?c1\<lparr>cpu_esp := cpu_esp ?c1 + 4, cpu_eip := read32 (mem s) (cpu_esp ?c1)\<rparr>"
    "context_of (mem s') (snd ct) ((cpu s)\<lparr>cpu_esp := ?e - 8\<rparr>)" "read32 (mem s') (?e - 8) = ra"
    "\<And>x. x \<notin> node_cells (fst (last (at # q))) \<union> node_cells (fst ct) \<union> addr_range (?e - 12) 12 \<union> thread_cells (snd ct)
       \<union> addr_range (cpu_esp ?c1 - 4) 4 \<Longrightarrow> mem s' x = mem s x"
  proof -
    have hd: "context_of (mem s) (snd (hd (at # q))) ?c1" by (simp add: context_saved)
    note turn = schedule_turn [OF i(4) list.distinct(2) i(5,3) hd ring_turn_apart [OF inv rm], where ra = ra,
        folded i(1), unfolded i(1), folded i(2), folded i(1), unfolded list.sel prod.collapse]
    show thesis by (rule turn) (rule that, assumption+)
  qed
  have top: "addr_range (cpu_esp ?c1 - 4) 4 \<subseteq> stk (snd at)" using i(7) [of at] stack_parts(3) [of "cpu_esp ?c1"] by auto
  have st: "addr_range (?e - 12) 12 \<subseteq> stk (snd ct)" using rm by (simp add: room_def i(2))
  have in_r: "ct \<in> set (ct # at # q)" "at \<in> set (ct # at # q)" "last (at # q) \<in> set (ct # at # q)" by simp_all
  have keep: "mem s' x = mem s x" if p: "p \<in> set q" and x: "x \<in> thread_cells (snd p) \<union> stk (snd p)" for p x
  proof -
    have p': "p \<in> set (ct # at # q)" "ct \<noteq> p" "at \<noteq> p" using p i(6) by (auto simp: ring_apart_def)
    note ap = ring_apartP [OF i(6)]
    have "x \<notin> node_cells (fst (last (at # q)))" "x \<notin> node_cells (fst ct)"
      using ap(1,2) [OF in_r(3) p'(1)] ap(1,2) [OF in_r(1) p'(1)] x by blast+
    moreover have "x \<notin> addr_range (?e - 12) 12"
      using ap(3) [OF p'(1) in_r(1)] ap(5) [OF in_r(1) p'(1,2)] x st by blast
    moreover have "x \<notin> thread_cells (snd ct)" using ap(3) [OF in_r(1) p'(1)] ap(4) [OF in_r(1) p'(1,2)] x by blast
    moreover have "x \<notin> addr_range (cpu_esp ?c1 - 4) 4"
      using ap(3) [OF p'(1) in_r(2)] ap(5) [OF in_r(2) p'(1,3)] x top by blast
    ultimately show ?thesis using s'(8) [of x] by (simp del: addr_range_code)
  qed
  have saved: "saved_cpu (mem s') (snd ct) = (cpu s)\<lparr>cpu_esp := ?e - 8, cpu_eip := 0\<rparr>"
    using saved_context [OF s'(6)] by simp
  have waits: "addr_range (cpu_esp (saved_cpu (mem s') (snd p)) - 4) 8 \<subseteq> stk (snd p)" if "p \<in> set (q @ [ct])" for p
  proof (cases "p = ct")
    case True
    have "addr_range (?e - 12) 8 \<subseteq> addr_range (?e - 12) 12" using addr_sub [of 0 8 12 "?e - 12"] by (simp del: addr_range_code)
    then show ?thesis using True saved st by (simp del: addr_range_code)
  next
    case False
    then have p: "p \<in> set q" using that by simp
    then have "saved_cpu (mem s') (snd p) = saved_cpu (mem s) (snd p)" by (intro saved_cpu_agree keep) auto
    then show ?thesis using i(7) [of p] p by (simp del: addr_range_code)
  qed
  have "ring_inv n stk s' (at # q @ [ct])"
    unfolding ring_inv_def list.sel
    using s'(2,3,4) i(4,5) waits ring_apart_rotate [of stk "ct # at # q"] i(6)
    by (cases at) (auto dest: qseg_nonnull simp del: addr_range_code)
  then show thesis by (rule that [OF s'(1) _ s'(5) saved s'(7) keep])
qed

section \<open>Runs\<close>

text \<open>The running thread may change anything but the nodes and what belongs to the threads that wait.\<close>

definition own_work :: "(u32 \<Rightarrow> u32 set) \<Rightarrow> (u32 \<times> u32) list \<Rightarrow> 'a sched_scheme \<Rightarrow> 'a sched_scheme \<Rightarrow> bool" where
  "own_work stk r s s' \<longleftrightarrow> ready_queue s' = ready_queue s \<and> current_thread s' = current_thread s
     \<and> (\<forall>p \<in> set r. \<forall>x \<in> node_cells (fst p). mem s' x = mem s x)
     \<and> (\<forall>p \<in> set (tl r). \<forall>x \<in> thread_cells (snd p) \<union> stk (snd p). mem s' x = mem s x)"

inductive sched_run ::
  "nat \<Rightarrow> (u32 \<Rightarrow> u32 set) \<Rightarrow> 'a sched_scheme \<Rightarrow> (u32 \<times> u32) list \<Rightarrow> nat \<Rightarrow> 'a sched_scheme \<Rightarrow> (u32 \<times> u32) list \<Rightarrow> bool"
  for n :: nat and stk :: "u32 \<Rightarrow> u32 set" and s :: "'a sched_scheme" and r :: "(u32 \<times> u32) list" where
  run_start: "sched_run n stk s r 0 s r"
| run_work: "sched_run n stk s r k s1 r1 \<Longrightarrow> own_work stk r1 s1 s2 \<Longrightarrow> sched_run n stk s r k s2 r1"
| run_yield: "sched_run n stk s r k s1 r1 \<Longrightarrow> room stk s1 \<Longrightarrow> schedule n ra s1 = Inr s2 \<Longrightarrow>
    sched_run n stk s r (Suc k) s2 (rotate1 r1)"

lemma ring_work:
  assumes inv: "ring_inv n stk s r" and w: "own_work stk r s s'"
  shows "ring_inv n stk s' r"
proof -
  have node: "tl_thread (mem s') (fst p) = tl_thread (mem s) (fst p)" if "p \<in> set r" for p
    using that w by (intro node_agree(1)) (simp add: own_work_def)
  have cur: "(current_thread s, tl_thread (mem s) (current_thread s)) \<in> set r"
    using inv by (cases r) (auto simp: ring_inv_def)
  have q: "qseg (mem s') (ready_queue s) (tl r) 0"
  proof (subst qseg_agree)
    fix a x assume "a \<in> fst ` set (tl r)" "x \<in> node_cells a"
    then show "mem s' x = mem s x" using w inv by (auto simp: own_work_def ring_inv_def dest: list.set_sel(2))
  qed (use inv in \<open>simp add: ring_inv_def\<close>)
  have "saved_cpu (mem s') (snd p) = saved_cpu (mem s) (snd p)" if "p \<in> set (tl r)" for p
    using that w by (intro saved_cpu_agree) (simp add: own_work_def)
  then show ?thesis
    using inv w q node [OF cur] by (simp add: ring_inv_def own_work_def)
qed

lemma ring_schedule:
  fixes s :: "'a sched_scheme"
  assumes "ring_inv n stk s r" "room stk s"
  shows "\<exists>s'. schedule n ra s = Inr s' \<and> ring_inv n stk s' (rotate1 r)"
proof (cases r)
  case Nil
  then show ?thesis using assms(1) by (simp add: ring_inv_def)
next
  case (Cons ct r')
  show ?thesis
  proof (cases r')
    case Nil
    then show ?thesis using ring_yield_alone [of n stk s ct ra] assms(1) Cons by simp
  next
    case (Cons at q)
    then have r: "r = ct # at # q" using \<open>r = ct # r'\<close> by simp
    from ring_yield [OF assms(1) [unfolded r] assms(2), of ra] show ?thesis unfolding r by auto
  qed
qed

lemma run_ring:
  assumes "sched_run n stk s r k s' r'" "ring_inv n stk s r"
  shows "ring_inv n stk s' r' \<and> r' = rotate k r"
  using assms
proof induction
  case (run_work k s1 r1 s2)
  then show ?case using ring_work by blast
next
  case (run_yield k s1 r1 ra s2)
  then show ?case using ring_schedule [of n stk s1 r1 ra] by auto
qed simp

text \<open>A thread that waits keeps its context and its stack until it is its turn.\<close>

lemma run_prefix:
  assumes "sched_run n stk s r k s' r'" "j \<le> k"
  shows "\<exists>s1 r1. sched_run n stk s r j s1 r1 \<and> sched_run n stk s1 r1 (k - j) s' r'"
  using assms
proof (induction rule: sched_run.induct)
  case run_start
  then show ?case using sched_run.run_start by force
next
  case (run_work k s1 r1 s2)
  then show ?case using sched_run.run_work by blast
next
  case (run_yield k s1 r1 ra s2)
  show ?case
  proof (cases "j = Suc k")
    case True
    then show ?thesis using sched_run.run_yield [OF run_yield.hyps(1-3)] sched_run.run_start by fastforce
  next
    case False
    then have "j \<le> k" "Suc k - j = Suc (k - j)" using run_yield.prems by auto
    then show ?thesis using run_yield.IH sched_run.run_yield [OF _ run_yield.hyps(2,3)] by metis
  qed
qed

lemma run_keeps_waiting:
  fixes s :: "'a sched_scheme"
  assumes "sched_run n stk s (q @ [ct]) k s' r'" "ring_inv n stk s (q @ [ct])" "k < length q"
  shows "\<forall>x \<in> thread_cells (snd ct) \<union> stk (snd ct). mem s' x = mem s x"
  using assms
proof (induction)
  case (run_work k s1 r1 s2)
  have "r1 = drop k q @ ct # take k q"
    using run_ring [OF run_work.hyps(1) run_work.prems(1)] run_work.prems(2) by (simp add: rotate_drop_take)
  then have "ct \<in> set (tl r1)" using run_work.prems(2) by (cases "drop k q") auto
  then show ?case using run_work by (simp add: own_work_def)
next
  case (run_yield k s1 r1 ra s2)
  note rr = run_ring [OF run_yield.hyps(1) run_yield.prems(1)]
  have "r1 = drop k q @ ct # take k q" using rr run_yield.prems(2) by (simp add: rotate_drop_take)
  moreover have "drop k q = q ! k # q ! Suc k # drop (Suc (Suc k)) q"
    using run_yield.prems(2) by (metis Cons_nth_drop_Suc Suc_lessD)
  ultimately have r1: "r1 = q ! k # q ! Suc k # (drop (Suc (Suc k)) q @ ct # take k q)" by simp
  obtain s3 where "schedule n ra s1 = Inr s3"
    "\<And>p x. p \<in> set (drop (Suc (Suc k)) q @ ct # take k q) \<Longrightarrow> x \<in> thread_cells (snd p) \<union> stk (snd p) \<Longrightarrow> mem s3 x = mem s1 x"
    using rr run_yield.hyps(2) unfolding r1 by (meson ring_yield)
  then have "mem s2 x = mem s1 x" if "x \<in> thread_cells (snd ct) \<union> stk (snd ct)" for x
    using that run_yield.hyps(3) by (metis in_set_conv_decomp sum.inject(2))
  then show ?case using run_yield.IH run_yield.prems by simp
qed simp

section \<open>An example\<close>

text \<open>
  Two threads: nodes at 0x1000 and 0x1010, contexts at 0x2000 and 0x2100, stacks from 0x3000 and 0x4000.
  The second one waits with its stack pointer at 0x4080 and return address 0x5000.
\<close>

definition example_stk :: "u32 \<Rightarrow> u32 set" where
  "example_stk t = (if t = 0x2000 then addr_range 0x3000 0x100 else if t = 0x2100 then addr_range 0x4000 0x100 else {})"

definition example_ring :: "(u32 \<times> u32) list" where
  "example_ring = [(0x1000, 0x2000), (0x1010, 0x2100)]"

definition example_sched :: sched where
  "example_sched = kmem.extend boot_kmem \<lparr>ready_queue = 0x1010, current_thread = 0x1000, thread_c_current = 0x2000,
     next_tid = 2, cpu = \<lparr>cpu_esp = 0x3080, cpu_ebp = 1, cpu_ebx = 2, cpu_esi = 3, cpu_edi = 4, cpu_eflags = 0x200, cpu_eip = 0x6000\<rparr>\<rparr>
     \<lparr>mem := write32 0x1000 0x2000 (write32 0x1010 0x2100 (write32 0x2100 0x4080 (write32 0x4080 0x5000 (\<lambda>_. 0))))\<rparr>"

lemma example_sched_simps [simp]:
  "mem example_sched = write32 0x1000 0x2000 (write32 0x1010 0x2100 (write32 0x2100 0x4080 (write32 0x4080 0x5000 (\<lambda>_. 0))))"
  "ready_queue example_sched = 0x1010" "current_thread example_sched = 0x1000" "cpu_esp (cpu example_sched) = 0x3080"
  by (simp_all add: example_sched_def kmem.extend_def boot_kmem_def paging.extend_def boot_paging_def descr.extend_def boot_descr_def)

lemma example_reads:
  "tl_thread (mem example_sched) 0x1000 = 0x2000" "tl_thread (mem example_sched) 0x1010 = 0x2100"
  "tl_next (mem example_sched) 0x1010 = 0" "cpu_esp (saved_cpu (mem example_sched) 0x2100) = 0x4080"
  by (simp_all add: tl_thread_def tl_next_def saved_cpu_def read32_write32_apart)

lemma example_ring_apart: "ring_apart example_stk example_ring"
proof -
  have sets: "node_cells 0x1000 = addr_range 0x1000 8" "node_cells 0x1010 = addr_range 0x1010 8"
    "thread_cells 0x2000 = addr_range 0x2000 28" "thread_cells 0x2100 = addr_range 0x2100 28"
    "example_stk 0x2000 = addr_range 0x3000 0x100" "example_stk 0x2100 = addr_range 0x4000 0x100"
    by (simp_all add: node_cells_def thread_cells_def example_stk_def)
  show ?thesis
    by (simp add: ring_apart_def example_ring_def sets Int_Un_distrib addr_range_disjoint Int_commute del: addr_range_code)
qed

lemma example_ring_inv: "ring_inv 1 example_stk example_sched example_ring"
proof -
  have "addr_range (0x4080 - 4) 8 \<subseteq> addr_range 0x4000 0x100" using addr_sub [of "0x7C" 8 "0x100" "0x4000"] by (simp del: addr_range_code)
  then show ?thesis
    unfolding ring_inv_def using example_ring_apart
    by (simp add: example_ring_def example_reads example_stk_def del: addr_range_code example_sched_simps(1))
qed

lemma example_room: "room example_stk example_sched"
  using addr_sub [of "0x74" 12 "0x100" "0x3000"] example_reads(1)
  by (simp add: room_def example_stk_def del: addr_range_code example_sched_simps(1))

lemma example_two_turns:
  obtains s1 s3 where "schedule 1 0x7000 example_sched = Inr s1" "schedule 1 0x7100 s1 = Inr s3" "room example_stk s1"
    "ring_inv 1 example_stk s1 ((0x1010, 0x2100) # [] @ [(0x1000, 0x2000)])"
proof -
  have inv: "ring_inv 1 example_stk example_sched ((0x1000, 0x2000) # (0x1010, 0x2100) # [])"
    using example_ring_inv by (simp add: example_ring_def)
  obtain s1 where s1: "schedule 1 0x7000 example_sched = Inr s1" "ring_inv 1 example_stk s1 ((0x1010, 0x2100) # [] @ [(0x1000, 0x2000)])"
    "cpu s1 = (saved_cpu (mem example_sched) 0x2100)\<lparr>cpu_esp := cpu_esp (saved_cpu (mem example_sched) 0x2100) + 4,
       cpu_eip := read32 (mem example_sched) (cpu_esp (saved_cpu (mem example_sched) 0x2100))\<rparr>"
    using ring_yield [OF inv example_room, of "0x7000"] unfolding snd_conv by metis
  have "addr_range (0x4000 + 0x78) 12 \<subseteq> addr_range 0x4000 0x100" by (rule addr_sub) simp_all
  moreover have "current_thread s1 = 0x1010" "tl_thread (mem s1) 0x1010 = 0x2100"
    using s1(2) by (auto simp: ring_inv_def simp del: addr_range_code)
  ultimately have room1: "room example_stk s1"
    using s1(3) unfolding room_def by (simp add: example_reads example_stk_def del: addr_range_code example_sched_simps(1))
  obtain s3 where "schedule 1 0x7100 s1 = Inr s3" using ring_schedule [OF s1(2) room1, of "0x7100"] by blast
  then show thesis using that s1(1,2) room1 by blast
qed

section \<open>Properties\<close>

text \<open>
  With the ring of threads in memory and room on the stack, \<open>schedule\<close> returns (the walk to
  the end of the queue does not run out) and turns the ring by one; with a single thread it changes
  nothing.
\<close>
theorem schedule_turns_ring:
  assumes "ring_inv n stk s r" "room stk s"
  shows "\<exists>s'. schedule n ra s = Inr s' \<and> ring_inv n stk s' (rotate1 r) \<and> (length r = 1 \<longrightarrow> s' = s)"
proof (cases "length r = 1")
  case True
  then obtain ct where "r = [ct]" by (auto simp: length_Suc_conv)
  then show ?thesis using assms(1) ring_yield_alone [of n stk s ct ra] by simp
next
  case False
  then show ?thesis using ring_schedule [OF assms] by blast
qed

theorem schedule_turns_ring_witness:
  "\<exists>s'. schedule 1 0x7000 example_sched = Inr s' \<and> ring_inv 1 example_stk s' [(0x1010, 0x2100), (0x1000, 0x2000)]"
  using schedule_turns_ring [OF example_ring_inv example_room, of "0x7000"] by (auto simp: example_ring_def)

text \<open>
  C27: In every run of calls of \<open>schedule\<close> and the threads' own work the ring is kept, and after
  \<open>k\<close> calls the thread \<open>k\<close> places behind the first runs: every thread of the ring runs once in as many
  calls as there are threads.
\<close>
theorem threads_run_in_turn:
  assumes "sched_run n stk s r k s' r'" "ring_inv n stk s r"
  shows "ring_inv n stk s' r' \<and> r' = rotate k r \<and> current_thread s' = fst (r ! (k mod length r))"
proof -
  have r: "ring_inv n stk s' r'" "r' = rotate k r" using run_ring [OF assms] by blast+
  have ne: "r \<noteq> []" using assms(2) by (simp add: ring_inv_def)
  have "hd r' = r ! (k mod length r)" using r(2) ne by (simp add: hd_rotate_conv_nth)
  moreover have "current_thread s' = fst (hd r')" using r(1) by (simp add: ring_inv_def)
  ultimately show ?thesis using r by simp
qed

theorem threads_run_in_turn_witness:
  "\<exists>s'. sched_run 1 example_stk example_sched example_ring 1 s' [(0x1010, 0x2100), (0x1000, 0x2000)] \<and> current_thread s' = 0x1010"
proof -
  obtain s' where s': "schedule 1 0x7000 example_sched = Inr s'"
    using ring_schedule [OF example_ring_inv example_room, of "0x7000"] by blast
  have run: "sched_run 1 example_stk example_sched example_ring (Suc 0) s' (rotate1 example_ring)"
    by (rule run_yield [OF run_start example_room s'])
  show ?thesis using threads_run_in_turn [OF run example_ring_inv] run by (auto simp: example_ring_def)
qed

text \<open>
  C1: No thread starves: in every run in which \<open>schedule\<close> is called as often as there are threads,
  whatever the threads do in between, every thread of the ring is the running one at some point of the run.
\<close>
theorem every_thread_gets_a_turn:
  assumes "ring_inv n stk s r" "sched_run n stk s r (length r) s' r'" "p \<in> set r"
  shows "\<exists>j < length r. \<exists>s1 r1. sched_run n stk s r j s1 r1 \<and> sched_run n stk s1 r1 (length r - j) s' r'
    \<and> current_thread s1 = fst p \<and> tl_thread (mem s1) (fst p) = snd p"
proof -
  obtain j where j: "j < length r" "p = r ! j" using assms(3) by (metis in_set_conv_nth)
  obtain s1 r1 where run: "sched_run n stk s r j s1 r1" "sched_run n stk s1 r1 (length r - j) s' r'"
    using run_prefix [OF assms(2) less_imp_le [OF j(1)]] by blast
  have r1: "ring_inv n stk s1 r1" "r1 = rotate j r" using run_ring [OF run(1) assms(1)] by blast+
  have "hd r1 = p" using r1(2) j assms(1) by (simp add: hd_rotate_conv_nth ring_inv_def)
  then have "current_thread s1 = fst p" "tl_thread (mem s1) (fst p) = snd p" using r1(1) by (auto simp: ring_inv_def)
  then show ?thesis using j(1) run by blast
qed

theorem every_thread_gets_a_turn_witness:
  "\<exists>j < 2. \<exists>s1 r1. sched_run 1 example_stk example_sched example_ring j s1 r1 \<and> current_thread s1 = 0x1010"
proof -
  obtain s1 s3 where t: "schedule 1 0x7000 example_sched = Inr s1" "schedule 1 0x7100 s1 = Inr s3" "room example_stk s1"
    by (rule example_two_turns)
  have len: "length example_ring = Suc (Suc 0)" by (simp add: example_ring_def)
  have run: "sched_run 1 example_stk example_sched example_ring (length example_ring) s3 (rotate1 (rotate1 example_ring))"
    unfolding len by (rule run_yield [OF run_yield [OF run_start example_room t(1)] t(3,2)])
  show ?thesis
    using every_thread_gets_a_turn [OF example_ring_inv run, of "(0x1010, 0x2100)"]
    unfolding len numeral_2_eq_2 by (auto simp: example_ring_def)
qed

text \<open>
  C2: A thread that calls \<open>schedule\<close> gets the processor back, after each of the other threads
  has had its turn, with the registers it had, the stack pointer behind the popped return address, and
  at the return address of its call.
\<close>
theorem resumes_where_it_left:
  assumes inv: "ring_inv n stk s (ct # at # q)" "room stk s" and away: "schedule n ra s = Inr s1"
    and run: "sched_run n stk s1 (at # q @ [ct]) (length q) s2 r2"
    and again: "room stk s2" "schedule n ra' s2 = Inr s3"
  shows "cpu s3 = (cpu s)\<lparr>cpu_esp := cpu_esp (cpu s) - 4, cpu_eip := ra\<rparr> \<and> current_thread s3 = fst ct"
proof -
  let ?e = "cpu_esp (cpu s)"
  have s1: "ring_inv n stk s1 (at # q @ [ct])" "saved_cpu (mem s1) (snd ct) = (cpu s)\<lparr>cpu_esp := ?e - 8, cpu_eip := 0\<rparr>"
    "read32 (mem s1) (?e - 8) = ra"
    using ring_yield [OF inv, of ra] away by (metis sum.inject(2))+
  note rr = run_ring [OF run s1(1)]
  have keep: "mem s2 x = mem s1 x" if "x \<in> thread_cells (snd ct) \<union> stk (snd ct)" for x
    using run_keeps_waiting [of n stk s1 "at # q" ct "length q" s2 r2] run s1(1) that by simp
  have r2: "r2 = last (at # q) # ct # butlast (at # q)"
  proof -
    have d: "drop (length q) (at # q) = [last (at # q)]" "take (length q) (at # q) = butlast (at # q)"
      by (simp_all add: butlast_conv_take drop_Suc_Cons last_drop flip: last_conv_nth) (cases q rule: rev_cases; simp)
    have "r2 = drop (length q) (at # q) @ ct # take (length q) (at # q)"
      using rr by (simp add: rotate_drop_take flip: append_Cons)
    then show ?thesis unfolding d by simp
  qed
  have inv2: "ring_inv n stk s2 (last (at # q) # ct # butlast (at # q))" using conjunct1 [OF rr] unfolding r2 .
  obtain s' where s': "schedule n ra' s2 = Inr s'" "ring_inv n stk s' (ct # butlast (at # q) @ [last (at # q)])"
    "cpu s' = (saved_cpu (mem s2) (snd ct))\<lparr>cpu_esp := cpu_esp (saved_cpu (mem s2) (snd ct)) + 4,
       cpu_eip := read32 (mem s2) (cpu_esp (saved_cpu (mem s2) (snd ct)))\<rparr>"
    using ring_yield [OF inv2 again(1), of ra'] by metis
  have sv: "saved_cpu (mem s2) (snd ct) = (cpu s)\<lparr>cpu_esp := ?e - 8, cpu_eip := 0\<rparr>"
    using saved_cpu_agree [of "snd ct" "mem s2" "mem s1"] keep s1(2) by simp
  have "addr_range (?e - 8) 4 \<subseteq> stk (snd ct)"
    using inv push_parts(2) [of ?e] by (auto simp: room_def ring_inv_def simp del: addr_range_code)
  then have "read32 (mem s2) (?e - 8) = ra" using keep s1(3) read32_cong [of "?e - 8" "mem s2" "mem s1"] by blast
  then have "cpu s' = (cpu s)\<lparr>cpu_esp := ?e - 4, cpu_eip := ra\<rparr>" using s'(3) unfolding sv by simp
  moreover have "current_thread s' = fst ct" using s'(2) by (simp add: ring_inv_def)
  ultimately show ?thesis using s'(1) again(2) by simp
qed

theorem resumes_where_it_left_witness:
  "\<exists>s1 s3. schedule 1 0x7000 example_sched = Inr s1 \<and> schedule 1 0x7100 s1 = Inr s3
    \<and> cpu s3 = (cpu example_sched)\<lparr>cpu_esp := 0x307C, cpu_eip := 0x7000\<rparr> \<and> current_thread s3 = 0x1000"
proof -
  have inv: "ring_inv 1 example_stk example_sched ((0x1000, 0x2000) # (0x1010, 0x2100) # [])"
    using example_ring_inv by (simp add: example_ring_def)
  obtain s1 s3 where s1: "schedule 1 0x7000 example_sched = Inr s1" and s3: "schedule 1 0x7100 s1 = Inr s3" and room1: "room example_stk s1"
    by (rule example_two_turns)
  have "sched_run 1 example_stk s1 ((0x1010, 0x2100) # [] @ [(0x1000, 0x2000)]) (length ([] :: (u32 \<times> u32) list)) s1
      ((0x1010, 0x2100) # [] @ [(0x1000, 0x2000)])"
    using run_start by simp
  from resumes_where_it_left [OF inv example_room s1 this room1 s3] show ?thesis using s1 s3 by auto
qed

end
