(* ===== verification/Timer.thy ===== *)
theory Timer
  imports Round_Robin
begin

text \<open>
  \<open>timer.c\<close>: the interval timer is programmed with a 16-bit divisor, low byte first, and its
  interrupt counts the tick and calls the scheduler.
\<close>

record timer = sched +
  tick :: u32

definition IRQ0 :: u8 where "IRQ0 = 32"

definition timer_callback :: "nat \<Rightarrow> u32 \<Rightarrow> registers \<Rightarrow> 'a timer_scheme \<Rightarrow> kerror + 'a timer_scheme" where
  "timer_callback n ra regs s =
     (let s = s\<lparr>tick := tick s + 1\<rparr>
      in schedule n ra s)"

definition init_timer :: "u32 \<Rightarrow> 'a descr_scheme \<Rightarrow> kerror + 'a descr_scheme" where
  "init_timer freq s =
     ebind (register_interrupt_handler IRQ0 Timer_callback s) (\<lambda>s.
       if freq = 0 then Inl DivByZero
       else
         let divisor = 1193180 div freq;
             s = outb 0x43 0x36 s;
             l = ucast (divisor AND 0xFF);
             h = ucast (drop_bit 8 divisor AND 0xFF);
             s = outb 0x40 l s
         in Inr (outb 0x40 h s))"

section \<open>Lemmas\<close>

lemma low_high_bytes:
  fixes d :: u32
  assumes "unat d < 65536"
  shows "unat (ucast (d AND 0xFF) :: u8) + 256 * unat (ucast (drop_bit 8 d AND 0xFF) :: u8) = unat d"
proof -
  have m: "(0xFF :: u32) = mask 8" by (simp add: mask_eq_exp_minus_1)
  have l: "unat (ucast (d AND 0xFF) :: u8) = unat d mod 256"
    unfolding m by (simp add: unsigned_ucast_eq unat_and_mask take_bit_eq_mod)
  have h: "unat (ucast (drop_bit 8 d AND 0xFF) :: u8) = unat d div 256"
    unfolding m using assms by (simp add: unsigned_ucast_eq unat_and_mask unat_drop_bit_eq take_bit_eq_mod drop_bit_eq_div unat_div_distrib)
  show ?thesis unfolding l h by simp
qed

text \<open>The scheduler leaves the counter alone.\<close>

lemma schedule_tick:
  assumes "schedule n ra s = Inr s'"
  shows "tick s' = tick s"
proof (cases "ready_queue s = 0")
  case False
  then obtain a where "last_node n (mem s) (ready_queue s) = Inr a"
    using assms by (cases "last_node n (mem s) (ready_queue s)") (auto simp: schedule_def)
  then show ?thesis
    using assms False by (auto simp: schedule_def push32_def switch_thread_def Let_def split: prod.splits)
qed (use assms in \<open>simp add: schedule_def\<close>)

lemma ring_inv_cong:
  fixes s :: "'a sched_scheme" and s' :: "'b sched_scheme"
  assumes "mem s' = mem s" "ready_queue s' = ready_queue s" "current_thread s' = current_thread s" "cpu s' = cpu s"
  shows "ring_inv n stk s' r = ring_inv n stk s r" "room stk s' = room stk s"
  using assms by (simp_all add: ring_inv_def room_def)

lemma timer_callback_turn:
  fixes s :: "'a timer_scheme"
  assumes "ring_inv n stk s r" "room stk s"
  shows "\<exists>s'. timer_callback n ra regs s = Inr s' \<and> ring_inv n stk s' (rotate1 r) \<and> tick s' = tick s + 1"
proof -
  let ?s = "s\<lparr>tick := tick s + 1\<rparr>"
  have "ring_inv n stk ?s r" "room stk ?s" using ring_inv_cong [of ?s s] assms by simp_all
  from ring_schedule [OF this, of ra] obtain s' where "schedule n ra ?s = Inr s'" "ring_inv n stk s' (rotate1 r)" by blast
  then show ?thesis using schedule_tick [of n ra ?s s'] by (simp add: timer_callback_def)
qed

section \<open>Properties\<close>

text \<open>
  For a frequency of at least 19 Hz \<open>init_timer\<close> registers the callback for interrupt 32
  and sends the mode byte and then the divisor, low byte first: the two bytes together are exactly
  1193180 divided by the frequency, so the resulting rate is at least the requested one and less than one
  divisor step above it. A frequency of 0 is a division by zero.
\<close>
theorem timer_programs_divisor:
  assumes "length (interrupt_handlers s) = 256"
  shows "(19 \<le> unat freq \<longrightarrow> (\<exists>l h s'. init_timer freq s = Inr s' \<and> outp s' = outp s @ [(0x43, 0x36), (0x40, l), (0x40, h)]
      \<and> unat l + 256 * unat h = 1193180 div unat freq \<and> interrupt_handlers s' ! 32 = Some Timer_callback))
    \<and> init_timer 0 s = Inl DivByZero"
proof -
  let ?s = "s\<lparr>interrupt_handlers := (interrupt_handlers s)[32 := Some Timer_callback]\<rparr>"
  have reg: "register_interrupt_handler IRQ0 Timer_callback s = Inr ?s"
    using assms by (simp add: register_interrupt_handler_def IRQ0_def)
  have "\<exists>l h s'. init_timer freq s = Inr s' \<and> outp s' = outp s @ [(0x43, 0x36), (0x40, l), (0x40, h)]
      \<and> unat l + 256 * unat h = 1193180 div unat freq \<and> interrupt_handlers s' ! 32 = Some Timer_callback"
    if f: "19 \<le> unat freq"
  proof -
    let ?d = "1193180 div freq"
    have nz: "freq \<noteq> 0" using f by auto
    have d: "unat ?d = 1193180 div unat freq" by (simp add: unat_div_distrib)
    have "1193180 div unat freq \<le> 1193180 div 19" using f by (rule div_le_mono2 [rotated]) simp
    then have "unat ?d < 65536" unfolding d by simp
    from low_high_bytes [OF this] show ?thesis
      using nz reg d assms
      by (intro exI [of _ "ucast (?d AND 0xFF)"] exI [of _ "ucast (drop_bit 8 ?d AND 0xFF)"])
        (simp add: init_timer_def Let_def outb_def)
  qed
  then show ?thesis using reg by (simp add: init_timer_def)
qed

theorem timer_programs_divisor_witness:
  "\<exists>l h s'. init_timer 20 boot_descr = Inr s' \<and> outp s' = [(0x43, 0x36), (0x40, l), (0x40, h)] \<and> unat l + 256 * unat h = 59659"
  using timer_programs_divisor [of boot_descr 20] by (auto simp: boot_descr_def)

end
