(* ===== verification/Keyboard.thy ===== *)
theory Keyboard
  imports Timer
begin

text \<open>
  \<open>keyboard.c\<close>: scan codes are translated by a table and the characters are kept in a buffer of 256
  bytes, first in first out, with a null byte behind the last one. \<open>screen_write_at\<close>, which the handler
  calls last, is defined nowhere in the repository; it is the parameter \<open>swa\<close>.
\<close>

record keyboard = timer +
  key_buffer :: "u8 list"
  key_index :: int

definition kbdus :: "u8 list" where
  "kbdus = [0, 27] @ bytes ''1234567890-='' @ [8] @
     [9] @ bytes ''qwertyuiop[]'' @ [10, 0] @
     bytes ''asdfghjkl;'' @ [39, 96, 0, 92] @
     bytes ''zxcvbnm,./'' @ [0, 42] @
     [0, 32] @ replicate 70 0"

definition scancode_to_ascii :: "u8 \<Rightarrow> u8" where
  "scancode_to_ascii scancode = (if 127 < scancode then 0 else kbdus ! unat scancode)"

text \<open>Accesses to \<open>key_buffer\<close>, with the bounds of the array.\<close>

definition buf_get :: "int \<Rightarrow> u8 list \<Rightarrow> kerror + u8" where
  "buf_get i b = (if 0 \<le> i \<and> nat i < length b then Inr (b ! nat i) else Inl BadIndex)"

definition buf_put :: "int \<Rightarrow> u8 \<Rightarrow> u8 list \<Rightarrow> kerror + u8 list" where
  "buf_put i v b = (if 0 \<le> i \<and> nat i < length b then Inr (b[nat i := v]) else Inl BadIndex)"

definition store_key :: "u8 \<Rightarrow> 'a keyboard_scheme \<Rightarrow> kerror + 'a keyboard_scheme" where
  "store_key key s =
     (if key \<noteq> 0 \<and> key_index s < 255
      then ebind (buf_put (key_index s) key (key_buffer s)) (\<lambda>b.
             let i = key_index s + 1
             in ebind (buf_put i 0 b) (\<lambda>b. Inr (s\<lparr>key_buffer := b, key_index := i\<rparr>)))
      else Inr s)"

definition keyboard_handler ::
  "(u8 list \<Rightarrow> int \<Rightarrow> int \<Rightarrow> 'a keyboard_scheme \<Rightarrow> kerror + 'a keyboard_scheme)
     \<Rightarrow> registers \<Rightarrow> 'a keyboard_scheme \<Rightarrow> kerror + 'a keyboard_scheme" where
  "keyboard_handler swa r s =
     (let scancode = inb 0x60 s;
          key = scancode_to_ascii scancode
      in ebind (store_key key s) (\<lambda>s. swa (bytes ''Key IRQ1'') 0 0 s))"

function key_shift :: "int \<Rightarrow> int \<Rightarrow> u8 list \<Rightarrow> kerror + u8 list" where
  "key_shift i n b =
     (if i < n
      then ebind (buf_get (i + 1) b) (\<lambda>v. ebind (buf_put i v b) (\<lambda>b. key_shift (i + 1) n b))
      else Inr b)"
  by pat_completeness auto
termination by (relation "measure (\<lambda>(i, n, b). nat (n - i))") auto

declare key_shift.simps [simp del]

definition get_last_key :: "'a keyboard_scheme \<Rightarrow> kerror + u8 \<times> 'a keyboard_scheme" where
  "get_last_key s =
     (if key_index s = 0 then Inr (0, s)
      else ebind (buf_get 0 (key_buffer s)) (\<lambda>key.
             ebind (key_shift 0 (key_index s) (key_buffer s)) (\<lambda>b.
               Inr (key, s\<lparr>key_buffer := b, key_index := key_index s - 1\<rparr>))))"

definition is_key_ready :: "'a keyboard_scheme \<Rightarrow> bool" where
  "is_key_ready s \<longleftrightarrow> 0 < key_index s"

definition init_keyboard :: "'a descr_scheme \<Rightarrow> kerror + 'a descr_scheme" where
  "init_keyboard s =
     ebind (register_interrupt_handler 33 Keyboard_handler s) (\<lambda>s.
       Inr (outb 0x21 (inb 0x21 s AND NOT 0x02) s))"

section \<open>The interface of the buffer\<close>

text \<open>Putting and taking a sequence of keys.\<close>

fun put_all :: "('k \<Rightarrow> 's \<Rightarrow> kerror + 's) \<Rightarrow> 'k list \<Rightarrow> 's \<Rightarrow> kerror + 's" where
  "put_all put [] s = Inr s"
| "put_all put (k # ks) s = ebind (put k s) (put_all put ks)"

fun get_many :: "('s \<Rightarrow> kerror + 'k \<times> 's) \<Rightarrow> nat \<Rightarrow> 's \<Rightarrow> kerror + 'k list \<times> 's" where
  "get_many get 0 s = Inr ([], s)"
| "get_many get (Suc n) s = ebind (get s) (\<lambda>(k, s). ebind (get_many get n s) (\<lambda>(ks, s). Inr (k # ks, s)))"

locale key_fifo =
  fixes keys :: "'s \<Rightarrow> 'k list" and ok :: "'s \<Rightarrow> bool" and put :: "'k \<Rightarrow> 's \<Rightarrow> kerror + 's"
    and get :: "'s \<Rightarrow> kerror + 'k \<times> 's" and null :: 'k and cap :: nat
  assumes put_law: "ok s \<Longrightarrow> k \<noteq> null \<Longrightarrow> length (keys s) < cap \<Longrightarrow> \<exists>s'. put k s = Inr s' \<and> ok s' \<and> keys s' = keys s @ [k]"
    and put_full: "ok s \<Longrightarrow> cap \<le> length (keys s) \<or> k = null \<Longrightarrow> put k s = Inr s"
    and get_law: "ok s \<Longrightarrow> keys s = k # ks \<Longrightarrow> \<exists>s'. get s = Inr (k, s') \<and> ok s' \<and> keys s' = ks"
    and get_empty: "ok s \<Longrightarrow> keys s = [] \<Longrightarrow> get s = Inr (null, s)"
begin

lemma put_ok: "ok s \<Longrightarrow> \<exists>s'. put k s = Inr s' \<and> ok s'"
  using put_law [of s k] put_full [of s k] by (meson not_le)

lemma put_all_keys:
  "ok s \<Longrightarrow> null \<notin> set ks \<Longrightarrow> length (keys s) + length ks \<le> cap \<Longrightarrow>
     \<exists>s'. put_all put ks s = Inr s' \<and> ok s' \<and> keys s' = keys s @ ks"
proof (induction ks arbitrary: s)
  case (Cons k ks)
  obtain s1 where s1: "put k s = Inr s1" "ok s1" "keys s1 = keys s @ [k]" using put_law [of s k] Cons.prems by auto
  then show ?case using Cons.IH [of s1] Cons.prems by auto
qed simp

lemma get_many_keys:
  "ok s \<Longrightarrow> keys s = ks @ ks' \<Longrightarrow> \<exists>s'. get_many get (length ks) s = Inr (ks, s') \<and> ok s' \<and> keys s' = ks'"
proof (induction ks arbitrary: s)
  case (Cons k ks)
  obtain s1 where s1: "get s = Inr (k, s1)" "ok s1" "keys s1 = ks @ ks'" using get_law [of s k] Cons.prems by auto
  then show ?case using Cons.IH [of s1] by auto
qed simp

end

section \<open>The buffer as a queue\<close>

definition kb_keys :: "'a keyboard_scheme \<Rightarrow> u8 list" where
  "kb_keys s = take (nat (key_index s)) (key_buffer s)"

definition kb_ok :: "'a keyboard_scheme \<Rightarrow> bool" where
  "kb_ok s \<longleftrightarrow> length (key_buffer s) = 256 \<and> 0 \<le> key_index s \<and> key_index s \<le> 255 \<and> key_buffer s ! nat (key_index s) = 0
     \<and> 0 \<notin> set (kb_keys s)"

lemma kb_keys_length: "kb_ok s \<Longrightarrow> length (kb_keys s) = nat (key_index s)"
  by (auto simp: kb_ok_def kb_keys_def min_def)

lemma key_shift_moves:
  assumes "0 \<le> i" "i \<le> n" "nat n < length b"
  shows "key_shift i n b = Inr (take (nat i) b @ take (nat (n - i)) (drop (nat i + 1) b) @ drop (nat n) b)"
  using assms
proof (induction i n b rule: key_shift.induct)
  case (1 i n b)
  show ?case
  proof (cases "i < n")
    case True
    let ?i = "nat i"
    have i: "?i + 1 < length b" "nat (i + 1) = ?i + 1" "nat (n - i) = Suc (nat (n - (i + 1)))" using True 1(2,4) by auto
    have g: "buf_get (i + 1) b = Inr (b ! (?i + 1))" "buf_put i (b ! (?i + 1)) b = Inr (b[?i := b ! (?i + 1)])"
      using i 1(2) by (simp_all add: buf_get_def buf_put_def)
    let ?b = "b[?i := b ! (?i + 1)]"
    have IH: "key_shift (i + 1) n ?b = Inr (take (?i + 1) ?b @ take (nat (n - (i + 1))) (drop (?i + 2) ?b) @ drop (nat n) ?b)"
      using 1(1) [OF True g] True 1(2,4) i(2) by simp
    have "take (?i + 1) ?b = take ?i b @ [b ! (?i + 1)]"
      using i(1) by (simp add: take_Suc_conv_app_nth)
    moreover have "drop (?i + 2) ?b = drop (?i + 2) b" "drop (nat n) ?b = drop (nat n) b" using True 1(2) by simp_all
    moreover have "take (nat (n - i)) (drop (?i + 1) b) = b ! (?i + 1) # take (nat (n - (i + 1))) (drop (?i + 2) b)"
      using i(1,3) by (simp flip: Cons_nth_drop_Suc)
    ultimately show ?thesis using True g IH by (simp add: key_shift.simps [of i])
  next
    case False
    then show ?thesis using 1(3) by (subst key_shift.simps) simp
  qed
qed

lemma store_key_appends:
  assumes "kb_ok s" "k \<noteq> 0" "length (kb_keys s) < 255"
  shows "\<exists>s'. store_key k s = Inr s' \<and> kb_ok s' \<and> kb_keys s' = kb_keys s @ [k]"
proof -
  let ?i = "nat (key_index s)"
  let ?b = "(key_buffer s)[?i := k, ?i + 1 := 0]"
  have i: "0 \<le> key_index s" "key_index s < 255" "length (key_buffer s) = 256" "?i < 255" "nat (key_index s + 1) = ?i + 1"
    using assms(1,3) kb_keys_length [OF assms(1)] by (auto simp: kb_ok_def)
  have run: "store_key k s = Inr (s\<lparr>key_buffer := ?b, key_index := key_index s + 1\<rparr>)"
    using i assms(2) by (simp add: store_key_def buf_put_def)
  have keys: "take (?i + 1) ?b = take ?i (key_buffer s) @ [k]"
    using i by (simp add: take_Suc_conv_app_nth)
  show ?thesis
    using assms(1,2) i keys run by (simp add: kb_ok_def kb_keys_def)
qed

lemma get_last_key_takes:
  assumes "kb_ok s" "kb_keys s = k # ks"
  shows "\<exists>s'. get_last_key s = Inr (k, s') \<and> kb_ok s' \<and> kb_keys s' = ks"
proof -
  let ?n = "nat (key_index s)"
  let ?b = "key_buffer s"
  have i: "0 < key_index s" "key_index s \<le> 255" "length ?b = 256" "?n < 256" "?b ! ?n = 0"
    using assms kb_keys_length [OF assms(1)] by (auto simp: kb_ok_def)
  obtain m where m: "?n = Suc m" using i(1) by (cases ?n) auto
  let ?b' = "take ?n (drop 1 ?b) @ drop ?n ?b"
  have sh: "key_shift 0 (key_index s) ?b = Inr ?b'" using key_shift_moves [of 0 "key_index s" ?b] i by simp
  have k: "k = ?b ! 0" "ks = take m (drop 1 ?b)"
    using assms(2) i m by (cases ?b; simp add: kb_keys_def)+
  have run: "get_last_key s = Inr (k, s\<lparr>key_buffer := ?b', key_index := key_index s - 1\<rparr>)"
    using i sh k by (simp add: get_last_key_def buf_get_def)
  have m': "nat (key_index s - 1) = m" using m by simp
  have "take m ?b' = ks" using i m k by simp
  moreover have "?b' ! m = 0" using i m by (simp add: nth_append)
  moreover have "length ?b' = 256" using i m by simp
  ultimately show ?thesis
    using run i m' assms by (simp add: kb_ok_def kb_keys_def)
qed

interpretation kb: key_fifo kb_keys kb_ok store_key get_last_key 0 255
proof (unfold_locales, goal_cases)
  case (1 s k)
  then show ?case by (rule store_key_appends)
next
  case (2 s k)
  then show ?case using kb_keys_length [of s] by (auto simp: store_key_def kb_ok_def)
next
  case (3 s k ks)
  then show ?case by (rule get_last_key_takes)
next
  case (4 s)
  then show ?case using kb_keys_length [of s] by (auto simp: get_last_key_def kb_ok_def)
qed

section \<open>Properties\<close>

text \<open>A key press: the scan code at port 0x60, then the interrupt.\<close>

definition press ::
  "(u8 list \<Rightarrow> int \<Rightarrow> int \<Rightarrow> 'a keyboard_scheme \<Rightarrow> kerror + 'a keyboard_scheme)
     \<Rightarrow> registers \<Rightarrow> u8 \<Rightarrow> 'a keyboard_scheme \<Rightarrow> kerror + 'a keyboard_scheme" where
  "press swa r scancode s = keyboard_handler swa r (s\<lparr>in_ports := (in_ports s)(0x60 := scancode)\<rparr>)"

text \<open>The unknown \<open>screen_write_at\<close> is taken to return and to leave the key buffer alone.\<close>

definition leaves_keys :: "(u8 list \<Rightarrow> int \<Rightarrow> int \<Rightarrow> 'a keyboard_scheme \<Rightarrow> kerror + 'a keyboard_scheme) \<Rightarrow> bool" where
  "leaves_keys swa \<longleftrightarrow> (\<forall>str x y s. \<exists>s'. swa str x y s = Inr s' \<and> key_buffer s' = key_buffer s \<and> key_index s' = key_index s)"

lemma press_stores:
  assumes "leaves_keys swa" "kb_ok s"
  shows "\<exists>s'. press swa r sc s = Inr s' \<and> kb_ok s'
    \<and> kb_keys s' = kb_keys s @ (if scancode_to_ascii sc \<noteq> 0 \<and> length (kb_keys s) < 255 then [scancode_to_ascii sc] else [])"
proof -
  let ?k = "scancode_to_ascii sc"
  let ?s = "s\<lparr>in_ports := (in_ports s)(0x60 := sc)\<rparr>"
  have s: "kb_ok ?s" "kb_keys ?s = kb_keys s" using assms(2) by (simp_all add: kb_ok_def kb_keys_def)
  obtain s1 where s1: "store_key ?k ?s = Inr s1" "kb_ok s1"
    "kb_keys s1 = kb_keys s @ (if ?k \<noteq> 0 \<and> length (kb_keys s) < 255 then [?k] else [])"
  proof (cases "?k \<noteq> 0 \<and> length (kb_keys s) < 255")
    case True
    then show thesis using kb.put_law [OF s(1), of ?k] that s(2) by auto
  next
    case False
    then have "store_key ?k ?s = Inr ?s" using kb.put_full [OF s(1), of ?k] s(2) by auto
    then show thesis using that s False by auto
  qed
  obtain s2 where s2: "swa (bytes ''Key IRQ1'') 0 0 s1 = Inr s2" "key_buffer s2 = key_buffer s1" "key_index s2 = key_index s1"
    using assms(1) unfolding leaves_keys_def by blast
  have "press swa r sc s = Inr s2" using s1(1) s2(1) by (simp add: press_def keyboard_handler_def inb_def)
  then show ?thesis using s1(2,3) s2(2,3) by (simp add: kb_ok_def kb_keys_def)
qed

lemma press_all_stores:
  assumes "leaves_keys swa"
  shows "kb_ok s \<Longrightarrow> length (kb_keys s) + length scs \<le> 255 \<Longrightarrow>
    \<exists>s'. put_all (press swa r) scs s = Inr s' \<and> kb_ok s' \<and> kb_keys s' = kb_keys s @ filter (\<lambda>k. k \<noteq> 0) (map scancode_to_ascii scs)"
proof (induction scs arbitrary: s)
  case (Cons sc scs)
  obtain s1 where s1: "press swa r sc s = Inr s1" "kb_ok s1"
    "kb_keys s1 = kb_keys s @ (if scancode_to_ascii sc \<noteq> 0 then [scancode_to_ascii sc] else [])"
    using press_stores [OF assms Cons.prems(1), of r sc] Cons.prems(2) by auto
  then have "length (kb_keys s1) + length scs \<le> 255" using Cons.prems(2) by auto
  from Cons.IH [OF s1(2) this] show ?case using s1 by auto
qed simp

text \<open>
  C24: Up to 255 key presses and releases, handled one interrupt each from an empty buffer, are read
  back by \<open>get_last_key\<close> as the characters of the table in the order they were typed, the codes without a
  character left out; afterwards no key is ready and the next read returns 0.
\<close>
theorem keys_read_in_order:
  assumes "leaves_keys swa" "kb_ok s" "kb_keys s = []" "length scs \<le> 255"
  defines "typed \<equiv> filter (\<lambda>k. k \<noteq> 0) (map scancode_to_ascii scs)"
  shows "\<exists>s1 s2. put_all (press swa r) scs s = Inr s1 \<and> (is_key_ready s1 \<longleftrightarrow> typed \<noteq> [])
    \<and> get_many get_last_key (length typed) s1 = Inr (typed, s2) \<and> \<not> is_key_ready s2 \<and> get_last_key s2 = Inr (0, s2)"
proof -
  obtain s1 where s1: "put_all (press swa r) scs s = Inr s1" "kb_ok s1" "kb_keys s1 = typed"
    using press_all_stores [OF assms(1,2), of scs r] assms(3,4) by (auto simp: typed_def)
  obtain s2 where s2: "get_many get_last_key (length typed) s1 = Inr (typed, s2)" "kb_ok s2" "kb_keys s2 = []"
    using kb.get_many_keys [OF s1(2), of typed "[]"] s1(3) by auto
  have ready: "is_key_ready u \<longleftrightarrow> kb_keys u \<noteq> []" if "kb_ok u" for u :: "'a keyboard_scheme"
  proof -
    have "kb_keys u \<noteq> [] \<longleftrightarrow> 0 < nat (key_index u)" using kb_keys_length [OF that] by (metis length_greater_0_conv)
    then show ?thesis by (simp add: is_key_ready_def)
  qed
  show ?thesis
    using s1 s2 ready [OF s1(2)] ready [OF s2(2)] kb.get_empty [OF s2(2,3)] by auto
qed

text \<open>
  Whatever the scan code and however full the buffer, the handler stays inside the 256 bytes of
  the buffer and keeps the null byte behind the last key; a key is dropped only when 255 are waiting.
\<close>
theorem keyboard_never_overruns:
  assumes "leaves_keys swa" "kb_ok s"
  shows "\<exists>s'. press swa r sc s = Inr s' \<and> kb_ok s'
    \<and> kb_keys s' = kb_keys s @ (if scancode_to_ascii sc \<noteq> 0 \<and> length (kb_keys s) < 255 then [scancode_to_ascii sc] else [])"
  by (rule press_stores [OF assms])

section \<open>Witnesses\<close>

definition example_keyboard :: keyboard where
  "example_keyboard = sched.extend example_sched \<lparr>tick = 0, key_buffer = replicate 256 0, key_index = 0\<rparr>"

lemma example_keyboard_ok: "kb_ok example_keyboard" "kb_keys example_keyboard = []"
  by (simp_all add: kb_ok_def kb_keys_def example_keyboard_def sched.extend_def)

lemma example_swa: "leaves_keys (\<lambda>str x y s. Inr s)"
  by (simp add: leaves_keys_def)

text \<open>Shift (without a character), then \<open>h\<close> and \<open>i\<close>.\<close>

lemma example_codes: "map scancode_to_ascii [0x2A, 0x23, 0x17] = [0, 104, 105]"
  by (simp add: scancode_to_ascii_def kbdus_def bytes_def of_char_def)

theorem keys_read_in_order_witness:
  "\<exists>s1 s2. put_all (press (\<lambda>str x y s. Inr s) zero_registers) [0x2A, 0x23, 0x17] example_keyboard = Inr s1
    \<and> get_many get_last_key 2 s1 = Inr ([104, 105], s2)"
proof -
  have typed: "filter (\<lambda>k. k \<noteq> 0) [0, 104, 105 :: u8] = [104, 105]" "length [104, 105 :: u8] = 2" by simp_all
  show ?thesis
    using keys_read_in_order [OF example_swa example_keyboard_ok, of "[0x2A, 0x23, 0x17]" zero_registers]
    unfolding example_codes typed by auto
qed

theorem keyboard_never_overruns_witness:
  "\<exists>s'. press (\<lambda>str x y s. Inr s) zero_registers 0x23 example_keyboard = Inr s' \<and> kb_keys s' = [104]"
  using keyboard_never_overruns [OF example_swa example_keyboard_ok(1), of zero_registers "0x23"]
    example_codes example_keyboard_ok(2) by auto

end
