(* ===== verification/Heap_Client.thy ===== *)
theory Heap_Client
  imports Kernel_Memory
begin

text \<open>
  What a client of the kernel heap may do with its blocks. The interface of \<open>Block_Allocator\<close> is
  extended: writing inside blocks in use keeps the heap, a hole with room for several requests keeps room
  for the rest after the first, and all blocks lie in a range of addresses that does not change.
\<close>

text \<open>The \<open>n\<close> bytes from \<open>a\<close> on lie inside one of the blocks.\<close>

definition in_blocks :: "(nat \<times> nat) set \<Rightarrow> u32 \<Rightarrow> nat \<Rightarrow> bool" where
  "in_blocks L a n \<longleftrightarrow> (\<exists>b \<in> L. fst b \<le> unat a \<and> unat a + n \<le> fst b + snd b)"

lemma in_blocks_mono: "L \<subseteq> L' \<Longrightarrow> in_blocks L a n \<Longrightarrow> in_blocks L' a n"
  by (auto simp: in_blocks_def)

lemma in_blocks_sub: "in_blocks L a n \<Longrightarrow> k \<le> n \<Longrightarrow> in_blocks L a k"
  by (force simp: in_blocks_def)

locale block_client = block_heap +
  fixes set_memory :: "mem \<Rightarrow> 's \<Rightarrow> 's" and room :: "nat \<Rightarrow> 's \<Rightarrow> bool"
    and span :: "'s \<Rightarrow> nat \<times> nat"
  assumes memory_set: "memory (set_memory m s) = m"
    and store_law: "good s \<Longrightarrow> (\<And>x. m x \<noteq> memory s x \<Longrightarrow> \<exists>b \<in> live s. fst b \<le> unat x \<and> unat x < fst b + snd b) \<Longrightarrow>
      good (set_memory m s) \<and> live (set_memory m s) = live s \<and> (room k (set_memory m s) \<longleftrightarrow> room k s)"
    and room_can: "good s \<Longrightarrow> room (unat sz + 20) s \<Longrightarrow> can sz s"
    and room_get: "good s \<Longrightarrow> room (unat sz + 20 + j) s \<Longrightarrow> 20 \<le> j \<Longrightarrow> get sz s = Inr (p, s') \<Longrightarrow> room j s'"
    and room_mono: "room k s \<Longrightarrow> j \<le> k \<Longrightarrow> room j s"
    and live_span: "good s \<Longrightarrow> b \<in> live s \<Longrightarrow> fst (span s) \<le> fst b \<and> fst b + snd b \<le> snd (span s)"
    and span_get: "good s \<Longrightarrow> can sz s \<Longrightarrow> get sz s = Inr (p, s') \<Longrightarrow> span s' = span s"
    and span_set: "span (set_memory m s) = span s"
begin

lemma in_blocks_range:
  assumes "good s" "in_blocks (live s) a n" "x \<in> addr_range a n"
  shows "\<exists>b \<in> live s. fst b \<le> unat x \<and> unat x < fst b + snd b"
proof -
  obtain b where b: "b \<in> live s" "fst b \<le> unat a" "unat a + n \<le> fst b + snd b" using assms(2) by (auto simp: in_blocks_def)
  have "fst b + snd b \<le> 2 ^ 32" using live_apart [OF assms(1)] b(1) by (auto simp: blocks_apart_def)
  then have "unat a + n \<le> 2 ^ 32" using b(3) by simp
  then have "unat a \<le> unat x \<and> unat x < unat a + n" using assms(3) addr_range_nowrap by blast
  then show ?thesis using b by (intro bexI [of _ b]) auto
qed

text \<open>Allocation followed by writes inside the new block.\<close>

lemma get_and_store:
  assumes "good s" "room (unat sz + 20) s"
  obtains p l s' where "get sz s = Inr (p, s')" "p \<noteq> 0" "unat sz \<le> l" "(unat p, l) \<notin> live s"
    "\<And>m. (\<And>x. x \<notin> addr_range p (unat sz) \<Longrightarrow> m x = memory s' x) \<Longrightarrow>
       good (set_memory m s') \<and> live (set_memory m s') = insert (unat p, l) (live s)
       \<and> (\<forall>j. 20 \<le> j \<longrightarrow> room (unat sz + 20 + j) s \<longrightarrow> room j (set_memory m s')) \<and> span (set_memory m s') = span s"
    "\<And>a k x. in_blocks (live s) a k \<Longrightarrow> x \<in> addr_range a k \<Longrightarrow> memory s' x = memory s x \<and> x \<notin> addr_range p (unat sz)"
proof -
  obtain p l s' where g: "get sz s = Inr (p, s')" "good s'" "p \<noteq> 0" "unat sz \<le> l"
    "live s' = insert (unat p, l) (live s)" "(unat p, l) \<notin> live s"
    "\<forall>b \<in> live s. keeps_block (memory s) (memory s') b"
    using get_law [OF assms(1) room_can [OF assms]] by blast
  have own: "in_blocks (live s') p (unat sz)" using g(4,5) by (auto simp: in_blocks_def)
  have ap: "blocks_apart (live s')" by (rule live_apart [OF g(2)])
  have rp: "x \<in> addr_range p (unat sz) \<longleftrightarrow> unat p \<le> unat x \<and> unat x < unat p + unat sz" for x
    using ap g(4,5) by (intro addr_range_nowrap) (auto simp: blocks_apart_def)
  have store: "good (set_memory m s') \<and> live (set_memory m s') = insert (unat p, l) (live s)
       \<and> (\<forall>j. 20 \<le> j \<longrightarrow> room (unat sz + 20 + j) s \<longrightarrow> room j (set_memory m s')) \<and> span (set_memory m s') = span s"
    if "\<And>x. x \<notin> addr_range p (unat sz) \<Longrightarrow> m x = memory s' x" for m
    using store_law [OF g(2), of m] in_blocks_range [OF g(2) own] that room_get [OF assms(1) _ _ g(1)] g(5)
      span_get [OF assms(1) room_can [OF assms] g(1)] span_set by metis
  have old: "memory s' x = memory s x \<and> x \<notin> addr_range p (unat sz)" if own: "in_blocks (live s) a k" "x \<in> addr_range a k" for a k x
  proof -
    obtain b where b: "b \<in> live s" "fst b \<le> unat x" "unat x < fst b + snd b"
      using in_blocks_range [OF assms(1) own] by blast
    have "fst b + snd b \<le> unat p \<or> unat p + l \<le> fst b"
      using ap g(5,6) b(1) unfolding blocks_apart_def by (metis fst_conv insertCI snd_conv)
    then have "x \<notin> addr_range p (unat sz)" using b g(4) unfolding rp by linarith
    then show ?thesis using g(7) b by (auto simp: keeps_block_def)
  qed
  show thesis by (rule that [OF g(1,3,4,6) store old])
qed

end

section \<open>The kernel heap\<close>

definition kheap_room :: "nat \<Rightarrow> 'a kmem_scheme \<Rightarrow> bool" where
  "kheap_room k s \<longleftrightarrow> (\<exists>b \<in> set (blocks_of (kernel_heap s) s). snd b \<and> k \<le> fst b)"

text \<open>Writes to payloads do not touch headers and footers.\<close>

lemma tiles_payload_write:
  assumes "tiles m e a bs" "a + total bs \<le> 2 ^ 32"
    and "\<And>x. a \<le> unat x \<Longrightarrow> unat x < a + total bs \<Longrightarrow> m' x \<noteq> m x \<Longrightarrow>
      \<exists>b \<in> set (payloads a bs). fst b \<le> unat x \<and> unat x < fst b + snd b"
  shows "tiles m' e a bs"
  using assms
proof (induction m e a bs rule: tiles.induct)
  case (2 m e a n f bs)
  have blk: "block_at m e a n f" and t: "tiles m e (a + n) bs" using 2(2) by simp_all
  have n: "20 \<le> n" "a + n + total bs \<le> 2 ^ 32" using blk 2(3) by (auto simp: block_at_def)
  have later: "a + n + 12 \<le> fst b" if "b \<in> set (payloads (a + n) bs)" for b
    using payloads_range [OF t, of "fst b" "snd b"] that by simp
  have head: "m' x = m x" if "a \<le> unat x" "unat x < a + n" "f \<or> unat x < a + 12 \<or> a + n - 8 \<le> unat x" for x
  proof (rule ccontr)
    assume ne: "m' x \<noteq> m x"
    have "unat x < a + total ((n, f) # bs)" using that(2) by simp
    from 2(4) [OF that(1) this ne]
    obtain b where b: "b \<in> set (payloads a ((n, f) # bs))" "fst b \<le> unat x" "unat x < fst b + snd b" by blast
    then have "\<not> f \<and> b = (a + 12, n - 20) \<or> b \<in> set (payloads (a + n) bs)" by (auto split: if_splits)
    then show False using b that later [of b] n(1) by auto
  qed
  have "agree a (a + 12) m m'" "f \<Longrightarrow> agree a (a + n) m m'" using head n(1) by (simp_all add: agree_def)
  moreover have "agree (a + n - 8) (a + n) m m'"
    unfolding agree_def
  proof (intro allI impI, rule head)
    fix x assume "a + n - 8 \<le> unat x \<and> unat x < a + n"
    then show "a \<le> unat x" "unat x < a + n" "f \<or> unat x < a + 12 \<or> a + n - 8 \<le> unat x" using n(1) by auto
  qed
  ultimately have "block_at m' e a n f"
    using blk n header_agree [of a "a + 12" m m' a] footer_agree [of "a + n - 8" "a + n" m m' "a + n - 8"]
    by (simp add: block_at_def footer_at_def)
  moreover have "tiles m' e (a + n) bs"
  proof (rule 2(1) [OF t n(2)])
    fix x assume x: "a + n \<le> unat x" "unat x < a + n + total bs" "m' x \<noteq> m x"
    then obtain b where "b \<in> set (payloads a ((n, f) # bs))" "fst b \<le> unat x" "unat x < fst b + snd b"
      using 2(4) [of x] by (auto simp: add.assoc)
    then show "\<exists>b \<in> set (payloads (a + n) bs). fst b \<le> unat x \<and> unat x < fst b + snd b"
      using x(1) n(1) by (auto split: if_splits)
  qed
  ultimately show ?case by simp
qed simp

lemma heap_ok_payload_write:
  assumes ok: "heap_ok h bs s"
    and w: "\<And>x. m x \<noteq> mem s x \<Longrightarrow> \<exists>b \<in> set (payloads (hstart h s) bs). fst b \<le> unat x \<and> unat x < fst b + snd b"
  shows "heap_ok h bs (s\<lparr>mem := m\<rparr>)"
proof -
  note o = heap_okD [OF ok]
  have e: "hstart h s + total bs \<le> 2 ^ 32" using o(1) unat_lt_power [of "h_addr_end (heaps s h)"] by linarith
  have t: "tiles m (hend h s) (hstart h s) bs" by (rule tiles_payload_write [OF o(2) e]) (use w in blast)
  have "m x = mem s x" if "x \<in> sa_region (h_index (heaps s h))" for x
  proof (rule ccontr)
    assume "m x \<noteq> mem s x"
    then obtain b where b: "b \<in> set (payloads (hstart h s) bs)" "fst b \<le> unat x" using w by blast
    have "hstart h s \<le> unat x" using payloads_range [OF o(2), of "fst b" "snd b"] b by simp
    then show False using region_below [OF o(3,5)] that by blast
  qed
  then have "sa_elems (h_index (heaps s h)) m = sa_elems (h_index (heaps s h)) (mem s)"
    by (rule sa_elems_frame [OF o(3)])
  then show ?thesis using ok t by (simp add: heap_ok_def Let_def)
qed

lemma kheap_store_law:
  assumes good: "kheap_good s"
    and w: "\<And>x. m x \<noteq> mem s x \<Longrightarrow> \<exists>b \<in> kheap_live s. fst b \<le> unat x \<and> unat x < fst b + snd b"
  shows "kheap_good (s\<lparr>mem := m\<rparr>) \<and> kheap_live (s\<lparr>mem := m\<rparr>) = kheap_live s \<and> (kheap_room k (s\<lparr>mem := m\<rparr>) \<longleftrightarrow> kheap_room k s)"
proof -
  note g = kheap_goodD [OF good]
  have ok: "heap_ok (kernel_heap s) (blocks_of (kernel_heap s) s) (s\<lparr>mem := m\<rparr>)"
    by (rule heap_ok_payload_write [OF g(2)]) (use w in \<open>simp add: kheap_live_def\<close>)
  have b: "blocks_of (kernel_heap s) (s\<lparr>mem := m\<rparr>) = blocks_of (kernel_heap s) s" by (rule heap_ok_blocks [OF ok])
  show ?thesis using g(1) ok b by (simp add: kheap_good_def kheap_live_def kheap_room_def)
qed

lemma kheap_room_get:
  assumes good: "kheap_good s" and room: "kheap_room (unat sz + 20 + j) s" and j: "20 \<le> j"
    and run: "kmalloc (Suc n) sz s = Inr (p, s')"
  shows "kheap_room j s'"
proof -
  let ?h = "kernel_heap s"
  note g = kheap_goodD [OF good]
  obtain k where k: "(k, True) \<in> set (blocks_of ?h s)" "unat sz + 20 + j \<le> k" using room by (force simp: kheap_room_def)
  show ?thesis
  proof (rule alloc_hole [OF g(2) k(1), where sz = sz and k = n])
    show "unat sz + 20 \<le> k" using k(2) by simp
    fix xs i ys s''
    assume r: "blocks_of ?h s = xs @ (i, True) # ys" "unat sz + 20 \<le> i"
      "alloc (Suc n) sz 0 ?h s = Inr (of_nat (hstart ?h s + total xs) + SIZEOF_header, s'')"
      "heap_ok ?h (xs @ cut_hole i (unat sz + 20) @ ys) s''" "only_heap s s''"
    have s: "s'' = s'" using r(3) run kmalloc_heap [OF g(1), of "Suc n" sz] by simp
    have "\<exists>b \<in> set (xs @ cut_hole i (unat sz + 20) @ ys). snd b \<and> j \<le> fst b"
    proof (cases "(k, True) \<in> set (xs @ ys)")
      case True
      then show ?thesis using k(2) by (intro bexI [of _ "(k, True)"]) auto
    next
      case False
      then have "k = i" using k(1) r(1) by auto
      then show ?thesis using k(2) j by (intro bexI [of _ "(i - (unat sz + 20), True)"]) (auto simp: cut_hole_def)
    qed
    then show ?thesis
      using heap_ok_blocks [OF r(4)] only_heapD(1) [OF r(5)] unfolding s by (simp add: kheap_room_def)
  qed
qed

definition kheap_span :: "'a kmem_scheme \<Rightarrow> nat \<times> nat" where
  "kheap_span s = (hstart (kernel_heap s) s, hend (kernel_heap s) s)"

lemma kheap_span_get:
  assumes good: "kheap_good s" and can: "kheap_can sz s" and run: "kmalloc (Suc n) sz s = Inr (p, s')"
  shows "kheap_span s' = kheap_span s"
proof -
  let ?h = "kernel_heap s"
  note g = kheap_goodD [OF good]
  obtain k where k: "(k, True) \<in> set (blocks_of ?h s)" "unat sz + 20 \<le> k" using can by (force simp: kheap_can_def)
  show ?thesis
  proof (rule alloc_hole [OF g(2) k, where k = n])
    fix xs i ys s''
    assume r: "alloc (Suc n) sz 0 ?h s = Inr (of_nat (hstart ?h s + total xs) + SIZEOF_header, s'')" "only_heap s s''"
      "h_addr_start (heaps s'' ?h) = h_addr_start (heaps s ?h)" "h_addr_end (heaps s'' ?h) = h_addr_end (heaps s ?h)"
    have "s'' = s'" using r(1) run kmalloc_heap [OF g(1), of "Suc n" sz] by simp
    then show ?thesis using r(3,4) only_heapD(1) [OF r(2)] by (simp add: kheap_span_def)
  qed
qed

lemma kheap_live_span:
  assumes "kheap_good s" "b \<in> kheap_live s"
  shows "fst (kheap_span s) \<le> fst b \<and> fst b + snd b \<le> snd (kheap_span s)"
proof -
  note g = kheap_goodD [OF assms(1)]
  have "hstart (kernel_heap s) s + total (blocks_of (kernel_heap s) s) = hend (kernel_heap s) s" using heap_okD(1) [OF g(2)] .
  moreover have "(fst b, snd b) \<in> set (payloads (hstart (kernel_heap s) s) (blocks_of (kernel_heap s) s))"
    using assms(2) by (simp add: kheap_live_def)
  from payloads_range [OF g(3) this] have "hstart (kernel_heap s) s + 12 \<le> fst b"
    "fst b + snd b + 8 \<le> hstart (kernel_heap s) s + total (blocks_of (kernel_heap s) s)" by simp_all
  ultimately show ?thesis unfolding kheap_span_def fst_conv snd_conv by linarith
qed

interpretation kclient: block_client "kmalloc (Suc n)" mem kheap_good kheap_live kheap_can kfree kheap_may_put
  "\<lambda>m s. s\<lparr>mem := m\<rparr>" kheap_room kheap_span for n
proof (unfold_locales, goal_cases)
  case (2 s m k)
  then show ?case using kheap_store_law by blast
next
  case (3 s sz)
  then show ?case by (auto simp: kheap_room_def kheap_can_def)
next
  case (4 s sz j p s')
  then show ?case using kheap_room_get by blast
next
  case (5 k s j)
  then show ?case by (auto simp: kheap_room_def)
next
  case (6 s b)
  then show ?case by (rule kheap_live_span)
next
  case (7 s sz p s')
  then show ?case by (rule kheap_span_get)
qed (simp_all add: kheap_span_def)

text \<open>An allocation changes memory and the heap record only.\<close>

lemma kmalloc_only_heap:
  assumes "kheap_good s" "kheap_room (unat sz + 20) s" "kmalloc (Suc n) sz s = Inr (p, s')"
  shows "only_heap s s'"
  using kheap_get_law [of s sz n] assms by (auto simp: kheap_room_def kheap_can_def)

lemma kheap_store_block:
  assumes "kheap_good s" "in_blocks (kheap_live s) a n" "\<And>x. x \<notin> addr_range a n \<Longrightarrow> m x = mem s x"
  shows "kheap_good (s\<lparr>mem := m\<rparr>)" "kheap_live (s\<lparr>mem := m\<rparr>) = kheap_live s" "kheap_room k (s\<lparr>mem := m\<rparr>) = kheap_room k s"
  using kheap_store_law [OF assms(1), of m k] kclient.in_blocks_range [OF assms(1,2)] assms(3) by metis+

text \<open>Allocating a block and writing into it, with everything a caller needs to go on.\<close>

lemma kheap_alloc_write:
  assumes "kheap_good s" "kheap_room (unat sz + 20 + j) s" "20 \<le> j"
  obtains p s1 where "kmalloc (Suc n) sz s = Inr (p, s1)" "p \<noteq> 0" "only_heap s s1"
    "\<And>m. (\<And>x. x \<notin> addr_range p (unat sz) \<Longrightarrow> m x = mem s1 x) \<Longrightarrow>
       kheap_good (s1\<lparr>mem := m\<rparr>) \<and> kheap_room j (s1\<lparr>mem := m\<rparr>) \<and> kheap_span (s1\<lparr>mem := m\<rparr>) = kheap_span s
       \<and> in_blocks (kheap_live (s1\<lparr>mem := m\<rparr>)) p (unat sz)
       \<and> (\<forall>a k. in_blocks (kheap_live s) a k \<longrightarrow> in_blocks (kheap_live (s1\<lparr>mem := m\<rparr>)) a k
            \<and> addr_range a k \<inter> addr_range p (unat sz) = {} \<and> (\<forall>x \<in> addr_range a k. m x = mem s x))"
proof -
  have rm: "kheap_room (unat sz + 20) s" by (rule kclient.room_mono [OF assms(2)]) simp
  show thesis
  proof (rule kclient.get_and_store [OF assms(1) rm, of n])
    fix p l s1
    assume g: "kmalloc (Suc n) sz s = Inr (p, s1)" "p \<noteq> 0" "unat sz \<le> l"
      and st: "\<And>m. (\<And>x. x \<notin> addr_range p (unat sz) \<Longrightarrow> m x = mem s1 x) \<Longrightarrow>
        kheap_good (s1\<lparr>mem := m\<rparr>) \<and> kheap_live (s1\<lparr>mem := m\<rparr>) = insert (unat p, l) (kheap_live s)
        \<and> (\<forall>j\<ge>20. kheap_room (unat sz + 20 + j) s \<longrightarrow> kheap_room j (s1\<lparr>mem := m\<rparr>)) \<and> kheap_span (s1\<lparr>mem := m\<rparr>) = kheap_span s"
      and old: "\<And>a k x. in_blocks (kheap_live s) a k \<Longrightarrow> x \<in> addr_range a k \<Longrightarrow> mem s1 x = mem s x \<and> x \<notin> addr_range p (unat sz)"
    have new: "in_blocks (insert (unat p, l) (kheap_live s)) p (unat sz)" using g(3) by (auto simp: in_blocks_def)
    have up: "in_blocks (insert (unat p, l) (kheap_live s)) a k" if "in_blocks (kheap_live s) a k" for a k
      by (rule in_blocks_mono [OF subset_insertI that])
    show thesis
    proof (rule that [OF g(1,2) kmalloc_only_heap [OF assms(1) rm g(1)]])
      fix m assume w: "\<And>x. x \<notin> addr_range p (unat sz) \<Longrightarrow> m x = mem s1 x"
      have dj: "addr_range a k \<inter> addr_range p (unat sz) = {} \<and> (\<forall>x \<in> addr_range a k. m x = mem s x)"
        if "in_blocks (kheap_live s) a k" for a k using old [OF that] w by fastforce
      show "kheap_good (s1\<lparr>mem := m\<rparr>) \<and> kheap_room j (s1\<lparr>mem := m\<rparr>) \<and> kheap_span (s1\<lparr>mem := m\<rparr>) = kheap_span s
       \<and> in_blocks (kheap_live (s1\<lparr>mem := m\<rparr>)) p (unat sz)
       \<and> (\<forall>a k. in_blocks (kheap_live s) a k \<longrightarrow> in_blocks (kheap_live (s1\<lparr>mem := m\<rparr>)) a k
            \<and> addr_range a k \<inter> addr_range p (unat sz) = {} \<and> (\<forall>x \<in> addr_range a k. m x = mem s x))"
        using st [OF w] assms(2,3) new up dj by simp
    qed
  qed
qed

text \<open>
  A block with a neighbour on its left and a block in use on its right can be released. Unlike
  \<open>kheap_may_put\<close> this looks at no word in front of the heap, so it survives every write of a client.
\<close>

definition kheap_inner :: "u32 \<Rightarrow> 'a kmem_scheme \<Rightarrow> bool" where
  "kheap_inner p s \<longleftrightarrow> (\<exists>xs n k ys. blocks_of (kernel_heap s) s = xs @ (n, False) # (k, False) # ys \<and> xs \<noteq> []
     \<and> p = of_nat (hstart (kernel_heap s) s + total xs) + SIZEOF_header
     \<and> (snd (last xs) \<or> sa_size (h_index (heaps s (kernel_heap s))) < sa_maxsize (h_index (heaps s (kernel_heap s)))))"

lemma kheap_inner_may_put: "kheap_inner p s \<Longrightarrow> kheap_may_put p s"
  unfolding kheap_inner_def kheap_may_put_def left_used_def by metis

lemma kheap_store_inner:
  assumes "kheap_good s" "in_blocks (kheap_live s) a n" "\<And>x. x \<notin> addr_range a n \<Longrightarrow> m x = mem s x"
  shows "kheap_inner p (s\<lparr>mem := m\<rparr>) = kheap_inner p s"
proof -
  have w: "\<exists>b \<in> kheap_live s. fst b \<le> unat x \<and> unat x < fst b + snd b" if "m x \<noteq> mem s x" for x
    using kclient.in_blocks_range [OF assms(1,2)] assms(3) that by blast
  have ok: "heap_ok (kernel_heap s) (blocks_of (kernel_heap s) s) (s\<lparr>mem := m\<rparr>)"
    by (rule heap_ok_payload_write [OF kheap_goodD(2) [OF assms(1)]]) (use w in \<open>simp add: kheap_live_def\<close>)
  show ?thesis by (simp add: kheap_inner_def heap_ok_blocks [OF ok])
qed

lemma kfree_inner:
  assumes "kheap_good s" "kheap_inner p s" "(unat p, l) \<in> kheap_live s"
  obtains s' where "kfree p s = Inr s'" "kheap_good s'" "kheap_live s' = kheap_live s - {(unat p, l)}" "only_heap s s'"
    "\<And>a k x. in_blocks (kheap_live s') a k \<Longrightarrow> x \<in> addr_range a k \<Longrightarrow> mem s' x = mem s x"
proof -
  obtain s' where f: "kfree p s = Inr s'" "kheap_good s'" "kheap_live s' = kheap_live s - {(unat p, l)}"
    "\<forall>b \<in> kheap_live s'. keeps_block (mem s) (mem s') b" "only_heap s s'"
    using kheap_put_law [OF assms(1) kheap_inner_may_put [OF assms(2)] assms(3)] by blast
  have "mem s' x = mem s x" if "in_blocks (kheap_live s') a k" "x \<in> addr_range a k" for a k x
    using kclient.in_blocks_range [OF f(2) that] f(4) by (auto simp: keeps_block_def)
  then show thesis using that f(1-3,5) by blast
qed

end
