(* ===== verification/Ready_Queue.thy ===== *)
theory Ready_Queue
  imports Scheduler Heap_Client
begin

text \<open>
  The scheduler on top of the kernel heap: nodes and threads are blocks in use, and the operations on
  the ready queue keep the heap and every other block.
\<close>

lemma only_heap_sched:
  fixes s s' :: "'a sched_scheme"
  assumes "only_heap s s'"
  shows "ready_queue s' = ready_queue s" "current_thread s' = current_thread s" "cpu s' = cpu s"
    "thread_c_current s' = thread_c_current s" "next_tid s' = next_tid s" "kernel_heap s' = kernel_heap s"
  using assms unfolding only_heap_def by (cases s; cases s'; simp)+

text \<open>The heap does not depend on the fields of the scheduler.\<close>

lemma kheap_sched_update [simp]:
  fixes s :: "'a sched_scheme"
  shows "kheap_good (s\<lparr>ready_queue := v\<rparr>) = kheap_good s" "kheap_live (s\<lparr>ready_queue := v\<rparr>) = kheap_live s"
    "kheap_room k (s\<lparr>ready_queue := v\<rparr>) = kheap_room k s"
    "kheap_good (s\<lparr>next_tid := v\<rparr>) = kheap_good s" "kheap_live (s\<lparr>next_tid := v\<rparr>) = kheap_live s"
    "kheap_room k (s\<lparr>next_tid := v\<rparr>) = kheap_room k s"
    "kheap_good (s\<lparr>current_thread := v\<rparr>) = kheap_good s" "kheap_live (s\<lparr>current_thread := v\<rparr>) = kheap_live s"
    "kheap_room k (s\<lparr>current_thread := v\<rparr>) = kheap_room k s"
    "kheap_span (s\<lparr>ready_queue := v\<rparr>) = kheap_span s" "kheap_span (s\<lparr>next_tid := v\<rparr>) = kheap_span s"
    "kheap_span (s\<lparr>current_thread := v\<rparr>) = kheap_span s" "kheap_span (s\<lparr>mem := m\<rparr>) = kheap_span s"
    "kheap_good (s\<lparr>thread_c_current := v\<rparr>) = kheap_good s" "kheap_live (s\<lparr>thread_c_current := v\<rparr>) = kheap_live s"
    "kheap_room k (s\<lparr>thread_c_current := v\<rparr>) = kheap_room k s" "kheap_span (s\<lparr>thread_c_current := v\<rparr>) = kheap_span s"
  by (simp_all add: kheap_span_def kheap_good_def kheap_live_def kheap_room_def heap_ok_def blocks_of_def Let_def)

text \<open>The queue is in memory and its nodes are blocks in use.\<close>

definition queue_ok :: "'a sched_scheme \<Rightarrow> (u32 \<times> u32) list \<Rightarrow> bool" where
  "queue_ok s q \<longleftrightarrow> kheap_good s \<and> qseg (mem s) (ready_queue s) q 0 \<and> nodes_apart (map fst q)
     \<and> (\<forall>p \<in> set q. \<exists>l \<ge> 8. (unat (fst p), l) \<in> kheap_live s)"

lemma queue_nodes: "queue_ok s q \<Longrightarrow> p \<in> set q \<Longrightarrow> in_blocks (kheap_live s) (fst p) 8"
  unfolding queue_ok_def in_blocks_def by (metis add_le_cancel_left fst_conv order_refl snd_conv)

lemma put_node_outside: "x \<notin> node_cells a \<Longrightarrow> put_node a t nx m x = m x"
proof -
  assume "x \<notin> node_cells a"
  then have "x \<notin> addr_range a 4" "x \<notin> addr_range (a + 4) 4" using node_words [of a] by blast+
  then show ?thesis by (simp add: put_node_def write32_outside del: addr_range_code)
qed

lemma put_node_self [simp]: "tl_thread (put_node a t nx m) a = t" "tl_next (put_node a t nx m) a = nx"
  by (simp_all add: put_node_def tl_thread_def tl_next_def read_field)

lemma thread_is_ready_steps:
  fixes s :: "'a sched_scheme"
  assumes q: "queue_ok s q" and rm: "kheap_room 28 s" and len: "length q \<le> Suc n"
  obtains item s' where "thread_is_ready (Suc n) t s = Inr s'" "queue_ok s' (q @ [(item, t)])"
    "\<And>b. b \<in> kheap_live s \<Longrightarrow> b \<in> kheap_live s'" "current_thread s' = current_thread s" "cpu s' = cpu s"
    "next_tid s' = next_tid s" "kheap_span s' = kheap_span s"
    "\<And>a k x. in_blocks (kheap_live s) a k \<Longrightarrow> x \<in> addr_range a k \<Longrightarrow> \<forall>p \<in> set q. x \<notin> node_cells (fst p) \<Longrightarrow> mem s' x = mem s x"
    "\<And>a k. in_blocks (kheap_live s) a k \<Longrightarrow> addr_range a k \<inter> node_cells item = {}"
proof -
  have good: "kheap_good s" and qs: "qseg (mem s) (ready_queue s) q 0" and na: "nodes_apart (map fst q)"
    and blk: "\<And>p. p \<in> set q \<Longrightarrow> \<exists>l \<ge> 8. (unat (fst p), l) \<in> kheap_live s"
    using q by (auto simp: queue_ok_def)
  note own = queue_nodes [OF q]
  have sz: "unat SIZEOF_thread_list_t = 8" by (simp add: SIZEOF_thread_list_t_def)
  have rm': "kheap_room (unat SIZEOF_thread_list_t + 20) s" using rm by (simp add: sz)
  obtain c l s1 where g: "kmalloc (Suc n) SIZEOF_thread_list_t s = Inr (c, s1)" "c \<noteq> 0" "8 \<le> l"
    and store: "\<And>m. (\<And>x. x \<notin> node_cells c \<Longrightarrow> m x = mem s1 x) \<Longrightarrow>
       kheap_good (s1\<lparr>mem := m\<rparr>) \<and> kheap_live (s1\<lparr>mem := m\<rparr>) = insert (unat c, l) (kheap_live s)"
    and span: "kheap_span s1 = kheap_span s"
    and old: "\<And>a k x. in_blocks (kheap_live s) a k \<Longrightarrow> x \<in> addr_range a k \<Longrightarrow> mem s1 x = mem s x \<and> x \<notin> node_cells c"
  proof (rule kclient.get_and_store [OF good rm', of n])
    fix c l s1
    assume a: "kmalloc (Suc n) SIZEOF_thread_list_t s = Inr (c, s1)" "c \<noteq> 0" "unat SIZEOF_thread_list_t \<le> l"
      and st: "\<And>m. (\<And>x. x \<notin> addr_range c (unat SIZEOF_thread_list_t) \<Longrightarrow> m x = mem s1 x) \<Longrightarrow>
        kheap_good (s1\<lparr>mem := m\<rparr>) \<and> kheap_live (s1\<lparr>mem := m\<rparr>) = insert (unat c, l) (kheap_live s)
        \<and> (\<forall>j\<ge>20. kheap_room (unat SIZEOF_thread_list_t + 20 + j) s \<longrightarrow> kheap_room j (s1\<lparr>mem := m\<rparr>))
        \<and> kheap_span (s1\<lparr>mem := m\<rparr>) = kheap_span s"
      and ol: "\<And>a k x. in_blocks (kheap_live s) a k \<Longrightarrow> x \<in> addr_range a k \<Longrightarrow>
        mem s1 x = mem s x \<and> x \<notin> addr_range c (unat SIZEOF_thread_list_t)"
    have "kheap_span s1 = kheap_span s" using st [of "mem s1"] by simp
    then show thesis
      by (intro that [OF a(1,2)]) (use a(3) st ol in \<open>simp_all add: sz node_cells_def del: addr_range_code\<close>)
  qed
  note fld = only_heap_sched [OF kmalloc_only_heap [OF good rm' g(1)]]
  let ?m = "put_node c t 0 (mem s1)"
  let ?s2 = "s1\<lparr>mem := ?m\<rparr>"
  have s2: "kheap_good ?s2" "kheap_live ?s2 = insert (unat c, l) (kheap_live s)"
    using store [of ?m] put_node_outside by blast+
  have keep2: "?m x = mem s x" if "in_blocks (kheap_live s) a k" "x \<in> addr_range a k" for a k x
    using old [OF that] put_node_outside by metis
  have qs2: "qseg ?m (ready_queue s) q 0"
  proof (subst qseg_agree [of q])
    fix a x assume "a \<in> fst ` set q" "x \<in> node_cells a"
    then show "?m x = mem s x" using keep2 [OF own] by (auto simp: node_cells_def simp del: addr_range_code)
  qed (rule qs)
  have ap: "node_cells (fst p) \<inter> node_cells c = {}" if "p \<in> set q" for p
    using old [OF own [OF that]] by (auto simp: node_cells_def simp del: addr_range_code)
  have na': "nodes_apart (map fst (q @ [(c, t)]))"
    using na ap by (auto simp: nodes_apart_def sorted_wrt_append simp del: addr_range_code)
  have own': "\<forall>p \<in> set (q @ [(c, t)]). \<exists>k \<ge> 8. (unat (fst p), k) \<in> insert (unat c, l) (kheap_live s)"
  proof
    fix p assume "p \<in> set (q @ [(c, t)])"
    then have "p \<in> set q \<or> p = (c, t)" by auto
    then show "\<exists>k \<ge> 8. (unat (fst p), k) \<in> insert (unat c, l) (kheap_live s)"
      using blk [of p] g(3) by (elim disjE) (blast, auto)
  qed
  have apc: "addr_range a k \<inter> node_cells c = {}" if "in_blocks (kheap_live s) a k" for a k using old [OF that] by blast
  show thesis
  proof (cases q rule: rev_cases)
    case Nil
    let ?s' = "?s2\<lparr>ready_queue := c\<rparr>"
    have upd: "?s' = (s1\<lparr>ready_queue := c\<rparr>)\<lparr>mem := ?m\<rparr>" by simp
    have run: "thread_is_ready (Suc n) t s = Inr ?s'"
      using qs Nil fld(1) by (simp add: thread_is_ready_def g(1) Let_def)
    have k: "kheap_good ?s' = kheap_good ?s2" "kheap_live ?s' = kheap_live ?s2" by (rule kheap_sched_update)+
    show thesis
    proof (rule that [OF run])
      show "queue_ok ?s' (q @ [(c, t)])" using s2 own' na' g(2) k Nil by (simp add: queue_ok_def)
      show "mem ?s' x = mem s x" if "in_blocks (kheap_live s) a k" "x \<in> addr_range a k" for a k x using keep2 [OF that] by simp
    qed (use s2 k fld apc span in simp_all)
  next
    case (snoc q0 at)
    obtain a u where at: "at = (a, u)" by (cases at)
    let ?s' = "?s2\<lparr>mem := write32 (a + 4) c ?m\<rparr>"
    have qa: "q = q0 @ [(a, u)]" using snoc at by simp
    have ne: "ready_queue s1 \<noteq> 0" using qs fld(1) qa by (cases q0) (auto dest: qseg_nonnull)
    have last: "last_node (Suc n) ?m (ready_queue s1) = Inr a"
      using last_node_qseg [of ?m "ready_queue s" q0 a u "Suc n"] qs2 len fld(1) qa by simp
    have run: "thread_is_ready (Suc n) t s = Inr ?s'"
      using ne last by (simp add: thread_is_ready_def g(1) Let_def del: last_node.simps)
    have qs3: "qseg (write32 (a + 4) c ?m) (ready_queue s) (q @ [(c, t)]) 0"
      using qseg_enqueue [of ?m "ready_queue s" q0 a u c t] qs2 na' g(2) qa by simp
    have "in_blocks (kheap_live ?s2) a 8" using in_blocks_mono [OF subset_insertI own [of "(a, u)"]] s2(2) qa by simp
    then have k: "kheap_good ?s'" "kheap_live ?s' = kheap_live ?s2"
      using kheap_store_block [OF s2(1), of a 8 "write32 (a + 4) c ?m"] write_next_outside [of _ a c ?m]
      by (simp_all add: node_cells_def del: addr_range_code)
    show thesis
    proof (rule that [OF run])
      show "queue_ok ?s' (q @ [(c, t)])" using s2 own' na' k qs3 fld(1) by (simp add: queue_ok_def)
      show "mem ?s' x = mem s x"
        if "in_blocks (kheap_live s) b k" "x \<in> addr_range b k" "\<forall>p \<in> set q. x \<notin> node_cells (fst p)" for b k x
        using keep2 [OF that(1,2)] write_next_outside [of x a c ?m] that(3) qa by simp
    qed (use s2 k fld apc span in simp_all)
  qed
qed

section \<open>Creating a thread\<close>

text \<open>What \<open>create_thread\<close> writes before it queues the thread.\<close>

definition thread_image :: "u32 \<Rightarrow> u32 \<Rightarrow> u32 \<Rightarrow> u32 \<Rightarrow> u32 \<Rightarrow> u32 \<Rightarrow> mem \<Rightarrow> mem" where
  "thread_image t i fn ea arg stack m =
     write32 (t + 20) 0x200 (write32 (t + 4) 0 (write32 (t + 0) (stack - 12)
       (write32 (stack - 12) fn (write32 (stack - 8) ea (write32 (stack - 4) arg
         (write32 (t + 24) i (memset t 0 SIZEOF_thread_t m)))))))"

lemma create_thread_image:
  "create_thread n ea fn arg stack s =
     ebind (kmalloc n SIZEOF_thread_t s) (\<lambda>(t, s).
       ebind (thread_is_ready n t (s\<lparr>mem := thread_image t (next_tid s) fn ea arg stack (mem s), next_tid := next_tid s + 1\<rparr>))
         (\<lambda>s. Inr (t, s)))"
  by (simp add: create_thread_def thread_image_def Let_def)

lemma thread_image_outside:
  assumes "x \<notin> thread_cells t" "x \<notin> addr_range (stack - 16) 16"
  shows "thread_image t i fn ea arg stack m x = m x"
proof -
  have t: "x \<notin> addr_range (t + d) 4" if "d \<in> {0, 4, 8, 12, 16, 20, 24}" for d using thread_words [OF that] assms(1) by blast
  have st: "addr_range (stack - 16 + d) 4 \<subseteq> addr_range (stack - 16) 16" if "unat d + 4 \<le> 16" for d
    by (rule addr_sub [OF that]) simp
  have "x \<notin> addr_range (stack - 4) 4" "x \<notin> addr_range (stack - 8) 4" "x \<notin> addr_range (stack - 12) 4"
    using st [of 12] st [of 8] st [of 4] assms(2) by auto
  then show ?thesis
    using t [of 20] t [of 4] t [of 0] t [of 24] assms(1)
    by (simp add: thread_image_def write32_outside memset_apply thread_cells_def SIZEOF_thread_t_def del: addr_range_code)
qed

lemma stack_words:
  "addr_range (e - 4) 4 \<subseteq> addr_range (e - 16) 16" "addr_range (e - 8) 4 \<subseteq> addr_range (e - 16) 16"
  "addr_range (e - 12) 4 \<subseteq> addr_range (e - 16) 16" "addr_range (e - 16) 4 \<subseteq> addr_range (e - 16) 16"
proof -
  have st: "addr_range (e - 16 + d) 4 \<subseteq> addr_range (e - 16) 16" if "unat d + 4 \<le> 16" for d
    by (rule addr_sub [OF that]) simp
  show "addr_range (e - 4) 4 \<subseteq> addr_range (e - 16) 16" "addr_range (e - 8) 4 \<subseteq> addr_range (e - 16) 16"
    "addr_range (e - 12) 4 \<subseteq> addr_range (e - 16) 16" "addr_range (e - 16) 4 \<subseteq> addr_range (e - 16) 16"
    using st [of 12] st [of 8] st [of 4] st [of 0] by simp_all
qed

definition fresh_cpu :: "u32 \<Rightarrow> cpu" where
  "fresh_cpu stack = \<lparr>cpu_esp = stack - 12, cpu_ebp = 0, cpu_ebx = 0, cpu_esi = 0, cpu_edi = 0, cpu_eflags = 0x200, cpu_eip = 0\<rparr>"

lemma thread_image_context:
  fixes t i fn ea arg stack :: u32 and m :: mem
  assumes apart: "addr_range (stack - 16) 16 \<inter> thread_cells t = {}"
  defines "m' \<equiv> thread_image t i fn ea arg stack m"
  shows "context_of m' t (fresh_cpu stack)" "read32 m' (t + 24) = i"
    "read32 m' (stack - 12) = fn" "read32 m' (stack - 8) = ea" "read32 m' (stack - 4) = arg"
proof -
  let ?m0 = "memset t 0 SIZEOF_thread_t m"
  have zero: "read32 ?m0 (t + d) = 0" if "d \<in> {0, 4, 8, 12, 16, 20, 24}" for d
    using thread_words [OF that, of t]
    by (intro read32_zero) (auto simp: memset_apply thread_cells_def SIZEOF_thread_t_def simp del: addr_range_code)
  have stk: "addr_range (stack - k) 4 \<inter> thread_cells t = {}" if "k \<in> {4, 8, 12}" for k
    using stack_words(1-3) [of stack] apart that by blast
  have other: "read32 (write32 (stack - k) v mm) (t + d) = read32 mm (t + d)" "read32 (write32 (t + d) v mm) (stack - k) = read32 mm (stack - k)"
    if "k \<in> {4, 8, 12}" "d \<in> {0, 4, 8, 12, 16, 20, 24}" for k d v mm
    using thread_word_other [OF stk [OF that(1)] that(2)] by auto
  have z: "read32 (write32 (t + e) v mm) t = read32 mm t" if "e \<in> {4, 8, 12, 16, 20, 24}" for e v mm
    using read32_field [of 0 e t v mm] that by (elim insertE) simp_all
  have b: "read32 (write32 t v mm) (t + e) = read32 mm (t + e)" if "e \<in> {4, 8, 12, 16, 20, 24}" for e v mm
    using read32_field [of e 0 t v mm] that by (elim insertE) simp_all
  note o0 = other(1) [of _ 0, simplified] other(2) [of _ 0, simplified]
  show "context_of m' t (fresh_cpu stack)"
    by (simp add: m'_def thread_image_def context_of_def fresh_cpu_def read32_field other o0 z b zero)
  show "read32 m' (t + 24) = i"
    by (simp add: m'_def thread_image_def read32_field other b)
  have w: "read32 (write32 (stack - k) v mm) (stack - j) = read32 mm (stack - j)"
    if "(j, k) \<in> {(4, 8), (4, 12), (8, 12)}" for j k v mm
    using that read32_field [of 12 8 "stack - 16" v mm] read32_field [of 12 4 "stack - 16" v mm] read32_field [of 8 4 "stack - 16" v mm]
    by auto
  show "read32 m' (stack - 12) = fn" "read32 m' (stack - 8) = ea" "read32 m' (stack - 4) = arg"
    by (simp_all add: m'_def thread_image_def other o0 w)
qed

text \<open>The new thread is a block in use; its context and its stack are in place before it is queued.\<close>

lemma create_thread_steps:
  fixes s :: "'a sched_scheme"
  assumes q: "queue_ok s q" and rm: "kheap_room 76 s" and len: "length q \<le> Suc n"
    and stk: "in_blocks (kheap_live s) (stack - 16) 16"
    and away: "\<And>p. p \<in> set q \<Longrightarrow> node_cells (fst p) \<inter> addr_range (stack - 16) 16 = {}"
  obtains t item s' where "create_thread (Suc n) ea fn arg stack s = Inr (t, s')" "queue_ok s' (q @ [(item, t)])"
    "context_of (mem s') t (fresh_cpu stack)" "read32 (mem s') (t + 24) = next_tid s" "next_tid s' = next_tid s + 1"
    "read32 (mem s') (stack - 12) = fn" "read32 (mem s') (stack - 8) = ea" "read32 (mem s') (stack - 4) = arg"
    "addr_range (stack - 16) 16 \<inter> thread_cells t = {}" "current_thread s' = current_thread s" "cpu s' = cpu s"
    "\<And>a k x. in_blocks (kheap_live s) a k \<Longrightarrow> x \<in> addr_range a k \<Longrightarrow> \<forall>p \<in> set q. x \<notin> node_cells (fst p) \<Longrightarrow>
       x \<notin> addr_range (stack - 16) 16 \<Longrightarrow> mem s' x = mem s x"
    "\<And>a k. in_blocks (kheap_live s) a k \<Longrightarrow> addr_range a k \<inter> thread_cells t = {} \<and> addr_range a k \<inter> node_cells item = {}"
    "thread_cells t \<inter> node_cells item = {}" "kheap_span s' = kheap_span s" "in_blocks (kheap_live s') t 28"
proof -
  have good: "kheap_good s" and qs: "qseg (mem s) (ready_queue s) q 0" and na: "nodes_apart (map fst q)"
    and blk: "\<And>p. p \<in> set q \<Longrightarrow> \<exists>l \<ge> 8. (unat (fst p), l) \<in> kheap_live s"
    using q by (auto simp: queue_ok_def)
  note own = queue_nodes [OF q]
  have sz: "unat SIZEOF_thread_t = 28" by (simp add: SIZEOF_thread_t_def)
  have rm': "kheap_room (unat SIZEOF_thread_t + 20) s" using kclient.room_mono [OF rm, of 48] by (simp add: sz)
  show thesis
  proof (rule kclient.get_and_store [OF good rm', of n], unfold sz, fold thread_cells_def)
    fix t l s1
    assume g: "kmalloc (Suc n) SIZEOF_thread_t s = Inr (t, s1)" "t \<noteq> 0" "28 \<le> l" "(unat t, l) \<notin> kheap_live s"
      and store: "\<And>m. (\<And>x. x \<notin> thread_cells t \<Longrightarrow> m x = mem s1 x) \<Longrightarrow>
        kheap_good (s1\<lparr>mem := m\<rparr>) \<and> kheap_live (s1\<lparr>mem := m\<rparr>) = insert (unat t, l) (kheap_live s)
        \<and> (\<forall>j\<ge>20. kheap_room (28 + 20 + j) s \<longrightarrow> kheap_room j (s1\<lparr>mem := m\<rparr>))
        \<and> kheap_span (s1\<lparr>mem := m\<rparr>) = kheap_span s"
      and old: "\<And>a k x. in_blocks (kheap_live s) a k \<Longrightarrow> x \<in> addr_range a k \<Longrightarrow> mem s1 x = mem s x \<and> x \<notin> thread_cells t"
    note fld = only_heap_sched [OF kmalloc_only_heap [OF good rm' g(1)]]
    have s1: "kheap_good s1" "kheap_live s1 = insert (unat t, l) (kheap_live s)" "kheap_room 28 s1" "kheap_span s1 = kheap_span s"
      using store [of "mem s1"] rm by simp_all
    have apart: "addr_range (stack - 16) 16 \<inter> thread_cells t = {}" using old [OF stk] by blast
    define m where "m = thread_image t (next_tid s) fn ea arg stack (mem s1)"
    let ?s2 = "s1\<lparr>mem := m, next_tid := next_tid s1 + 1\<rparr>"
    note img = thread_image_context [OF apart, of "next_tid s" fn ea arg "mem s1", folded m_def]
    have tin: "in_blocks (kheap_live s1) t 28" using g(3) s1(2) by (auto simp: in_blocks_def)
    have sin: "in_blocks (kheap_live s1) (stack - 16) 16" using in_blocks_mono [OF subset_insertI stk] s1(2) by simp
    have w: "\<exists>b \<in> kheap_live s1. fst b \<le> unat x \<and> unat x < fst b + snd b" if "m x \<noteq> mem s1 x" for x
    proof -
      have "x \<in> addr_range t 28 \<or> x \<in> addr_range (stack - 16) 16"
        using that thread_image_outside [of x t stack] unfolding m_def thread_cells_def by blast
      then show ?thesis using kclient.in_blocks_range [OF s1(1) tin] kclient.in_blocks_range [OF s1(1) sin] by blast
    qed
    note st = kheap_store_law [OF s1(1) w, where k = 28]
    have nodes: "m x = mem s x" if "p \<in> set q" "x \<in> node_cells (fst p)" for p x
    proof -
      have "mem s1 x = mem s x" "x \<notin> thread_cells t" using old [OF own [OF that(1)]] that(2) by (simp_all add: node_cells_def)
      moreover have "x \<notin> addr_range (stack - 16) 16" using away [OF that(1)] that(2) by blast
      ultimately show ?thesis using thread_image_outside [of x t stack] unfolding m_def by metis
    qed
    have qm: "qseg m (ready_queue s) q 0"
    proof (subst qseg_agree [of q])
      fix a x assume "a \<in> fst ` set q" "x \<in> node_cells a"
      then show "m x = mem s x" using nodes by auto
    qed (rule qs)
    have q2: "queue_ok ?s2 q"
    proof -
      have "\<forall>p \<in> set q. \<exists>l' \<ge> 8. (unat (fst p), l') \<in> insert (unat t, l) (kheap_live s)" using blk by blast
      then show ?thesis using qm st s1(2) na fld(1) by (simp add: queue_ok_def)
    qed
    have rm2: "kheap_room 28 ?s2" using st s1(3) by simp
    obtain item s' where r: "thread_is_ready (Suc n) t ?s2 = Inr s'" "queue_ok s' (q @ [(item, t)])"
      "current_thread s' = current_thread ?s2" "cpu s' = cpu ?s2" "next_tid s' = next_tid ?s2"
      and r': "\<And>b. b \<in> kheap_live ?s2 \<Longrightarrow> b \<in> kheap_live s'" "kheap_span s' = kheap_span ?s2"
        "\<And>a k. in_blocks (kheap_live ?s2) a k \<Longrightarrow> addr_range a k \<inter> node_cells item = {}"
      and fr: "\<And>a k x. in_blocks (kheap_live ?s2) a k \<Longrightarrow> x \<in> addr_range a k \<Longrightarrow> \<forall>p \<in> set q. x \<notin> node_cells (fst p) \<Longrightarrow>
         mem s' x = mem ?s2 x"
      by (rule thread_is_ready_steps [OF q2 rm2 len, of t]) (rule that, assumption+)
    have live2: "kheap_live ?s2 = kheap_live s1" using st by simp
    have kt: "mem s' x = m x" if "x \<in> thread_cells t" for x
    proof -
      have "\<forall>p \<in> set q. x \<notin> node_cells (fst p)" using old own that unfolding node_cells_def by blast
      then show ?thesis using fr [of t 28 x] tin live2 that by (simp add: thread_cells_def)
    qed
    have ks: "mem s' x = m x" if "x \<in> addr_range (stack - 16) 16" for x
    proof -
      have "\<forall>p \<in> set q. x \<notin> node_cells (fst p)" using away that by blast
      then show ?thesis using fr [of "stack - 16" 16 x] sin live2 that by simp
    qed
    have kf: "mem s' x = mem s x"
      if "in_blocks (kheap_live s) a k" "x \<in> addr_range a k" "\<forall>p \<in> set q. x \<notin> node_cells (fst p)" "x \<notin> addr_range (stack - 16) 16" for a k x
    proof -
      have "in_blocks (kheap_live ?s2) a k" using in_blocks_mono [OF subset_insertI that(1)] s1(2) live2 by simp
      then have "mem s' x = m x" using fr that(2,3) by simp
      then show ?thesis
        using old [OF that(1,2)] thread_image_outside [OF _ that(4), of t "next_tid s" fn ea arg "mem s1"] by (simp add: m_def)
    qed
    have inb2: "in_blocks (kheap_live ?s2) a k" if "in_blocks (kheap_live s) a k" for a k
      using in_blocks_mono [OF subset_insertI that] s1(2) live2 by simp
    have dj: "addr_range a k \<inter> thread_cells t = {} \<and> addr_range a k \<inter> node_cells item = {}"
      if "in_blocks (kheap_live s) a k" for a k
      using old [OF that] r'(3) [OF inb2 [OF that]] by blast
    have tn: "thread_cells t \<inter> node_cells item = {}" using r'(3) [of t 28] tin live2 by (simp add: thread_cells_def)
    have tl: "in_blocks (kheap_live s') t 28" using in_blocks_mono [OF subsetI tin, of "kheap_live s'"] r'(1) live2 by simp
    have rs: "read32 (mem s') (stack - k) = read32 m (stack - k)" if "k \<in> {4, 8, 12}" for k
      using stack_words(1-3) [of stack] that by (intro read32_cong ks) blast
    show thesis
    proof (rule that [of t s' item])
      show "create_thread (Suc n) ea fn arg stack s = Inr (t, s')"
        using r(1) by (simp add: create_thread_image g(1) m_def fld(5))
      show "context_of (mem s') t (fresh_cpu stack)" using img(1) kt context_agree [of t "mem s'" m] by simp
      have "read32 (mem s') (t + 24) = read32 m (t + 24)"
        using thread_words [of 24 t] by (intro read32_cong kt) blast
      then show "read32 (mem s') (t + 24) = next_tid s" using img(2) by simp
      show "read32 (mem s') (stack - 12) = fn" "read32 (mem s') (stack - 8) = ea" "read32 (mem s') (stack - 4) = arg"
        using rs [of 12] rs [of 8] rs [of 4] img(3-5) by simp_all
    qed (use r r' s1(4) fld apart kf dj tn tl in simp_all)
  qed
qed

section \<open>Removing a thread from the queue\<close>

lemma not_ready_walk_none:
  assumes "qseg (mem s) p q 0" "length q \<le> n" "t \<notin> snd ` set (tl q)"
  shows "not_ready_walk (Suc n) t p s = Inr s"
  using assms
proof (induction q arbitrary: p n)
  case (Cons b q)
  obtain a u where b: "b = (a, u)" by (cases b)
  obtain k where n: "n = Suc k" "length q \<le> k" using Cons.prems(2) by (cases n) auto
  have qs: "p = a" "qseg (mem s) (tl_next (mem s) a) q 0" using Cons.prems(1) b by simp_all
  show ?case
  proof (cases q)
    case Nil
    then show ?thesis using qs by simp
  next
    case (Cons b' q')
    then have "tl_thread (mem s) (tl_next (mem s) a) = snd b'" using qs(2) by (cases b') auto
    moreover have "snd b' \<noteq> t" "t \<notin> snd ` set (tl q)" using Cons.prems(3) \<open>q = b' # q'\<close> by auto
    moreover have "not_ready_walk n t (tl_next (mem s) a) s = Inr s"
      using Cons.IH [OF qs(2) n(2) calculation(3)] n(1) by simp
    ultimately show ?thesis using qs(1) by (simp add: Let_def)
  qed
qed simp

lemma not_ready_walk_found:
  assumes "qseg (mem s) p (q1 @ (b, v) # (a, t) # q2) 0" "length q1 < n" "t \<notin> snd ` set (tl (q1 @ [(b, v)]))"
  shows "not_ready_walk n t p s = kfree a (s\<lparr>mem := write32 (b + 4) (tl_next (mem s) a) (mem s)\<rparr>)"
  using assms
proof (induction q1 arbitrary: p n)
  case Nil
  then show ?case by (cases n) (auto simp: Let_def)
next
  case (Cons c q1)
  obtain d w where c: "c = (d, w)" by (cases c)
  obtain k where n: "n = Suc k" "length q1 < k" using Cons.prems(2) by (cases n) auto
  have qs: "p = d" "qseg (mem s) (tl_next (mem s) d) (q1 @ (b, v) # (a, t) # q2) 0" "d \<noteq> 0" using Cons.prems(1) c by simp_all
  have "tl_thread (mem s) (tl_next (mem s) d) \<noteq> t" "tl_next (mem s) d \<noteq> 0"
    using qs(2) Cons.prems(3) by (cases q1; auto)+
  moreover have "t \<notin> snd ` set (tl (q1 @ [(b, v)]))" using Cons.prems(3) by (cases q1) auto
  ultimately show ?case using Cons.IH [OF qs(2) n(2)] n(1) qs(1,3) by (simp add: Let_def)
qed

text \<open>Freeing the node of a queue that has just been taken out.\<close>

lemma kfree_node:
  fixes s :: "'a sched_scheme"
  assumes q: "queue_ok s (q1 @ q2)" and a: "(unat a, l) \<in> kheap_live s" "kheap_inner a s"
    and ne: "\<And>p. p \<in> set (q1 @ q2) \<Longrightarrow> fst p \<noteq> a"
  obtains s' where "kfree a s = Inr s'" "queue_ok s' (q1 @ q2)" "kheap_live s' = kheap_live s - {(unat a, l)}"
    "current_thread s' = current_thread s" "cpu s' = cpu s"
    "\<And>b k x. in_blocks (kheap_live s') b k \<Longrightarrow> x \<in> addr_range b k \<Longrightarrow> mem s' x = mem s x"
proof -
  have good: "kheap_good s" using q by (simp add: queue_ok_def)
  obtain s' where f: "kfree a s = Inr s'" "kheap_good s'" "kheap_live s' = kheap_live s - {(unat a, l)}" "only_heap s s'"
    "\<And>b k x. in_blocks (kheap_live s') b k \<Longrightarrow> x \<in> addr_range b k \<Longrightarrow> mem s' x = mem s x"
    by (rule kfree_inner [OF good a(2,1)]) (rule that, assumption+)
  note fld = only_heap_sched [OF f(4)]
  have blk: "\<exists>k \<ge> 8. (unat (fst p), k) \<in> kheap_live s'" if p: "p \<in> set (q1 @ q2)" for p
  proof -
    obtain k where "8 \<le> k" "(unat (fst p), k) \<in> kheap_live s" using q p by (auto simp: queue_ok_def)
    moreover have "unat (fst p) \<noteq> unat a" using ne [OF p] by (simp add: word_unat_eq_iff)
    ultimately show ?thesis using f(3) by auto
  qed
  have node: "mem s' x = mem s x" if p: "p \<in> set (q1 @ q2)" "x \<in> node_cells (fst p)" for p x
  proof (rule f(5))
    show "in_blocks (kheap_live s') (fst p) 8" using blk [OF p(1)] unfolding in_blocks_def by force
    show "x \<in> addr_range (fst p) 8" using p(2) by (simp add: node_cells_def)
  qed
  have "qseg (mem s') (ready_queue s') (q1 @ q2) 0"
  proof (subst qseg_agree [of "q1 @ q2" _ "mem s"])
    fix b x assume "b \<in> fst ` set (q1 @ q2)" "x \<in> node_cells b"
    then show "mem s' x = mem s x" using node by auto
  qed (use q fld(1) in \<open>simp add: queue_ok_def\<close>)
  then have "queue_ok s' (q1 @ q2)" using f(2) q blk by (simp add: queue_ok_def)
  then show thesis using that f(1,3,5) fld(2,3) by blast
qed

lemma qseg_unlink:
  assumes q: "qseg m p (q0 @ (b, v) # (a, t) # q2) 0" and ap: "nodes_apart (map fst (q0 @ (b, v) # (a, t) # q2))"
  shows "qseg (write32 (b + 4) (tl_next m a) m) p (q0 @ (b, v) # q2) 0"
proof -
  obtain x where x: "qseg m p (q0 @ [(b, v)]) x" "qseg m x ((a, t) # q2) 0"
    using q qseg_append [of m p "q0 @ [(b, v)]" "(a, t) # q2" 0] by auto
  let ?m = "write32 (b + 4) (tl_next m a) m"
  have "qseg ?m p (q0 @ [(b, v)]) (tl_next m a)"
    by (rule qseg_relink [OF x(1)]) (use ap in \<open>auto simp: nodes_apart_def sorted_wrt_append simp del: addr_range_code\<close>)
  moreover have "qseg ?m (tl_next m a) q2 0"
  proof (subst qseg_agree [of q2 ?m m])
    fix c y assume "c \<in> fst ` set q2" "y \<in> node_cells c"
    then have "y \<notin> node_cells b" using ap by (auto simp: nodes_apart_def sorted_wrt_append simp del: addr_range_code)
    then show "?m y = m y" by (rule write_next_outside)
  qed (use x(2) in simp)
  ultimately have "qseg ?m p ((q0 @ [(b, v)]) @ q2) 0" unfolding qseg_append by blast
  then show ?thesis by simp
qed

lemma nodes_apart_remove: "nodes_apart (map fst (q1 @ p # q2)) \<Longrightarrow> nodes_apart (map fst (q1 @ q2))"
  by (auto simp: nodes_apart_def sorted_wrt_append)

lemma nodes_distinct:
  assumes "nodes_apart (map fst (q1 @ (a, t) # q2))" "p \<in> set (q1 @ q2)"
  shows "fst p \<noteq> a"
proof
  assume "fst p = a"
  then have "node_cells a \<inter> node_cells a = {}" using assms by (auto simp: nodes_apart_def sorted_wrt_append)
  moreover have "a \<in> node_cells a" by (simp add: node_cells_def)
  ultimately show False by blast
qed

lemma thread_not_ready_steps:
  fixes s :: "'a sched_scheme"
  assumes q: "queue_ok s (q1 @ (a, t) # q2)" and first: "t \<notin> snd ` set q1" and len: "length q1 \<le> n"
    and a: "(unat a, l) \<in> kheap_live s" "kheap_inner a s"
  obtains s' where "thread_not_ready n t s = Inr s'" "queue_ok s' (q1 @ q2)" "kheap_live s' = kheap_live s - {(unat a, l)}"
    "current_thread s' = current_thread s" "cpu s' = cpu s"
    "\<And>b k x. in_blocks (kheap_live s') b k \<Longrightarrow> x \<in> addr_range b k \<Longrightarrow> \<forall>p \<in> set q1. x \<notin> node_cells (fst p) \<Longrightarrow> mem s' x = mem s x"
proof -
  have good: "kheap_good s" and qs: "qseg (mem s) (ready_queue s) (q1 @ (a, t) # q2) 0"
    and na: "nodes_apart (map fst (q1 @ (a, t) # q2))"
    and blk: "\<forall>p \<in> set (q1 @ (a, t) # q2). \<exists>k \<ge> 8. (unat (fst p), k) \<in> kheap_live s"
    using q by (auto simp: queue_ok_def)
  note rest = nodes_apart_remove [OF na] nodes_distinct [OF na]
  show thesis
  proof (cases q1 rule: rev_cases)
    case Nil
    let ?s = "s\<lparr>ready_queue := tl_next (mem s) a\<rparr>"
    have head: "ready_queue s = a" "a \<noteq> 0" "tl_thread (mem s) a = t" using qs Nil by simp_all
    have "queue_ok ?s ([] @ q2)" using good qs rest(1) blk Nil by (simp add: queue_ok_def)
    moreover have "kheap_inner a ?s" using a(2) by (simp add: kheap_inner_def blocks_of_def)
    ultimately obtain s' where s': "kfree a ?s = Inr s'" "queue_ok s' ([] @ q2)" "kheap_live s' = kheap_live ?s - {(unat a, l)}"
      "current_thread s' = current_thread ?s" "cpu s' = cpu ?s"
      "\<And>b k x. in_blocks (kheap_live s') b k \<Longrightarrow> x \<in> addr_range b k \<Longrightarrow> mem s' x = mem ?s x"
      using rest(2) Nil a(1) kfree_node [of ?s "[]" q2 a l] by simp metis
    then show thesis using that [of s'] head Nil by (simp add: thread_not_ready_def Let_def)
  next
    case (snoc q0 bv)
    obtain b v where bv: "bv = (b, v)" by (cases bv)
    have q1: "q1 = q0 @ [(b, v)]" using snoc bv by simp
    let ?m = "write32 (b + 4) (tl_next (mem s) a) (mem s)"
    let ?s = "s\<lparr>mem := ?m\<rparr>"
    have "tl_thread (mem s) (ready_queue s) \<noteq> t" using qs first q1 by (cases q0) auto
    moreover have "not_ready_walk n t (ready_queue s) s = kfree a ?s"
      by (rule not_ready_walk_found) (use qs q1 len first in \<open>auto dest: list.set_sel(2) simp: tl_append split: list.splits\<close>)
    ultimately have run: "thread_not_ready n t s = kfree a ?s" by (simp add: thread_not_ready_def Let_def)
    have inb: "in_blocks (kheap_live s) b 8" using queue_nodes [OF q, of "(b, v)"] q1 by simp
    have out: "?m x = mem s x" if "x \<notin> addr_range b 8" for x
      using write_next_outside [of x b] that by (simp add: node_cells_def)
    note st = kheap_store_block [OF good inb out] kheap_store_inner [OF good inb out, of a]
    have "queue_ok ?s (q1 @ q2)"
      using qseg_unlink [of "mem s" "ready_queue s" q0 b v a t q2] qs na rest(1) blk st(1,2) q1 by (auto simp: queue_ok_def)
    moreover have "kheap_inner a ?s" using st(4) a(2) by simp
    ultimately obtain s' where s': "kfree a ?s = Inr s'" "queue_ok s' (q1 @ q2)" "kheap_live s' = kheap_live ?s - {(unat a, l)}"
      "current_thread s' = current_thread ?s" "cpu s' = cpu ?s"
      "\<And>b k x. in_blocks (kheap_live s') b k \<Longrightarrow> x \<in> addr_range b k \<Longrightarrow> mem s' x = mem ?s x"
      using rest(2) a(1) st(2) kfree_node [of ?s q1 q2 a l] by simp metis
    have "mem s' x = mem s x" if "in_blocks (kheap_live s') c k" "x \<in> addr_range c k" "\<forall>p \<in> set q1. x \<notin> node_cells (fst p)" for c k x
      using s'(6) [OF that(1,2)] write_next_outside [of x b] that(3) q1 by simp
    then show thesis using that [of s'] run s'(1-5) st(2) by simp
  qed
qed

section \<open>An example\<close>

text \<open>
  A heap at 0x2000 with two nodes, the block for a stack, a hole of 200 bytes and a block in use; the nodes are
  queued for the threads 0x77 and 0x78.
\<close>

definition queue_blocks :: "(nat \<times> bool) list" where
  "queue_blocks = [(40, False), (40, False), (40, False), (200, True), (40, False)]"

definition queue_mem :: mem where
  "queue_mem = put_node 8204 0x77 8244 (put_node 8244 0x78 0 (write32 0x1000 8312
     (put_block 8192 40 False (put_block 8232 40 False (put_block 8272 40 False
     (put_block 8312 200 True (put_block 8512 40 False (\<lambda>_. 0))))))))"

definition queue_vm_heap :: vm_heap where
  "queue_vm_heap = example_vm_heap\<lparr>h_index := \<lparr>sa_array = 0x1000, sa_size = 1, sa_maxsize = 4, sa_cmp = Some vm_heap_header_cmp\<rparr>,
     h_addr_end := 8552\<rparr>"

definition queue_sched :: sched where
  "queue_sched = kmem.extend (boot_kmem\<lparr>mem := queue_mem, kernel_heap := 0x500, heaps := (\<lambda>_. queue_vm_heap)\<rparr>)
     \<lparr>ready_queue = 8204, current_thread = 0x600, thread_c_current = 0, next_tid = 3,
      cpu = \<lparr>cpu_esp = 0, cpu_ebp = 0, cpu_ebx = 0, cpu_esi = 0, cpu_edi = 0, cpu_eflags = 0, cpu_eip = 0\<rparr>\<rparr>"

lemma queue_sched_simps [simp]:
  "mem queue_sched = queue_mem" "heaps queue_sched = (\<lambda>_. queue_vm_heap)" "kernel_heap queue_sched = 0x500"
  "ready_queue queue_sched = 8204" "next_tid queue_sched = 3"
  by (simp_all add: queue_sched_def kmem.extend_def)

lemma queue_heap_ok: "heap_ok h queue_blocks queue_sched"
proof -
  have s: "hstart h queue_sched = 8192" "hend h queue_sched = 8552" by (simp_all add: queue_vm_heap_def example_vm_heap_def)
  have t: "tiles queue_mem 8552 8192 queue_blocks"
    by (simp add: queue_blocks_def block_at_def footer_at_def queue_mem_def put_node_def put_block_def field_defs
        read32_write32_apart)
  have e: "sa_elems (h_index queue_vm_heap) queue_mem = [8312]"
    by (simp add: queue_vm_heap_def sa_elems_def sa_get_def queue_mem_def put_node_def read32_write32_apart)
  show ?thesis
    unfolding heap_ok_def Let_def s queue_sched_simps e
    using t by (simp add: queue_vm_heap_def example_vm_heap_def sa_wf_def queue_blocks_def)
qed

lemma queue_kheap:
  "kheap_good queue_sched" "kheap_live queue_sched = {(8204, 20), (8244, 20), (8284, 20), (8524, 20)}"
  "kheap_room 76 queue_sched" "kheap_inner 8244 queue_sched"
proof -
  note b = heap_ok_blocks [OF queue_heap_ok]
  have s: "hstart h queue_sched = 8192" for h by (simp add: queue_vm_heap_def example_vm_heap_def)
  show "kheap_good queue_sched" using queue_heap_ok by (simp add: kheap_good_def b)
  show "kheap_live queue_sched = {(8204, 20), (8244, 20), (8284, 20), (8524, 20)}"
    unfolding kheap_live_def s b by (simp add: queue_blocks_def)
  show "kheap_room 76 queue_sched" by (simp add: kheap_room_def b queue_blocks_def)
  show "kheap_inner 8244 queue_sched"
    unfolding kheap_inner_def b s
    by (rule exI [of _ "[(40, False)]"], rule exI [of _ 40], rule exI [of _ 40], rule exI [of _ "[(200, True), (40, False)]"])
      (simp add: queue_blocks_def SIZEOF_header_def queue_vm_heap_def)
qed

lemma queue_example_ok: "queue_ok queue_sched [(8204, 0x77), (8244, 0x78)]"
proof -
  have "nodes_apart [8204, 8244]"
    using addr_range_disjoint [of 8204 8 8244 8] by (simp add: nodes_apart_def node_cells_def del: addr_range_code)
  then show ?thesis
    using queue_kheap by (simp add: queue_ok_def) (simp add: queue_mem_def tl_thread_def tl_next_def put_node_def read32_write32_apart)
qed

section \<open>Properties\<close>

text \<open>
  \<open>thread_is_ready\<close> puts the thread at the end of the ready queue, in a new node from the
  kernel heap; the heap stays well formed, no block is lost, and no block in use changes outside the
  nodes of the queue.
\<close>
theorem thread_is_ready_appends:
  fixes s :: "'a sched_scheme"
  assumes "queue_ok s q" "kheap_room 28 s" "length q \<le> Suc n"
  shows "\<exists>item s'. thread_is_ready (Suc n) t s = Inr s' \<and> queue_ok s' (q @ [(item, t)]) \<and> kheap_live s \<subseteq> kheap_live s'
    \<and> current_thread s' = current_thread s
    \<and> (\<forall>a k x. in_blocks (kheap_live s) a k \<and> x \<in> addr_range a k \<and> (\<forall>p \<in> set q. x \<notin> node_cells (fst p)) \<longrightarrow> mem s' x = mem s x)"
proof -
  obtain item s' where r: "thread_is_ready (Suc n) t s = Inr s'" "queue_ok s' (q @ [(item, t)])"
    "\<And>b. b \<in> kheap_live s \<Longrightarrow> b \<in> kheap_live s'" "current_thread s' = current_thread s"
    "\<And>a k x. in_blocks (kheap_live s) a k \<Longrightarrow> x \<in> addr_range a k \<Longrightarrow> \<forall>p \<in> set q. x \<notin> node_cells (fst p) \<Longrightarrow> mem s' x = mem s x"
    by (rule thread_is_ready_steps [OF assms, of t]) (rule that, assumption+)
  show ?thesis
    by (rule exI [of _ item], rule exI [of _ s'], intro conjI allI impI subsetI)
      (use r in blast)+
qed

theorem thread_is_ready_appends_witness:
  "\<exists>item s'. thread_is_ready 2 0x79 queue_sched = Inr s' \<and> queue_ok s' [(8204, 0x77), (8244, 0x78), (item, 0x79)]"
proof -
  have rm: "kheap_room 28 queue_sched" by (rule kclient.room_mono [OF queue_kheap(3)]) simp
  show ?thesis
    using thread_is_ready_appends [OF queue_example_ok rm, of 1 "0x79"] by (simp add: numeral_2_eq_2) blast
qed

text \<open>
  C28: \<open>thread_not_ready\<close> takes the first node of the thread out of the queue and releases its
  block, wherever in the queue it is; the other threads keep their order, and no block that stays in use
  changes outside the nodes in front of it. The block must not be the last or in front of a hole, where
  \<open>free\<close> has defects.
\<close>
theorem thread_not_ready_removes:
  fixes s :: "'a sched_scheme"
  assumes "queue_ok s (q1 @ (a, t) # q2)" "t \<notin> snd ` set q1" "length q1 \<le> n"
    and "(unat a, l) \<in> kheap_live s" "kheap_inner a s"
  shows "\<exists>s'. thread_not_ready n t s = Inr s' \<and> queue_ok s' (q1 @ q2) \<and> kheap_live s' = kheap_live s - {(unat a, l)}
    \<and> (\<forall>b k x. in_blocks (kheap_live s') b k \<and> x \<in> addr_range b k \<and> (\<forall>p \<in> set q1. x \<notin> node_cells (fst p)) \<longrightarrow> mem s' x = mem s x)"
proof -
  obtain s' where r: "thread_not_ready n t s = Inr s'" "queue_ok s' (q1 @ q2)" "kheap_live s' = kheap_live s - {(unat a, l)}"
    "\<And>b k x. in_blocks (kheap_live s') b k \<Longrightarrow> x \<in> addr_range b k \<Longrightarrow> \<forall>p \<in> set q1. x \<notin> node_cells (fst p) \<Longrightarrow> mem s' x = mem s x"
    by (rule thread_not_ready_steps [OF assms]) (rule that, assumption+)
  show ?thesis
    by (rule exI [of _ s'], intro conjI allI impI) (use r in blast)+
qed

theorem thread_not_ready_removes_witness:
  "\<exists>s'. thread_not_ready 1 0x78 queue_sched = Inr s' \<and> queue_ok s' [(8204, 0x77)]
    \<and> kheap_live s' = {(8204, 20), (8284, 20), (8524, 20)}"
proof -
  have live: "{(8204 :: nat, 20 :: nat), (8244, 20), (8284, 20), (8524, 20)} - {(8244, 20)} = {(8204, 20), (8284, 20), (8524, 20)}" by auto
  show ?thesis
    using thread_not_ready_removes [of queue_sched "[(8204, 0x77)]" 8244 "0x78" "[]" 1 20] queue_example_ok queue_kheap(2,4)
    unfolding queue_kheap(2) by (auto simp: live)
qed

text \<open>
  C7: A new thread goes to the end of the queue with a fresh id; when its context is loaded it
  starts at \<open>fn\<close>, interrupts enabled, with the address of \<open>thread_exit\<close> on top of its stack as the return
  address and \<open>arg\<close> above it as the argument.
\<close>
theorem create_thread_first_run:
  fixes s :: "'a sched_scheme"
  assumes "queue_ok s q" "kheap_room 76 s" "length q \<le> Suc n" "in_blocks (kheap_live s) (stack - 16) 16"
    and "\<And>p. p \<in> set q \<Longrightarrow> node_cells (fst p) \<inter> addr_range (stack - 16) 16 = {}"
  shows "\<exists>t item s'. create_thread (Suc n) exit_addr fn arg stack s = Inr (t, s') \<and> queue_ok s' (q @ [(item, t)])
    \<and> read32 (mem s') (t + 24) = next_tid s \<and> next_tid s' = next_tid s + 1
    \<and> snd (load_context t (mem s')) = \<lparr>cpu_esp = stack - 8, cpu_ebp = 0, cpu_ebx = 0, cpu_esi = 0, cpu_edi = 0,
        cpu_eflags = 0x200, cpu_eip = fn\<rparr>
    \<and> read32 (fst (load_context t (mem s'))) (stack - 8) = exit_addr
    \<and> read32 (fst (load_context t (mem s'))) (stack - 4) = arg"
proof -
  obtain t item s' where r: "create_thread (Suc n) exit_addr fn arg stack s = Inr (t, s')" "queue_ok s' (q @ [(item, t)])"
    "context_of (mem s') t (fresh_cpu stack)" "read32 (mem s') (t + 24) = next_tid s" "next_tid s' = next_tid s + 1"
    "read32 (mem s') (stack - 12) = fn" "read32 (mem s') (stack - 8) = exit_addr" "read32 (mem s') (stack - 4) = arg"
    "addr_range (stack - 16) 16 \<inter> thread_cells t = {}"
    by (rule create_thread_steps [OF assms, where ea = exit_addr and fn = fn and arg = arg]) (assumption, rule that, assumption+)
  have "addr_range (cpu_esp (fresh_cpu stack) - 4) 4 \<inter> thread_cells t = {}"
    using stack_words(4) [of stack] r(9) by (simp add: fresh_cpu_def) blast
  note ld = load_context_spec [OF r(3) this]
  have k: "read32 (fst (load_context t (mem s'))) (stack - j) = read32 (mem s') (stack - j)" if "j \<in> {4, 8}" for j
  proof (rule read32_cong, rule ld(2))
    fix x assume x: "x \<in> addr_range (stack - j) 4"
    have "addr_range (stack - 16 + 12) 4 \<inter> addr_range (stack - 16 + 0) 4 = {}" "addr_range (stack - 16 + 8) 4 \<inter> addr_range (stack - 16 + 0) 4 = {}"
      by (rule fields_apart; simp)+
    then show "x \<notin> addr_range (cpu_esp (fresh_cpu stack) - 4) 4" using that x by (auto simp: fresh_cpu_def simp del: addr_range_code)
  qed
  show ?thesis
    using r ld(1) k [of 4] k [of 8]
    by (intro exI [of _ t] exI [of _ item] exI [of _ s']) (simp add: fresh_cpu_def)
qed

theorem create_thread_first_run_witness:
  "\<exists>t item s'. create_thread 2 0x1111 0x2222 0x567 8300 queue_sched = Inr (t, s')
    \<and> queue_ok s' [(8204, 0x77), (8244, 0x78), (item, t)] \<and> cpu_eip (snd (load_context t (mem s'))) = 0x2222"
proof -
  have stk: "in_blocks (kheap_live queue_sched) (8300 - 16) 16" by (simp add: queue_kheap(2) in_blocks_def)
  have away: "node_cells (fst p) \<inter> addr_range (8300 - 16) 16 = {}" if "p \<in> set [(8204, 0x77), (8244, 0x78 :: u32)]" for p
    using that addr_range_disjoint [of 8204 8 8284 16] addr_range_disjoint [of 8244 8 8284 16]
    by (auto simp: node_cells_def simp del: addr_range_code)
  obtain t item s' where "create_thread (Suc 1) 0x1111 0x2222 0x567 8300 queue_sched = Inr (t, s')"
    "queue_ok s' ([(8204, 0x77), (8244, 0x78)] @ [(item, t)])" "cpu_eip (snd (load_context t (mem s'))) = 0x2222"
    using create_thread_first_run [OF queue_example_ok queue_kheap(3) _ stk away, of 1 "0x1111" "0x2222" "0x567"] by auto
  then show ?thesis by (intro exI [of _ t] exI [of _ item] exI [of _ s']) (simp add: numeral_2_eq_2)
qed

end
