(* ===== verification/Kernel_Main.thy ===== *)
theory Kernel_Main
  imports Keyboard Ready_Queue
begin

text \<open>
  \<open>main.c\<close>: the boot sequence and the endless printing loops of the two threads. \<open>fn_addr\<close> and
  \<open>exit_addr\<close> are the addresses of the functions \<open>fn\<close> and \<open>thread_exit\<close>.
\<close>

section \<open>The printing loops\<close>

function print_count :: "u8 list \<Rightarrow> int \<Rightarrow> 'a screen_scheme \<Rightarrow> kerror + 'a screen_scheme" where
  "print_count fmt i s =
     (if i < 80 then ebind (printk fmt [Word (word_of_int i)] s) (\<lambda>s. print_count fmt (i + 1) s) else Inr s)"
  by pat_completeness auto
termination by (relation "measure (\<lambda>(fmt, i, s). nat (80 - i))") auto

declare print_count.simps [simp del]

text \<open>One round of the endless loop of \<open>fn\<close> and of \<open>main\<close>.\<close>

definition fn_round :: "'a screen_scheme \<Rightarrow> kerror + 'a screen_scheme" where
  "fn_round s = print_count (bytes ''a = %d'' @ [10]) 0 s"

definition main_round :: "'a screen_scheme \<Rightarrow> kerror + 'a screen_scheme" where
  "main_round s = print_count (bytes ''b = %d'' @ [10]) 0 s"

section \<open>The boot sequence\<close>

definition start_threads :: "nat \<Rightarrow> u32 \<Rightarrow> u32 \<Rightarrow> 'a sched_scheme \<Rightarrow> kerror + u32 \<times> 'a sched_scheme" where
  "start_threads n exit_addr fn_addr s =
     ebind (init_threading n s) (\<lambda>(t0, s).
     ebind (init_scheduler n t0 s) (\<lambda>s.
     ebind (kmalloc n 0x400 s) (\<lambda>(p, s).
       let stack = p + 0x3F0
       in create_thread n exit_addr fn_addr 0x567 stack s)))"

definition main_boot :: "nat \<Rightarrow> linkmap \<Rightarrow> u32 \<Rightarrow> u32 \<Rightarrow> 'a sched_scheme \<Rightarrow> kerror + 'a sched_scheme" where
  "main_boot n lm exit_addr fn_addr s =
     ebind (init_descriptor_tables lm s) (\<lambda>s.
     ebind (init_paging n s) (\<lambda>s.
     ebind (init_timer 20 s) (\<lambda>s.
     ebind (start_threads n exit_addr fn_addr s) (\<lambda>(t, s). Inr s))))"

section \<open>Decimal lines\<close>

definition dec :: "nat \<Rightarrow> u8 list" where
  "dec n = (if n < 10 then [of_nat (48 + n)] else [of_nat (48 + n div 10), of_nat (48 + n mod 10)])"

lemma digits_dec:
  assumes "digits \<in> {digits_upper, digits_lower}" "k < 10"
  shows "digits ! k = of_nat (48 + k)"
proof -
  have "list_all (\<lambda>k. digits_upper ! k = (of_nat (48 + k) :: u8) \<and> digits_lower ! k = of_nat (48 + k)) [0..<10]"
    unfolding digits_upper_eq digits_lower_eq by (simp add: upt_rec)
  then show ?thesis using assms unfolding list_all_iff by auto
qed

lemma number_tmp_dec:
  assumes d: "digits \<in> {digits_upper, digits_lower}" and "n < 100"
  shows "rev (number_tmp digits (of_nat n) 10) = dec n"
proof -
  have u: "unat (of_nat k :: u32) = k" if "k < 100" for k using that by (intro unat_of_nat32) simp
  have e: "w = 0 \<longleftrightarrow> unat w = 0" for w :: u32 by (simp add: unsigned_eq_0_iff)
  have z: "(of_nat k :: u32) = 0 \<longleftrightarrow> k = 0" if "k < 100" for k unfolding e u [OF that] ..
  have step: "number_digits digits (of_nat k) 10 = (if k = 0 then [] else digits ! (k mod 10) # number_digits digits (of_nat (k div 10)) 10)"
    if k: "k < 100" for k
  proof -
    have "k div 10 < 100" using k by simp
    then have dv: "(of_nat k :: u32) div 10 = of_nat (k div 10)" "unat ((of_nat k :: u32) mod 10) = k mod 10"
      using u [OF k] u [of "k div 10"] u [of 10] by (simp_all only: word_unat_eq_iff unat_div_distrib unat_mod_distrib) simp_all
    show ?thesis using z [OF k] by (subst number_digits.simps) (simp add: do_div_def dv)
  qed
  have b: "n div 10 < 100" "n div 10 div 10 = 0" "n mod 10 < 10" "n div 10 mod 10 = n div 10" "n div 10 < 10" using assms(2) by simp_all
  have last: "number_digits digits (of_nat 0) 10 = []" using step [of 0] by simp
  show ?thesis
    using step [OF assms(2)] step [OF b(1)] z [OF assms(2)] digits_dec [OF d b(3)] digits_dec [OF d b(5)] last
    by (auto simp: number_tmp_def dec_def b)
qed

lemma printk_dec:
  assumes "37 \<notin> set pre" "37 \<notin> set post" "0 \<notin> set pre" "0 \<notin> set post" "length pre + length post \<le> 900" "n < 100"
  shows "printk (pre @ [37, 100] @ post) [Word (of_nat n)] s = Inr (screen_write (pre @ dec n @ post) s)"
proof -
  let ?w = "of_nat n :: u32"
  have nn: "\<not> sint ?w < 0"
    using assms(6) by (simp add: signed_of_nat signed_take_bit_int_eq_self)
  have sg: "number_sign SIGN ?w = ([], ?w)" using nn by (simp add: number_sign_def has_flag_def flag_defs)
  obtain digits where d: "digits \<in> {digits_upper, digits_lower}"
    and num: "number ?w 10 (-1) (-1) SIGN = Some (fst (number_sign SIGN ?w) @ rev (number_tmp digits (snd (number_sign SIGN ?w)) 10))"
    using number_default [of 10 SIGN ?w] by auto
  have num': "number ?w 10 (-1) (-1) SIGN = Some (dec n)" using num sg number_tmp_dec [OF d assms(6)] by simp
  have vs: "vsprintf (pre @ [37, 100] @ post) [Word ?w] = Inr (pre @ dec n @ post, [])"
    using num' vsprintf_loop_plain [OF assms(2), of "[]"]
    by (simp add: vsprintf_def vsprintf_loop_plain assms(1) directive_number)
  have nz: "of_nat (48 + k) \<noteq> (0 :: u8)" if "k < 10" for k
  proof -
    have "list_all (\<lambda>k. of_nat (48 + k) \<noteq> (0 :: u8)) [0..<10]" by (simp add: upt_rec)
    then show ?thesis using that unfolding list_all_iff by auto
  qed
  have "0 \<notin> set (dec n)" "length (dec n) \<le> 2" using nz [of n] nz [of "n div 10"] nz [of "n mod 10"] assms(6) by (auto simp: dec_def)
  then have "takeWhile (\<lambda>c. c \<noteq> 0) (pre @ dec n @ post) = pre @ dec n @ post" "length (pre @ dec n @ post) < 1024"
    using assms(3-5) unfolding takeWhile_eq_all_conv by auto
  then show ?thesis
    by (simp only: printk_def format_buffer_def vs ebind_Inr prod.case if_True apply_stores.simps mem_upd_id)
qed

lemma screen_write_append: "screen_write (cs @ ds) s = screen_write ds (screen_write cs s)"
  by (induction cs arbitrary: s) simp_all

lemma print_count_lines:
  assumes "37 \<notin> set pre" "37 \<notin> set post" "0 \<notin> set pre" "0 \<notin> set post" "length pre + length post \<le> 900" "i \<le> 80"
  shows "print_count (pre @ [37, 100] @ post) (int i) s = Inr (screen_write (concat (map (\<lambda>k. pre @ dec k @ post) [i..<80])) s)"
  using assms(6)
proof (induction "80 - i" arbitrary: i s)
  case 0
  then show ?case by (simp add: print_count.simps)
next
  case (Suc m)
  have i: "i < 80" "m = 80 - Suc i" "Suc i \<le> 80" using Suc(2) by simp_all
  have pk: "printk (pre @ [37, 100] @ post) [Word (word_of_int (int i))] s = Inr (screen_write (pre @ dec i @ post) s)"
    using printk_dec [OF assms(1-5), of i s] i(1) by simp
  have "[i..<80] = i # [Suc i..<80]" using i(1) by (simp add: upt_conv_Cons)
  then show ?case
    using Suc(1) [OF i(2,3)] i(1) pk by (subst print_count.simps) (simp add: screen_write_append add.commute)
qed

section \<open>Starting the threads\<close>

text \<open>The heap range of addresses; the boot stack lies outside of it.\<close>

definition span_cells :: "nat \<times> nat \<Rightarrow> u32 set" where
  "span_cells sp = {x. fst sp \<le> unat x \<and> unat x < snd sp}"

lemma in_blocks_span:
  assumes "kheap_good s" "in_blocks (kheap_live s) a k"
  shows "addr_range a k \<subseteq> span_cells (kheap_span s)"
proof
  fix x assume "x \<in> addr_range a k"
  then obtain b where b: "b \<in> kheap_live s" "fst b \<le> unat x" "unat x < fst b + snd b"
    using kclient.in_blocks_range [OF assms] by blast
  then show "x \<in> span_cells (kheap_span s)" using kheap_live_span [OF assms(1) b(1)] by (simp add: span_cells_def)
qed

text \<open>The first thread and its node.\<close>

lemma init_scheduler_steps:
  fixes s :: "'a sched_scheme"
  assumes good: "kheap_good s" and rm: "kheap_room (76 + j) s" "20 \<le> j"
  obtains t0 s1 n0 s2 where "init_threading (Suc n) s = Inr (t0, s1)" "init_scheduler (Suc n) t0 s1 = Inr s2"
    "kheap_good s2" "kheap_room j s2" "kheap_span s2 = kheap_span s" "in_blocks (kheap_live s2) t0 28" "in_blocks (kheap_live s2) n0 8"
    "thread_cells t0 \<inter> node_cells n0 = {}" "n0 \<noteq> 0" "tl_thread (mem s2) n0 = t0" "current_thread s2 = n0" "ready_queue s2 = 0"
    "cpu s2 = cpu s"
proof -
  have sz: "unat SIZEOF_thread_t = 28" "unat SIZEOF_thread_list_t = 8" by (simp_all add: SIZEOF_thread_t_def SIZEOF_thread_list_t_def)
  have rm1: "kheap_room (unat SIZEOF_thread_t + 20 + (28 + j)) s" using rm(1) by (simp add: sz add.assoc)
  obtain t0 u1 where a: "kmalloc (Suc n) SIZEOF_thread_t s = Inr (t0, u1)" "only_heap s u1"
    and wa: "\<And>m. (\<And>x. x \<notin> addr_range t0 28 \<Longrightarrow> m x = mem u1 x) \<Longrightarrow>
       kheap_good (u1\<lparr>mem := m\<rparr>) \<and> kheap_room (28 + j) (u1\<lparr>mem := m\<rparr>) \<and> kheap_span (u1\<lparr>mem := m\<rparr>) = kheap_span s
       \<and> in_blocks (kheap_live (u1\<lparr>mem := m\<rparr>)) t0 28"
    by (rule kheap_alloc_write [OF good rm1, of n]) (use rm(2) sz in simp, rule that, assumption+, use sz in auto)
  note fa = only_heap_sched [OF a(2)]
  define m1 where "m1 = write32 (t0 + 24) (next_tid s) (mem u1)"
  let ?s1 = "u1\<lparr>mem := m1, next_tid := next_tid s + 1, thread_c_current := t0\<rparr>"
  have run1: "init_threading (Suc n) s = Inr (t0, ?s1)" by (simp add: init_threading_def a(1) Let_def fa m1_def)
  have "m1 x = mem u1 x" if "x \<notin> addr_range t0 28" for x
    using thread_words [of 24 t0] that by (auto simp: m1_def thread_cells_def simp del: addr_range_code intro!: write32_outside)
  note w1 = wa [OF this]
  have g1: "kheap_good ?s1" "in_blocks (kheap_live ?s1) t0 28" "kheap_span ?s1 = kheap_span s" using w1 by simp_all
  have rm2: "kheap_room (unat SIZEOF_thread_list_t + 20 + j) ?s1" using w1 by (simp add: sz add.assoc)
  obtain n0 u2 where b: "kmalloc (Suc n) SIZEOF_thread_list_t ?s1 = Inr (n0, u2)" "n0 \<noteq> 0" "only_heap ?s1 u2"
    and wb: "\<And>m. (\<And>x. x \<notin> addr_range n0 8 \<Longrightarrow> m x = mem u2 x) \<Longrightarrow>
       kheap_good (u2\<lparr>mem := m\<rparr>) \<and> kheap_room j (u2\<lparr>mem := m\<rparr>) \<and> kheap_span (u2\<lparr>mem := m\<rparr>) = kheap_span ?s1
       \<and> in_blocks (kheap_live (u2\<lparr>mem := m\<rparr>)) n0 8
       \<and> (\<forall>a k. in_blocks (kheap_live ?s1) a k \<longrightarrow> in_blocks (kheap_live (u2\<lparr>mem := m\<rparr>)) a k \<and> addr_range a k \<inter> addr_range n0 8 = {})"
    by (rule kheap_alloc_write [OF g1(1) rm2 rm(2), of n]) (rule that, assumption+, use sz in auto)
  note fb = only_heap_sched [OF b(3)]
  define m2 where "m2 = put_node n0 t0 0 (mem u2)"
  let ?s2 = "u2\<lparr>current_thread := n0, mem := m2, ready_queue := 0\<rparr>"
  have run2: "init_scheduler (Suc n) t0 ?s1 = Inr ?s2" by (simp add: init_scheduler_def b(1) Let_def m2_def)
  have "m2 x = mem u2 x" if "x \<notin> addr_range n0 8" for x
    using put_node_outside [of x n0] that by (simp add: m2_def node_cells_def)
  note w2 = wb [OF this]
  have upd: "kheap_good ?s2 = kheap_good (u2\<lparr>mem := m2\<rparr>)" "kheap_live ?s2 = kheap_live (u2\<lparr>mem := m2\<rparr>)"
    "kheap_room j ?s2 = kheap_room j (u2\<lparr>mem := m2\<rparr>)" "kheap_span ?s2 = kheap_span (u2\<lparr>mem := m2\<rparr>)"
    by (simp_all add: kheap_span_def kheap_good_def kheap_live_def kheap_room_def heap_ok_def blocks_of_def Let_def)
  have dj: "addr_range t0 28 \<inter> addr_range n0 8 = {}" "in_blocks (kheap_live ?s2) t0 28" using w2 g1(2) upd(2) by auto
  show thesis
    by (rule that [OF run1 run2])
      (use w2 upd g1(3) dj b(2) fa fb in \<open>simp_all add: thread_cells_def node_cells_def m2_def del: addr_range_code\<close>)
qed

lemma in_blocks_offset:
  assumes "kheap_good s" "in_blocks (kheap_live s) p k" "unat d + i \<le> k" "0 < i"
  shows "in_blocks (kheap_live s) (p + d) i"
proof -
  obtain b where b: "b \<in> kheap_live s" "fst b \<le> unat p" "unat p + k \<le> fst b + snd b" using assms(2) by (auto simp: in_blocks_def)
  have "fst b + snd b \<le> 2 ^ 32" using kheap.live_apart [OF assms(1)] b(1) by (auto simp: blocks_apart_def)
  then have "unat p + unat d < 2 ^ 32" using b(3) assms(3,4) by linarith
  then have "unat (p + d) = unat p + unat d" by (intro unat_add_nowrap) simp
  then show ?thesis using b assms(3) unfolding in_blocks_def by (intro bexI [of _ b]) auto
qed

definition boot_stk :: "u32 \<Rightarrow> u32 set \<Rightarrow> u32 \<Rightarrow> u32 set \<Rightarrow> u32 \<Rightarrow> u32 set" where
  "boot_stk t0 A t1 P t = (if t = t0 then A else if t = t1 then P else {})"

lemma ring_apart_two:
  assumes "node_cells n0 \<inter> node_cells n1 = {}" "thread_cells t0 \<inter> thread_cells t1 = {}" "A \<inter> P = {}"
    and "node_cells n0 \<inter> thread_cells t0 = {}" "node_cells n0 \<inter> thread_cells t1 = {}"
    and "node_cells n1 \<inter> thread_cells t0 = {}" "node_cells n1 \<inter> thread_cells t1 = {}"
    and "node_cells n0 \<inter> A = {}" "node_cells n1 \<inter> A = {}" "thread_cells t0 \<inter> A = {}" "thread_cells t1 \<inter> A = {}"
    and "node_cells n0 \<inter> P = {}" "node_cells n1 \<inter> P = {}" "thread_cells t0 \<inter> P = {}" "thread_cells t1 \<inter> P = {}"
  shows "ring_apart (boot_stk t0 A t1 P) [(n0, t0), (n1, t1)]"
proof -
  have ne: "t0 \<noteq> t1"
  proof
    assume "t0 = t1"
    moreover have "t0 \<in> thread_cells t0" by (simp add: thread_cells_def)
    ultimately show False using assms(2) by blast
  qed
  then show ?thesis using assms unfolding ring_apart_def by (simp add: boot_stk_def Int_Un_distrib Int_commute)
qed

lemma start_threads_steps:
  fixes s :: "'a sched_scheme"
  assumes good: "kheap_good s" and rm: "kheap_room 1196 s" and A: "A \<inter> span_cells (kheap_span s) = {}"
  obtains t0 n0 t1 n1 p s' where "start_threads (Suc n) ea fn s = Inr (t1, s')"
    "ring_inv (Suc n) (boot_stk t0 A t1 (addr_range p 0x400)) s' [(n0, t0), (n1, t1)]"
    "saved_cpu (mem s') t1 = fresh_cpu (p + 0x3F0)" "cpu s' = cpu s" "kheap_good s'"
    "read32 (mem s') (p + 0x3E4) = fn" "read32 (mem s') (p + 0x3E8) = ea" "read32 (mem s') (p + 0x3EC) = 0x567"
proof -
  have rm0: "kheap_room (76 + 1120) s" using rm by simp
  obtain t0 s1 n0 s2 where i: "init_threading (Suc n) s = Inr (t0, s1)" "init_scheduler (Suc n) t0 s1 = Inr s2"
    "kheap_good s2" "kheap_room 1120 s2" "kheap_span s2 = kheap_span s" "in_blocks (kheap_live s2) t0 28" "in_blocks (kheap_live s2) n0 8"
    "thread_cells t0 \<inter> node_cells n0 = {}" "n0 \<noteq> 0" "tl_thread (mem s2) n0 = t0" "current_thread s2 = n0" "ready_queue s2 = 0"
    "cpu s2 = cpu s"
    by (rule init_scheduler_steps [OF good rm0]) (simp, rule that, assumption+)
  have sz: "unat (0x400 :: u32) = 0x400" by simp
  have rm2: "kheap_room (unat (0x400 :: u32) + 20 + 76) s2" using i(4) by (simp add: sz)
  obtain p s3 where a: "kmalloc (Suc n) 0x400 s2 = Inr (p, s3)" "only_heap s2 s3" "kheap_good s3" "kheap_room 76 s3"
    "kheap_span s3 = kheap_span s" "in_blocks (kheap_live s3) p 0x400"
    and old: "\<And>b k. in_blocks (kheap_live s2) b k \<Longrightarrow> in_blocks (kheap_live s3) b k \<and> addr_range b k \<inter> addr_range p 0x400 = {}
        \<and> (\<forall>x \<in> addr_range b k. mem s3 x = mem s2 x)"
  proof (rule kheap_alloc_write [OF i(3) rm2, of n, unfolded sz])
    fix p s3
    assume g: "kmalloc (Suc n) 0x400 s2 = Inr (p, s3)" "only_heap s2 s3"
      and w: "\<And>m. (\<And>x. x \<notin> addr_range p 0x400 \<Longrightarrow> m x = mem s3 x) \<Longrightarrow>
       kheap_good (s3\<lparr>mem := m\<rparr>) \<and> kheap_room 76 (s3\<lparr>mem := m\<rparr>) \<and> kheap_span (s3\<lparr>mem := m\<rparr>) = kheap_span s2
       \<and> in_blocks (kheap_live (s3\<lparr>mem := m\<rparr>)) p 0x400
       \<and> (\<forall>a k. in_blocks (kheap_live s2) a k \<longrightarrow> in_blocks (kheap_live (s3\<lparr>mem := m\<rparr>)) a k
            \<and> addr_range a k \<inter> addr_range p 0x400 = {} \<and> (\<forall>x \<in> addr_range a k. m x = mem s2 x))"
    show thesis
      by (rule that [OF g]) (use w [of "mem s3"] i(5) in \<open>simp_all del: addr_range_code\<close>)
  qed simp
  note f = only_heap_sched [OF a(2)]
  let ?P = "addr_range p 0x400"
  let ?stack = "p + 0x3F0"
  have st16: "?stack - 16 = p + 0x3E0" by simp
  have sub: "addr_range (?stack - 16) 16 \<subseteq> ?P" "addr_range (?stack - 16) 8 \<subseteq> ?P"
    unfolding st16 by (rule addr_sub; simp)+
  have stk: "in_blocks (kheap_live s3) (?stack - 16) 16"
    unfolding st16 by (rule in_blocks_offset [OF a(3,6)]) simp_all
  have q: "queue_ok s3 []" using a(3) f(1) i(12) by (simp add: queue_ok_def nodes_apart_def)
  obtain t1 n1 s' where c: "create_thread (Suc n) ea fn 0x567 ?stack s3 = Inr (t1, s')" "queue_ok s' ([] @ [(n1, t1)])"
    "context_of (mem s') t1 (fresh_cpu ?stack)" "read32 (mem s') (?stack - 12) = fn" "read32 (mem s') (?stack - 8) = ea"
    "read32 (mem s') (?stack - 4) = 0x567" "current_thread s' = current_thread s3" "cpu s' = cpu s3"
    and fr: "\<And>a k x. in_blocks (kheap_live s3) a k \<Longrightarrow> x \<in> addr_range a k \<Longrightarrow> \<forall>p \<in> set ([] :: (u32 \<times> u32) list). x \<notin> node_cells (fst p) \<Longrightarrow>
       x \<notin> addr_range (?stack - 16) 16 \<Longrightarrow> mem s' x = mem s3 x"
    and dj: "\<And>a k. in_blocks (kheap_live s3) a k \<Longrightarrow> addr_range a k \<inter> thread_cells t1 = {} \<and> addr_range a k \<inter> node_cells n1 = {}"
    and tn: "thread_cells t1 \<inter> node_cells n1 = {}" and sp: "kheap_span s' = kheap_span s3" and tb: "in_blocks (kheap_live s') t1 28"
    by (rule create_thread_steps [OF q a(4) _ stk, where ea = ea and fn = fn and arg = "0x567"]) (simp, simp, rule that, assumption+)
  have good': "kheap_good s'" using c(2) by (simp add: queue_ok_def)
  note t0b = old [OF i(6), folded thread_cells_def] and n0b = old [OF i(7), folded node_cells_def]
  have t0x: "thread_cells t0 \<inter> thread_cells t1 = {}" "thread_cells t0 \<inter> node_cells n1 = {}"
    using dj [of t0 28] t0b by (simp_all add: thread_cells_def del: addr_range_code)
  have n0x: "node_cells n0 \<inter> thread_cells t1 = {}" "node_cells n0 \<inter> node_cells n1 = {}"
    using dj [of n0 8] n0b by (simp_all add: node_cells_def del: addr_range_code)
  have px: "?P \<inter> thread_cells t1 = {}" "?P \<inter> node_cells n1 = {}" using dj [OF a(6)] by simp_all
  have n0k: "mem s' x = mem s2 x" if "x \<in> node_cells n0" for x
  proof -
    have "x \<notin> addr_range (?stack - 16) 16" using n0b sub(1) that by blast
    then show ?thesis using fr [of n0 8 x] n0b that by (simp add: node_cells_def)
  qed
  have spanA: "addr_range b k \<inter> A = {}" if "in_blocks (kheap_live u) b k" "kheap_good u" "kheap_span u = kheap_span s" for b k u
    using in_blocks_span [OF that(2,1)] A that(3) by auto
  have n1b: "in_blocks (kheap_live s') n1 8" using queue_nodes [OF c(2), of "(n1, t1)"] by simp
  have A': "thread_cells t0 \<inter> A = {}" "node_cells n0 \<inter> A = {}" "?P \<inter> A = {}" "thread_cells t1 \<inter> A = {}" "node_cells n1 \<inter> A = {}"
    using spanA [OF i(6,3,5)] spanA [OF i(7,3,5)] spanA [OF a(6,3,5)] spanA [OF tb good'] spanA [OF n1b good'] sp a(5)
    by (simp_all add: thread_cells_def node_cells_def del: addr_range_code)
  have d: "node_cells n0 \<inter> thread_cells t0 = {}" "node_cells n1 \<inter> thread_cells t0 = {}" "node_cells n1 \<inter> thread_cells t1 = {}"
    "thread_cells t0 \<inter> ?P = {}" "node_cells n0 \<inter> ?P = {}" "thread_cells t1 \<inter> ?P = {}" "node_cells n1 \<inter> ?P = {}"
    "node_cells n1 \<inter> A = {}" "node_cells n0 \<inter> A = {}"
    using i(8) t0x(2) tn t0b n0b px A'(2,5) by (simp_all add: Int_commute del: addr_range_code)
  note d' = d [THEN trans [OF Int_commute]] A' [THEN trans [OF Int_commute]] px [THEN trans [OF Int_commute]]
  have apart: "ring_apart (boot_stk t0 A t1 ?P) [(n0, t0), (n1, t1)]"
    by (rule ring_apart_two) (simp_all add: t0x n0x px A' d d' del: addr_range_code)
  have saved: "saved_cpu (mem s') t1 = fresh_cpu ?stack" using saved_context [OF c(3)] by (simp add: fresh_cpu_def)
  have "t0 \<in> thread_cells t0" by (simp add: thread_cells_def)
  then have ne: "t1 \<noteq> t0" using t0x(1) by blast
  have tl0: "tl_thread (mem s') n0 = t0" using node_agree(1) [of n0 "mem s'" "mem s2"] n0k i(10) by simp
  have ring: "ring_inv (Suc n) (boot_stk t0 A t1 ?P) s' [(n0, t0), (n1, t1)]"
    unfolding ring_inv_def using apart c(2,7) f(2) i(9,10,11) saved sub(2) ne tl0
    by (simp add: queue_ok_def boot_stk_def fresh_cpu_def del: addr_range_code)
  have run: "start_threads (Suc n) ea fn s = Inr (t1, s')"
    using c(1) by (simp add: start_threads_def i(1,2) a(1) Let_def)
  have esp: "?stack - 12 = p + 0x3E4" "?stack - 8 = p + 0x3E8" "?stack - 4 = p + 0x3EC" by simp_all
  show thesis by (rule that [OF run ring saved _ good']) (use c(4-6,8) [unfolded esp] f(3) i(13) in simp_all)
qed

section \<open>Dispatching the interrupts\<close>

text \<open>
  The code behind the function pointers in \<open>interrupt_handlers\<close>; \<open>ra\<close> is the return address of the
  call of \<open>schedule\<close> in the timer callback.
\<close>

definition run_handler ::
  "nat \<Rightarrow> u32 \<Rightarrow> (u8 list \<Rightarrow> int \<Rightarrow> int \<Rightarrow> 'a keyboard_scheme \<Rightarrow> kerror + 'a keyboard_scheme)
     \<Rightarrow> handler \<Rightarrow> registers \<Rightarrow> 'a keyboard_scheme \<Rightarrow> kerror + 'a keyboard_scheme" where
  "run_handler n ra swa h regs s =
     (case h of
        Page_fault_handler \<Rightarrow> page_fault_handler regs s
      | Timer_callback \<Rightarrow> timer_callback n ra regs s
      | Keyboard_handler \<Rightarrow> keyboard_handler swa regs s)"

lemma schedule_outp:
  assumes "schedule n ra s = Inr s'"
  shows "outp s' = outp s"
proof (cases "ready_queue s = 0")
  case False
  then obtain a where "last_node n (mem s) (ready_queue s) = Inr a"
    using assms by (cases "last_node n (mem s) (ready_queue s)") (auto simp: schedule_def)
  then show ?thesis
    using assms False by (auto simp: schedule_def push32_def switch_thread_def Let_def split: prod.splits)
qed (use assms in \<open>simp add: schedule_def\<close>)

section \<open>Examples\<close>

text \<open>A heap with a hole of 1300 bytes at 0x2000 and a boot stack at 0x8000.\<close>

definition start_blocks :: "(nat \<times> bool) list" where
  "start_blocks = [(40, False), (1300, True), (40, False)]"

definition start_mem :: mem where
  "start_mem = write32 0x1000 8232 (put_block 8192 40 False (put_block 8232 1300 True (put_block 9532 40 False (\<lambda>_. 0))))"

definition start_sched :: sched where
  "start_sched = kmem.extend (boot_kmem\<lparr>mem := start_mem, kernel_heap := 0x500,
       heaps := (\<lambda>_. queue_vm_heap\<lparr>h_addr_end := 9572\<rparr>)\<rparr>)
     \<lparr>ready_queue = 0, current_thread = 0, thread_c_current = 0, next_tid = 1,
      cpu = \<lparr>cpu_esp = 0x8080, cpu_ebp = 0, cpu_ebx = 0, cpu_esi = 0, cpu_edi = 0, cpu_eflags = 0x200, cpu_eip = 0\<rparr>\<rparr>"

lemma start_sched_simps [simp]:
  "mem start_sched = start_mem" "heaps start_sched = (\<lambda>_. queue_vm_heap\<lparr>h_addr_end := 9572\<rparr>)" "kernel_heap start_sched = 0x500"
  "cpu_esp (cpu start_sched) = 0x8080"
  by (simp_all add: start_sched_def kmem.extend_def)

lemma start_heap_ok: "heap_ok h start_blocks start_sched"
proof -
  have s: "hstart h start_sched = 8192" "hend h start_sched = 9572" by (simp_all add: queue_vm_heap_def example_vm_heap_def)
  have t: "tiles start_mem 9572 8192 start_blocks"
    by (simp add: start_blocks_def block_at_def footer_at_def start_mem_def put_block_def field_defs read32_write32_apart)
  have e: "sa_elems (h_index queue_vm_heap) start_mem = [8232]"
    by (simp add: queue_vm_heap_def sa_elems_def sa_get_def start_mem_def read32_write32_apart)
  show ?thesis
    unfolding heap_ok_def Let_def s start_sched_simps
    using t e by (simp add: queue_vm_heap_def example_vm_heap_def sa_wf_def start_blocks_def)
qed

lemma start_kheap:
  "kheap_good start_sched" "kheap_room 1196 start_sched" "kheap_span start_sched = (8192, 9572)"
proof -
  note b = heap_ok_blocks [OF start_heap_ok]
  show "kheap_good start_sched" using start_heap_ok by (simp add: kheap_good_def b)
  show "kheap_room 1196 start_sched" by (simp add: kheap_room_def b start_blocks_def)
  show "kheap_span start_sched = (8192, 9572)" by (simp add: kheap_span_def queue_vm_heap_def example_vm_heap_def)
qed

lemma start_stack: "addr_range 0x8000 0x100 \<inter> span_cells (kheap_span start_sched) = {}"
proof -
  have "x \<notin> span_cells (8192, 9572)" if "x \<in> addr_range 0x8000 0x100" for x
    using that addr_range_nowrap [of "0x8000" "0x100"] by (auto simp: span_cells_def simp del: addr_range_code)
  then show ?thesis unfolding start_kheap(3) by blast
qed

text \<open>The scheduler example with the keyboard of its own and the timer callback registered.\<close>

definition example_irq :: keyboard where
  "example_irq = example_keyboard\<lparr>interrupt_handlers := (replicate 256 None)[32 := Some Timer_callback]\<rparr>"

lemma example_irq_ring: "ring_inv 1 example_stk example_irq example_ring" "room example_stk example_irq"
proof -
  have "mem example_irq = mem example_sched" "ready_queue example_irq = ready_queue example_sched"
    "current_thread example_irq = current_thread example_sched" "cpu example_irq = cpu example_sched"
    by (simp_all add: example_irq_def example_keyboard_def sched.extend_def del: example_sched_simps)
  note c = ring_inv_cong [OF this]
  show "ring_inv 1 example_stk example_irq example_ring" "room example_stk example_irq"
    unfolding c by (rule example_ring_inv, rule example_room)
qed

section \<open>Properties\<close>

text \<open>
  C8: \<open>main\<close> starts two threads: after \<open>init_threading\<close>, \<open>init_scheduler\<close>, the allocation of the
  stack and \<open>create_thread\<close> the ring of the boot thread and the new thread holds, and the first call of
  \<open>schedule\<close> switches to the entry of \<open>fn\<close> with interrupts enabled, the address of \<open>thread_exit\<close> and the
  argument 0x567 on the new stack; the boot thread is saved with the registers it had. The heap must have
  a hole of 1196 bytes and the boot stack must lie outside of the heap.
\<close>
theorem start_threads_ring:
  fixes s :: "'a sched_scheme"
  assumes "kheap_good s" "kheap_room 1196 s" "A \<inter> span_cells (kheap_span s) = {}" "addr_range (cpu_esp (cpu s) - 12) 12 \<subseteq> A"
  shows "\<exists>t0 n0 t1 n1 p s1 s2. start_threads (Suc n) exit_addr fn_addr s = Inr (t1, s1)
    \<and> ring_inv (Suc n) (boot_stk t0 A t1 (addr_range p 0x400)) s1 [(n0, t0), (n1, t1)]
    \<and> read32 (mem s1) (p + 0x3E8) = exit_addr \<and> read32 (mem s1) (p + 0x3EC) = 0x567
    \<and> schedule (Suc n) ra s1 = Inr s2
    \<and> ring_inv (Suc n) (boot_stk t0 A t1 (addr_range p 0x400)) s2 [(n1, t1), (n0, t0)]
    \<and> cpu s2 = \<lparr>cpu_esp = p + 0x3E8, cpu_ebp = 0, cpu_ebx = 0, cpu_esi = 0, cpu_edi = 0, cpu_eflags = 0x200, cpu_eip = fn_addr\<rparr>
    \<and> saved_cpu (mem s2) t0 = (cpu s)\<lparr>cpu_esp := cpu_esp (cpu s) - 8, cpu_eip := 0\<rparr>
    \<and> read32 (mem s2) (cpu_esp (cpu s) - 8) = ra"
proof -
  obtain t0 n0 t1 n1 p s1 where st: "start_threads (Suc n) exit_addr fn_addr s = Inr (t1, s1)"
    "ring_inv (Suc n) (boot_stk t0 A t1 (addr_range p 0x400)) s1 [(n0, t0), (n1, t1)]"
    "saved_cpu (mem s1) t1 = fresh_cpu (p + 0x3F0)" "cpu s1 = cpu s" "kheap_good s1"
    "read32 (mem s1) (p + 0x3E4) = fn_addr" "read32 (mem s1) (p + 0x3E8) = exit_addr" "read32 (mem s1) (p + 0x3EC) = 0x567"
    by (rule start_threads_steps [OF assms(1-3), of n exit_addr fn_addr]) (rule that, assumption+)
  have "tl_thread (mem s1) (current_thread s1) = t0" using st(2) by (simp add: ring_inv_def)
  then have rm: "room (boot_stk t0 A t1 (addr_range p 0x400)) s1" using assms(4) st(4) by (simp add: room_def boot_stk_def del: addr_range_code)
  show ?thesis
  proof (rule ring_yield [OF st(2) rm, of ra])
    fix s2
    assume y: "schedule (Suc n) ra s1 = Inr s2" "ring_inv (Suc n) (boot_stk t0 A t1 (addr_range p 0x400)) s2 ((n1, t1) # [] @ [(n0, t0)])"
      "cpu s2 = (saved_cpu (mem s1) (snd (n1, t1)))\<lparr>cpu_esp := cpu_esp (saved_cpu (mem s1) (snd (n1, t1))) + 4,
         cpu_eip := read32 (mem s1) (cpu_esp (saved_cpu (mem s1) (snd (n1, t1))))\<rparr>"
      "saved_cpu (mem s2) (snd (n0, t0)) = (cpu s1)\<lparr>cpu_esp := cpu_esp (cpu s1) - 8, cpu_eip := 0\<rparr>"
      "read32 (mem s2) (cpu_esp (cpu s1) - 8) = ra"
    have "cpu s2 = \<lparr>cpu_esp = p + 0x3E8, cpu_ebp = 0, cpu_ebx = 0, cpu_esi = 0, cpu_edi = 0, cpu_eflags = 0x200, cpu_eip = fn_addr\<rparr>"
      using y(3) st(3,6) by (simp add: fresh_cpu_def add.commute)
    then show ?thesis
      using st y(1,2,4,5)
      by (intro exI [of _ t0] exI [of _ n0] exI [of _ t1] exI [of _ n1] exI [of _ p] exI [of _ s1] exI [of _ s2])
        (simp del: addr_range_code)
  qed
qed

theorem start_threads_ring_witness:
  "\<exists>t1 s1 s2. start_threads 1 0x1111 0x2222 start_sched = Inr (t1, s1) \<and> schedule 1 0x3333 s1 = Inr s2 \<and> cpu_eip (cpu s2) = 0x2222"
proof -
  have "addr_range (0x8000 + 0x74) 12 \<subseteq> addr_range 0x8000 0x100" by (rule addr_sub) simp_all
  then have "addr_range (cpu_esp (cpu start_sched) - 12) 12 \<subseteq> addr_range 0x8000 0x100" by (simp del: addr_range_code)
  from start_threads_ring [OF start_kheap(1,2) start_stack this, of 0 "0x1111" "0x2222" "0x3333"]
  show ?thesis by (auto simp del: addr_range_code)
qed

text \<open>
  C34: One round of the endless loop of \<open>fn\<close> returns and writes exactly the lines \<open>a = 0\<close> to \<open>a = 79\<close>
  to the screen, in this order, the numbers in decimal.
\<close>
theorem fn_round_prints:
  "fn_round s = Inr (screen_write (concat (map (\<lambda>k. [97, 32, 61, 32] @ dec k @ [10]) [0..<80])) s)"
proof -
  have "bytes ''a = %d'' @ [10] = [97, 32, 61, 32] @ [37, 100] @ [10]" by (simp add: bytes_def of_char_def)
  then show ?thesis
    unfolding fn_round_def using print_count_lines [of "[97, 32, 61, 32]" "[10]" 0 s] by simp
qed

text \<open>
  C18: The timer interrupt acknowledges itself at the first controller, counts one tick and turns
  the ring by one: the next thread runs, the interrupted one waits last.
\<close>
theorem timer_interrupt_turns:
  fixes s :: "'a keyboard_scheme"
  assumes "length (interrupt_handlers s) = 256" "interrupt_handlers s ! 32 = Some Timer_callback" "int_no regs = 32"
    and "ring_inv n stk s r" "room stk s"
  shows "\<exists>s'. irq_handler (run_handler n ra swa) regs s = Inr s' \<and> ring_inv n stk s' (rotate1 r)
    \<and> tick s' = tick s + 1 \<and> outp s' = outp s @ [(0x20, 0x20)]"
proof -
  let ?s = "outb 0x20 0x20 s"
  have h: "handler_at (int_no regs) ?s = Inr (Some Timer_callback)" using assms(1-3) by (simp add: handler_at_def outb_def)
  have "ring_inv n stk ?s r" "room stk ?s" using ring_inv_cong [of ?s s] assms(4,5) by (simp_all add: outb_def)
  from timer_callback_turn [OF this, of ra regs]
  obtain s' where s': "timer_callback n ra regs ?s = Inr s'" "ring_inv n stk s' (rotate1 r)" "tick s' = tick ?s + 1" by blast
  have "outp s' = outp ?s" using schedule_outp [of n ra _ s'] s'(1) by (fastforce simp: timer_callback_def Let_def)
  moreover have "irq_handler (run_handler n ra swa) regs s = Inr s'"
    using h s'(1) assms(3) by (simp add: irq_handler_def run_handler_def)
  ultimately show ?thesis using s' by (simp add: outb_def)
qed

theorem timer_interrupt_turns_witness:
  "\<exists>s'. irq_handler (run_handler 1 0x7000 (\<lambda>str x y s. Inr s)) (zero_registers\<lparr>int_no := 32\<rparr>) example_irq = Inr s'
    \<and> ring_inv 1 example_stk s' [(0x1010, 0x2100), (0x1000, 0x2000)] \<and> tick s' = 1"
proof -
  have "length (interrupt_handlers example_irq) = 256" "interrupt_handlers example_irq ! 32 = Some Timer_callback"
    "int_no (zero_registers\<lparr>int_no := 32\<rparr>) = 32" "tick example_irq = 0"
    by (simp_all add: example_irq_def example_keyboard_def sched.extend_def)
  with timer_interrupt_turns [OF this(1-3) example_irq_ring, of "0x7000" "\<lambda>str x y s. Inr s"]
  show ?thesis by (auto simp: example_ring_def)
qed

end
