(* ===== verification/Kernel_Boot.thy ===== *)
theory Kernel_Boot
  imports Boot_Paging Kernel_Main
begin

text \<open>
  The boot of the kernel from the entry of \<open>main\<close> to the first thread switch. \<open>init_paging\<close> establishes what the
  heap needs, the heap what the threads need, and the registered handlers stay in place, because the allocator touches no
  state but memory, the heap records and the placement pointer.
\<close>

section \<open>What the allocator leaves alone\<close>

definition only_alloc :: "'a kmem_scheme \<Rightarrow> 'a kmem_scheme \<Rightarrow> bool" where
  "only_alloc s s' \<longleftrightarrow> s' = s\<lparr>mem := mem s', placement_address := placement_address s', heaps := heaps s'\<rparr>"

lemma only_alloc_trans: "only_alloc s s' \<Longrightarrow> only_alloc s' s'' \<Longrightarrow> only_alloc s s''"
  unfolding only_alloc_def by (cases s; cases s'; cases s'') simp

lemma only_alloc_upd:
  "only_alloc s s" "only_alloc s t \<Longrightarrow> only_alloc s (t\<lparr>mem := m\<rparr>)" "only_alloc s t \<Longrightarrow> only_alloc s (upd_heap h f t)"
  "only_alloc s t \<Longrightarrow> only_alloc s (t\<lparr>placement_address := a\<rparr>)"
  unfolding only_alloc_def upd_heap_def by (cases s; cases t; simp)+

text \<open>Whenever the result \<open>r\<close> is a success, its state differs in these three fields only.\<close>

definition allocs :: "('r \<Rightarrow> 'a kmem_scheme) \<Rightarrow> 'a kmem_scheme \<Rightarrow> kerror + 'r \<Rightarrow> bool" where
  "allocs g s r \<longleftrightarrow> (\<forall>x. r = Inr x \<longrightarrow> only_alloc s (g x))"

lemma allocs_Inr: "only_alloc s (g x) \<Longrightarrow> allocs g s (Inr x)"
  by (simp add: allocs_def)

lemma allocs_Inl: "allocs g s (Inl e)"
  by (simp add: allocs_def)

lemma allocs_bind:
  assumes "allocs g s r" "\<And>x. only_alloc s (g x) \<Longrightarrow> allocs g' (g x) (f x)"
  shows "allocs g' s (ebind r f)"
proof (cases r)
  case (Inr y)
  then have g: "only_alloc s (g y)" using assms(1) by (simp add: allocs_def)
  then show ?thesis using assms(2) [OF g] Inr only_alloc_trans [OF g] by (simp add: allocs_def)
qed (simp add: allocs_def)

lemma allocs_pure: "(\<And>x. allocs g s (f x)) \<Longrightarrow> allocs g s (ebind r f)"
  by (cases r) (auto simp: allocs_def)

lemma allocs_mono: "only_alloc s t \<Longrightarrow> allocs g t r \<Longrightarrow> allocs g s r"
  using only_alloc_trans by (auto simp: allocs_def)

lemma allocs_if: "(c \<Longrightarrow> allocs g s a) \<Longrightarrow> (\<not> c \<Longrightarrow> allocs g s b) \<Longrightarrow> allocs g s (if c then a else b)"
  by simp

lemma allocs_get_page:
  assumes "\<And>len s. allocs (\<lambda>(_, _, s). s) s (kz len s)"
  shows "allocs snd s (get_page kz a create dir s)"
  unfolding get_page_def Let_def
  by (intro allocs_if allocs_Inr allocs_bind [OF assms])
    (auto intro!: allocs_Inr only_alloc_upd split: prod.splits)

lemma allocs_alloc_frame: "allocs (\<lambda>s. s) s (alloc_frame p k w s)"
  unfolding allocs_def using alloc_frame_mem only_alloc_upd(2) [OF only_alloc_upd(1)] by metis

lemma allocs_expand_pages:
  assumes "\<And>len s. allocs (\<lambda>(_, _, s). s) s (kz len s)"
  shows "allocs (\<lambda>s. s) s (expand_pages n kz i new h s)"
proof (induction n arbitrary: i s)
  case (Suc n)
  show ?case
    by (auto intro!: allocs_Inr only_alloc_upd allocs_bind [OF allocs_get_page [OF assms]] allocs_bind [OF allocs_alloc_frame] Suc.IH)
qed (simp add: allocs_Inl)

lemma allocs_expand:
  assumes "\<And>len s. allocs (\<lambda>(_, _, s). s) s (kz len s)"
  shows "allocs (\<lambda>s. s) s (expand kz new h s)"
  unfolding expand_def Let_def
  by (intro allocs_pure allocs_bind [OF allocs_expand_pages [OF assms]]) (auto intro!: allocs_Inr only_alloc_upd)

lemma allocs_index:
  "allocs (\<lambda>s. s) s (index_insert h el s)" "allocs (\<lambda>s. s) s (index_remove h i s)"
  unfolding index_insert_def index_remove_def
  by (auto intro!: allocs_pure allocs_Inr only_alloc_upd split: prod.splits)

lemma allocs_grow:
  assumes "\<And>len s. allocs (\<lambda>(_, _, s). s) s (kz len s)"
  shows "allocs (\<lambda>s. s) s (alloc_grow kz new h s)"
  unfolding alloc_grow_def Let_def
  by (rule allocs_bind [OF allocs_expand [OF assms]], rule allocs_pure, rule allocs_if)
    (auto intro!: allocs_pure allocs_Inr only_alloc_upd intro: allocs_mono [OF only_alloc_upd(2) [OF only_alloc_upd(1)] allocs_index(1)])

lemma allocs_carve: "allocs snd s (alloc_carve sz new pa i h s)"
proof -
  have front: "allocs (\<lambda>(_, _, s). s) s (carve_front pa i pos n h s)" for pos n and s :: "'a kmem_scheme"
    unfolding carve_front_def Let_def
    by (auto intro!: allocs_Inr only_alloc_upd allocs_bind [OF allocs_index(2)])
  have block: "allocs snd s (carve_block sz new pos n h s)" for sz new pos n and s :: "'a kmem_scheme"
    unfolding carve_block_def Let_def
    by (rule allocs_bind [where g = "\<lambda>s. s"], rule allocs_if)
      (auto intro!: allocs_Inr only_alloc_upd intro: allocs_mono [OF only_alloc_upd(2) [OF only_alloc_upd(1)] allocs_index(1)])
  show ?thesis
    unfolding alloc_carve_def Let_def by (intro allocs_pure allocs_bind [OF front]) (auto intro: block split: prod.splits)
qed

lemma allocs_kmalloc_internal:
  assumes "\<And>len pa h s. allocs snd s (al len pa h s)"
  shows "allocs (\<lambda>(_, _, s). s) s (kmalloc_internal al len phys flags s)"
proof -
  have place: "only_alloc s t" if "placement_alloc len flags s = (a, b, t)" for a b and s t :: "'a kmem_scheme"
    using that by (auto simp: placement_alloc_def Let_def intro!: only_alloc_upd)
  have none: "allocs (\<lambda>(_, _, s). s) s (no_table_alloc len s)" for len and s :: "'a kmem_scheme"
    by (simp add: no_table_alloc_def allocs_Inl)
  show ?thesis
    unfolding kmalloc_internal_def
    by (rule allocs_bind [where g = "\<lambda>(_, _, s). s"], rule allocs_if)
      (use place in \<open>auto intro!: allocs_Inr only_alloc_upd allocs_bind [OF assms] allocs_bind [OF allocs_get_page [OF none]] split: prod.splits\<close>)
qed

lemma allocs_alloc: "allocs snd s (alloc n sz pa h s)"
proof (induction n arbitrary: sz pa h s)
  case (Suc n)
  have "allocs (\<lambda>s. s) s (alloc_grow (\<lambda>len s. kmalloc_internal (alloc n) len True (M_ALIGNED OR M_ZERO) s) new h s)" for new and s :: "'a kmem_scheme"
    by (rule allocs_grow, rule allocs_kmalloc_internal, rule Suc.IH)
  note grow = this
  show ?case
    unfolding alloc.simps Let_def by (rule allocs_pure, rule allocs_if, rule allocs_bind, rule grow, rule Suc.IH, rule allocs_carve)
qed (simp add: allocs_Inl)

lemma kmalloc_only_alloc: "kmalloc n len s = Inr (p, s') \<Longrightarrow> only_alloc s s'"
  using allocs_kmalloc_internal [of "alloc n" s len False 0, OF allocs_alloc]
  by (auto simp: kmalloc_def drop_phys_def allocs_def elim!: ebind_eq_InrE)

section \<open>The boot sequence\<close>

text \<open>Starting the threads leaves the handlers, the ports and the state of the drivers as they were.\<close>

definition drivers_kept :: "'a sched_scheme \<Rightarrow> 'a sched_scheme \<Rightarrow> bool" where
  "drivers_kept s s' \<longleftrightarrow> interrupt_handlers s' = interrupt_handlers s \<and> outp s' = outp s \<and> sched.more s' = sched.more s"

lemma kmalloc_drivers:
  assumes "kmalloc n len s = Inr (p, s')"
  shows "drivers_kept s s'"
proof -
  have "s' = s\<lparr>mem := mem s', placement_address := placement_address s', heaps := heaps s'\<rparr>"
    using kmalloc_only_alloc [OF assms] by (simp add: only_alloc_def)
  then obtain m a h where "s' = s\<lparr>mem := m, placement_address := a, heaps := h\<rparr>" by blast
  then show ?thesis by (simp add: drivers_kept_def)
qed

lemma start_threads_drivers:
  assumes "start_threads n ea fn s = Inr (t, s')"
  shows "drivers_kept s s'"
proof -
  have "drivers_kept u u'" if "thread_is_ready n c u = Inr u'" for c u u'
    using that by (auto simp: thread_is_ready_def Let_def drivers_kept_def dest!: kmalloc_drivers elim!: ebind_eq_InrE split: if_splits)
  note rdy = this
  have "drivers_kept u u'" if "create_thread n ea fn arg st u = Inr (c, u')" for arg st c u u'
    using that by (auto simp: create_thread_def Let_def drivers_kept_def dest!: kmalloc_drivers rdy elim!: ebind_eq_InrE)
  note create = this
  show ?thesis
    using assms
    by (auto simp: start_threads_def init_threading_def init_scheduler_def Let_def drivers_kept_def
        dest!: kmalloc_drivers create elim!: ebind_eq_InrE)
qed

lemma init_descriptor_tables_ok:
  assumes "length (gdt_entries s) = 5"
  shows "\<exists>s'. init_descriptor_tables lm s = Inr s' \<and> interrupt_handlers s' = replicate 256 None
    \<and> mem s' = mem s \<and> descr.more s' = descr.more s"
  by (rule init_descriptor_tables_eq [OF assms, of lm]) (simp add: idt_loaded_def gdt_loaded_def)

lemma descr_more_fields:
  fixes s s' :: "'a sched_scheme"
  assumes "descr.more s' = descr.more s"
  shows "placement_address s' = placement_address s" "kernel_heap s' = kernel_heap s" "cpu s' = cpu s" "sched.more s' = sched.more s"
  using assms by (cases s; cases s'; simp)+

text \<open>
  The state of the machine at the entry of \<open>main\<close>: the static tables have their sizes, there is no heap, the end of the
  kernel image leaves room below 3 MB, and the boot stack lies below the kernel heap.
\<close>

definition at_main :: "'a sched_scheme \<Rightarrow> bool" where
  "at_main s \<longleftrightarrow> length (gdt_entries s) = 5 \<and> boot_ready (s\<lparr>interrupt_handlers := replicate 256 None\<rparr>)
     \<and> 12 \<le> unat (cpu_esp (cpu s)) \<and> unat (cpu_esp (cpu s)) \<le> 0xC0000000"

lemma main_boot_steps:
  fixes s :: "'a sched_scheme"
  assumes "at_main s"
  obtains t0 n0 t1 n1 p s' where "main_boot (Suc n) lm ea fn s = Inr s'"
    "ring_inv (Suc n) (boot_stk t0 (addr_range (cpu_esp (cpu s) - 12) 12) t1 (addr_range p 0x400)) s' [(n0, t0), (n1, t1)]"
    "saved_cpu (mem s') t1 = fresh_cpu (p + 0x3F0)" "cpu s' = cpu s" "kheap_good s'"
    "read32 (mem s') (p + 0x3E4) = fn" "read32 (mem s') (p + 0x3E8) = ea" "read32 (mem s') (p + 0x3EC) = 0x567"
    "interrupt_handlers s' = (replicate 256 None)[14 := Some Page_fault_handler, 32 := Some Timer_callback]"
    "sched.more s' = sched.more s"
proof -
  have m: "length (gdt_entries s) = 5" "boot_ready (s\<lparr>interrupt_handlers := replicate 256 None\<rparr>)"
    "12 \<le> unat (cpu_esp (cpu s))" "unat (cpu_esp (cpu s)) \<le> 0xC0000000"
    using assms by (simp_all add: at_main_def)
  obtain s1 where s1: "init_descriptor_tables lm s = Inr s1" "interrupt_handlers s1 = replicate 256 None"
    "descr.more s1 = descr.more s"
    using init_descriptor_tables_ok [OF m(1), of lm] by blast
  note f1 = descr_more_fields [OF s1(3)]
  have rdy: "boot_ready s1" using m(2) s1(2) f1(1,2) by (simp add: boot_ready_def)
  obtain s2 where s2: "init_paging (Suc n) s1 = Inr s2" "heap_ok (kernel_heap s2) [(0x7F000, True)] s2" "kernel_heap s2 \<noteq> 0"
    "h_addr_start (heaps s2 (kernel_heap s2)) = 0xC0081000" "h_addr_end (heaps s2 (kernel_heap s2)) = 0xC0100000"
    and sh: "\<exists>m hp. s2 = s1\<lparr>mem := m, nframes := 4096, frames := placement_address s1, kernel_directory := boot_dir (placement_address s1),
       placement_address := boot_dir (placement_address s1) + 0x6000, heaps := hp, kernel_heap := boot_dir (placement_address s1) + 0x4000,
       current_directory := boot_dir (placement_address s1), cr3 := pd_tblphys (boot_dir (placement_address s1)) 0,
       cr0 := cr0 s1 OR 0x80000000, interrupt_handlers := (interrupt_handlers s1)[14 := Some Page_fault_handler]\<rparr>"
    by (rule init_paging_maps_all [OF rdy, of "Suc n"]) (rule that, assumption+)
  have f2: "interrupt_handlers s2 = (replicate 256 None)[14 := Some Page_fault_handler]" "cpu s2 = cpu s" "sched.more s2 = sched.more s"
    using sh s1(2) f1(3,4) by auto
  have len: "length (interrupt_handlers s2) = 256" by (simp add: f2(1))
  obtain s3 where s3: "init_timer 20 s2 = Inr s3" "interrupt_handlers s3 = (interrupt_handlers s2)[32 := Some Timer_callback]"
    "mem s3 = mem s2" "descr.more s3 = descr.more s2"
    using len by (simp add: init_timer_def register_interrupt_handler_def IRQ0_def Let_def outb_def)
  have f3: "heaps s3 = heaps s2" "kernel_heap s3 = kernel_heap s2" "cpu s3 = cpu s" "sched.more s3 = sched.more s"
    using s3(4) f2 by (cases s2; cases s3; simp)+
  have ok3: "heap_ok (kernel_heap s3) [(0x7F000, True)] s3" using s2(2) f3 s3(3) by (simp add: heap_ok_def Let_def)
  note b3 = heap_ok_blocks [OF ok3]
  have h3: "kheap_good s3" "kheap_room 1196 s3" "kheap_span s3 = (0xC0081000, 0xC0100000)"
    using ok3 b3 s2(3-5) f3(1,2) by (simp_all add: kheap_good_def kheap_room_def kheap_span_def)
  let ?A = "addr_range (cpu_esp (cpu s) - 12) 12"
  have "unat (cpu_esp (cpu s) - 12) = unat (cpu_esp (cpu s)) - 12" using m(3) by (subst unat_sub_nowrap) simp_all
  then have e: "unat (cpu_esp (cpu s) - 12) + 12 = unat (cpu_esp (cpu s))" using m(3) by simp
  have A: "?A \<inter> span_cells (kheap_span s3) = {}"
  proof -
    have "x \<notin> span_cells (0xC0081000, 0xC0100000)" if "x \<in> ?A" for x
    proof -
      have "unat x < unat (cpu_esp (cpu s))" using that e m(4) addr_range_nowrap [of "cpu_esp (cpu s) - 12" 12 x] by simp
      then show ?thesis using m(4) by (simp add: span_cells_def)
    qed
    then show ?thesis unfolding h3(3) by blast
  qed
  obtain t0 n0 t1 n1 p s' where st: "start_threads (Suc n) ea fn s3 = Inr (t1, s')"
    "ring_inv (Suc n) (boot_stk t0 ?A t1 (addr_range p 0x400)) s' [(n0, t0), (n1, t1)]"
    "saved_cpu (mem s') t1 = fresh_cpu (p + 0x3F0)" "cpu s' = cpu s3" "kheap_good s'"
    "read32 (mem s') (p + 0x3E4) = fn" "read32 (mem s') (p + 0x3E8) = ea" "read32 (mem s') (p + 0x3EC) = 0x567"
    by (rule start_threads_steps [OF h3(1,2) A, of n ea fn]) (rule that, assumption+)
  have kept: "interrupt_handlers s' = interrupt_handlers s3" "sched.more s' = sched.more s3"
    using start_threads_drivers [OF st(1)] by (simp_all add: drivers_kept_def)
  have run: "main_boot (Suc n) lm ea fn s = Inr s'" using s1(1) s2(1) s3(1) st(1) by (simp add: main_boot_def)
  show thesis by (rule that [OF run st(2,3)]) (use st kept f2 f3 s3(2) in simp_all)
qed

lemma sched_more_tick:
  fixes s s' :: "'a timer_scheme"
  assumes "sched.more s' = sched.more s"
  shows "tick s' = tick s"
  using assms by (cases s; cases s'; simp)

section \<open>Properties\<close>

text \<open>
  C4: From the entry of \<open>main\<close> the boot sequence returns with a well-formed heap and the ring of the boot thread and the
  new thread, whose stack holds the address of \<open>thread_exit\<close> and the argument 0x567; the first timer interrupt then enters \<open>fn\<close> on
  that stack with interrupts enabled, and the boot thread waits with the registers it had.
\<close>
theorem boot_reaches_fn:
  fixes s :: "'a keyboard_scheme"
  assumes "at_main s" "int_no regs = 32"
  shows "\<exists>s1 s2 t0 n0 t1 n1 p. main_boot (Suc n) lm exit_addr fn_addr s = Inr s1 \<and> kheap_good s1
    \<and> read32 (mem s1) (p + 0x3E8) = exit_addr \<and> read32 (mem s1) (p + 0x3EC) = 0x567
    \<and> irq_handler (run_handler (Suc n) ra swa) regs s1 = Inr s2
    \<and> ring_inv (Suc n) (boot_stk t0 (addr_range (cpu_esp (cpu s) - 12) 12) t1 (addr_range p 0x400)) s2 [(n1, t1), (n0, t0)]
    \<and> cpu s2 = \<lparr>cpu_esp = p + 0x3E8, cpu_ebp = 0, cpu_ebx = 0, cpu_esi = 0, cpu_edi = 0, cpu_eflags = 0x200, cpu_eip = fn_addr\<rparr>
    \<and> saved_cpu (mem s2) t0 = (cpu s)\<lparr>cpu_esp := cpu_esp (cpu s) - 8, cpu_eip := 0\<rparr>
    \<and> read32 (mem s2) (cpu_esp (cpu s) - 8) = ra \<and> tick s2 = tick s + 1"
proof -
  let ?A = "addr_range (cpu_esp (cpu s) - 12) 12"
  obtain t0 n0 t1 n1 p s1 where b: "main_boot (Suc n) lm exit_addr fn_addr s = Inr s1"
    "ring_inv (Suc n) (boot_stk t0 ?A t1 (addr_range p 0x400)) s1 [(n0, t0), (n1, t1)]"
    "saved_cpu (mem s1) t1 = fresh_cpu (p + 0x3F0)" "cpu s1 = cpu s" "kheap_good s1"
    "read32 (mem s1) (p + 0x3E4) = fn_addr" "read32 (mem s1) (p + 0x3E8) = exit_addr" "read32 (mem s1) (p + 0x3EC) = 0x567"
    "interrupt_handlers s1 = (replicate 256 None)[14 := Some Page_fault_handler, 32 := Some Timer_callback]"
    "sched.more s1 = sched.more s"
    by (rule main_boot_steps [OF assms(1), of n lm exit_addr fn_addr]) (rule that, assumption+)
  let ?stk = "boot_stk t0 ?A t1 (addr_range p 0x400)"
  let ?u = "(outb 0x20 0x20 s1)\<lparr>tick := tick s1 + 1\<rparr>"
  have t: "tl_thread (mem s1) (current_thread s1) = t0" using b(2) by (simp add: ring_inv_def)
  have u: "mem ?u = mem s1" "ready_queue ?u = ready_queue s1" "current_thread ?u = current_thread s1" "cpu ?u = cpu s1"
    by (simp_all add: outb_def)
  have inv: "ring_inv (Suc n) ?stk ?u [(n0, t0), (n1, t1)]" using b(2) ring_inv_cong(1) [OF u] by simp
  have rm: "room ?stk ?u" unfolding ring_inv_cong(2) [OF u] by (simp add: room_def t b(4) boot_stk_def)
  have h: "handler_at (int_no regs) (outb 0x20 0x20 s1) = Inr (Some Timer_callback)"
    using b(9) assms(2) by (simp add: handler_at_def outb_def)
  show ?thesis
  proof (rule ring_yield [OF inv rm, of ra])
    fix s2
    assume y: "schedule (Suc n) ra ?u = Inr s2" "ring_inv (Suc n) ?stk s2 ((n1, t1) # [] @ [(n0, t0)])"
      "cpu s2 = (saved_cpu (mem ?u) (snd (n1, t1)))\<lparr>cpu_esp := cpu_esp (saved_cpu (mem ?u) (snd (n1, t1))) + 4,
         cpu_eip := read32 (mem ?u) (cpu_esp (saved_cpu (mem ?u) (snd (n1, t1))))\<rparr>"
      "saved_cpu (mem s2) (snd (n0, t0)) = (cpu ?u)\<lparr>cpu_esp := cpu_esp (cpu ?u) - 8, cpu_eip := 0\<rparr>"
      "read32 (mem s2) (cpu_esp (cpu ?u) - 8) = ra"
    have irq: "irq_handler (run_handler (Suc n) ra swa) regs s1 = Inr s2"
      using h y(1) assms(2) by (simp add: irq_handler_def run_handler_def timer_callback_def outb_def)
    have c: "cpu s2 = \<lparr>cpu_esp = p + 0x3E8, cpu_ebp = 0, cpu_ebx = 0, cpu_esi = 0, cpu_edi = 0, cpu_eflags = 0x200, cpu_eip = fn_addr\<rparr>"
      using y(3) b(3,6) u(1) by (simp add: fresh_cpu_def add.commute)
    have tk: "tick s2 = tick s + 1" using schedule_tick [OF y(1)] sched_more_tick [OF b(10)] by simp
    have r: "ring_inv (Suc n) ?stk s2 [(n1, t1), (n0, t0)]" using y(2) by simp
    have sv: "saved_cpu (mem s2) t0 = (cpu s)\<lparr>cpu_esp := cpu_esp (cpu s) - 8, cpu_eip := 0\<rparr>" using y(4) u(4) b(4) by simp
    have rt: "read32 (mem s2) (cpu_esp (cpu s) - 8) = ra" using y(5) u(4) b(4) by simp
    show ?thesis
      by (rule exI [of _ s1], rule exI [of _ s2], rule exI [of _ t0], rule exI [of _ n0], rule exI [of _ t1], rule exI [of _ n1],
          rule exI [of _ p], intro conjI; fact)
  qed
qed

text \<open>The machine as the boot loader leaves it, with the kernel image ending at 2 MB and the stack below it.\<close>

definition example_main :: keyboard where
  "example_main = timer.extend (sched.extend (kmem.extend boot_kmem
     \<lparr>ready_queue = 0, current_thread = 0, thread_c_current = 0, next_tid = 0,
      cpu = \<lparr>cpu_esp = 0x8080, cpu_ebp = 0, cpu_ebx = 0, cpu_esi = 0, cpu_edi = 0, cpu_eflags = 2, cpu_eip = 0\<rparr>\<rparr>)
     \<lparr>tick = 0\<rparr>) \<lparr>key_buffer = replicate 256 0, key_index = 0\<rparr>"

theorem boot_reaches_fn_witness:
  "\<exists>s1 s2. main_boot 1 example_linkmap 0x1111 0x2222 example_main = Inr s1
    \<and> irq_handler (run_handler 1 0x3333 (\<lambda>str x y s. Inr s)) (zero_registers\<lparr>int_no := 32\<rparr>) s1 = Inr s2
    \<and> cpu_eip (cpu s2) = 0x2222"
proof -
  have f: "gdt_entries example_main = gdt_entries boot_kmem" "placement_address example_main = placement_address boot_kmem"
    "kernel_heap example_main = kernel_heap boot_kmem" "cpu_esp (cpu example_main) = 0x8080"
    by (simp_all add: example_main_def timer.extend_def sched.extend_def kmem.extend_def)
  have "length (gdt_entries boot_kmem) = 5"
    by (simp add: boot_kmem_def paging.extend_def boot_paging_def descr.extend_def boot_descr_def)
  then have m: "at_main example_main" using boot_kmem_ready f by (simp add: at_main_def boot_ready_def)
  have i: "int_no (zero_registers\<lparr>int_no := 32\<rparr>) = 32" by simp
  show ?thesis
    using boot_reaches_fn [OF m i, of 0 example_linkmap "0x1111" "0x2222" "0x3333" "\<lambda>str x y s. Inr s"] by (auto simp del: addr_range_code)
qed

end
