(* ===== verification/Heap_Align.thy ===== *)
theory Heap_Align
  imports Heap_Alloc
begin

text \<open>
  Page-aligned requests to \<open>alloc\<close>. The block starts a header before the next page boundary behind the hole, and the front of the
  hole stays a hole under its old index entry. That works when the front has room for a header and a
  footer; when the hole already ends its header at a page boundary nothing is left of the front, but its entry stays in
  the index, and the block is handed out again.
\<close>

section \<open>The front of the hole\<close>

text \<open>The bytes from a hole at \<open>a\<close> to a block whose payload is page-aligned, as the code computes them.\<close>

definition front_pad :: "nat \<Rightarrow> nat" where
  "front_pad a = 4084 - a mod 4096"

lemma front_pad_aligned:
  assumes "a mod 4096 \<le> 4084"
  shows "(a + front_pad a + 12) mod 4096 = 0"
proof -
  have "a + front_pad a + 12 = 4096 * (a div 4096) + 4096"
    unfolding front_pad_def using assms mult_div_mod_eq [of 4096 a] by linarith
  then show ?thesis by simp
qed

lemma front_pad_words:
  fixes a :: nat
  assumes "a mod 4096 \<le> 4084" "a < 2 ^ 32"
  shows "(of_nat a :: u32) AND 0xFFF = of_nat (a mod 4096)"
    "0x1000 - (of_nat a AND 0xFFF) - SIZEOF_header = (of_nat (front_pad a) :: u32)"
    "of_nat a + 0x1000 - (of_nat a AND 0xFFF) - SIZEOF_header = (of_nat (a + front_pad a) :: u32)"
    "4096 \<le> a \<Longrightarrow> (of_nat a :: u32) AND 0xFFFFF000 \<noteq> 0"
proof -
  have u: "unat (of_nat a :: u32) = a" using assms(2) by (intro unat_of_nat32) simp
  have m: "(0xFFF :: u32) = mask 12" by (simp add: mask_eq_exp_minus_1)
  have "unat ((of_nat a :: u32) AND 0xFFF) = a mod 4096" unfolding m using unat_and_mask [of "of_nat a :: u32" 12] u by simp
  then show low: "(of_nat a :: u32) AND 0xFFF = of_nat (a mod 4096)" by (metis of_nat_unat ucast_id)
  have "(0x1000 :: u32) = of_nat (front_pad a + a mod 4096 + 12)" using assms(1) by (simp add: front_pad_def)
  then have e: "(0x1000 :: u32) = of_nat (front_pad a) + of_nat (a mod 4096) + 12" by (simp only: of_nat_add of_nat_numeral)
  show d: "0x1000 - (of_nat a AND 0xFFF) - SIZEOF_header = (of_nat (front_pad a) :: u32)"
    unfolding low by (subst e) (simp add: SIZEOF_header_def)
  then show "of_nat a + 0x1000 - (of_nat a AND 0xFFF) - SIZEOF_header = (of_nat (a + front_pad a) :: u32)"
    by (simp add: algebra_simps)
  assume "4096 \<le> a"
  have n: "(0xFFFFF000 :: u32) = NOT (mask 12)" by (simp add: mask_eq_exp_minus_1)
  have "unat ((of_nat a :: u32) AND 0xFFFFF000) = a - a mod 4096" unfolding n using unat_and_not_mask [of "of_nat a :: u32" 12] u by simp
  moreover have "a mod 4096 < 4096" by simp
  ultimately have "unat ((of_nat a :: u32) AND 0xFFFFF000) \<noteq> 0" using \<open>4096 \<le> a\<close> by linarith
  then show "(of_nat a :: u32) AND 0xFFFFF000 \<noteq> 0" by auto
qed

lemma carve_front_aligned:
  assumes "20 \<le> front_pad a" "4096 \<le> a" "front_pad a \<le> n" "a + n < 2 ^ 32"
  shows "carve_front 1 i (of_nat a) (of_nat n) h s
    = Inr (of_nat (a + front_pad a), of_nat (n - front_pad a), s\<lparr>mem := put_block a (front_pad a) True (mem s)\<rparr>)"
proof -
  have a: "a mod 4096 \<le> 4084" "a < 2 ^ 32" using assms(1,4) by (simp_all add: front_pad_def)
  note w = front_pad_words [OF a] and nz = front_pad_words(4) [OF a assms(2)]
  have foot: "of_nat (a + front_pad a) - SIZEOF_footer = (of_nat (a + front_pad a - 8) :: u32)"
    using assms(1) by (simp add: SIZEOF_footer_def of_nat_diff)
  have "block_at (put_block a (front_pad a) True (mem s)) (a + n) a (front_pad a) True"
    by (rule put_block_ok(1)) (use assms in simp_all)
  then have sz: "hh_size (put_block a (front_pad a) True (mem s)) (of_nat a) = of_nat (front_pad a)" by (simp add: block_at_def)
  have df: "(of_nat n :: u32) - of_nat (front_pad a) = of_nat (n - front_pad a)" using assms(3) by (simp add: of_nat_diff)
  have pb: "put_footer (of_nat (a + front_pad a - 8)) (of_nat a) (put_header (of_nat a) 1 (of_nat (front_pad a)) (mem s)) = put_block a (front_pad a) True (mem s)"
    by (simp add: put_block_def)
  have c: "((1 :: u32) \<noteq> 0 \<and> (of_nat a :: u32) AND 0xFFFFF000 \<noteq> 0) = True" using nz by simp
  show ?thesis unfolding carve_front_def c if_True Let_def w(3) w(2) foot pb sz df ..
qed

section \<open>A hole with room in front of the page boundary\<close>

lemma alloc_carve_aligned_eq:
  fixes s :: "'a kmem_scheme"
  assumes look: "lookup_sorted_array (h_index (heaps s h)) i (mem s) = Inr (of_nat a)"
    and size: "hh_size (mem s) (of_nat a) = of_nat n" and w: "w = unat sz + 20"
    and front: "20 \<le> front_pad a" "4096 \<le> a" "a + n < 2 ^ 32" and rest: "front_pad a + w = n \<or> front_pad a + w + 20 \<le> n"
  defines "s1 \<equiv> s\<lparr>mem := put_block a (front_pad a) True (mem s)\<rparr>" and "k \<equiv> n - front_pad a"
  shows "alloc_carve sz (sz + SIZEOF_header + SIZEOF_footer) 1 i h s =
    (if k - w < 20 then carve_block (of_nat (k - 20)) (of_nat k) (of_nat (a + front_pad a)) (of_nat k) h s1
     else carve_block (of_nat (w - 20)) (of_nat w) (of_nat (a + front_pad a)) (of_nat k) h s1)"
proof -
  have sz: "sz = of_nat (w - 20)" using w by simp
  have "w - 20 + 12 + 8 = w" using w by simp
  then have new: "sz + SIZEOF_header + SIZEOF_footer = of_nat w"
    unfolding sz SIZEOF_header_def SIZEOF_footer_def by (metis of_nat_add of_nat_numeral)
  have wn: "w \<le> n" "n < 2 ^ 32" "20 \<le> n - w" "front_pad a \<le> n" using front rest by linarith+
  have "unat (SIZEOF_header + SIZEOF_footer) = 20" by (simp add: sizeof_defs)
  then have big: "(of_nat n - of_nat w < SIZEOF_header + SIZEOF_footer) = False"
    using wn(3) by (simp only: word_less_nat_alt unat_diff_of_nat [OF wn(1,2)]) simp
  note fr = carve_front_aligned [OF front(1,2) wn(4) front(3), of i h s, folded s1_def k_def]
  have "alloc_carve sz (sz + SIZEOF_header + SIZEOF_footer) 1 i h s
      = carve_block (of_nat (w - 20)) (of_nat w) (of_nat (a + front_pad a)) (of_nat k) h s1"
    unfolding alloc_carve_def look ebind_Inr Let_def size new big if_False fr split unfolding sz ..
  moreover have "k - w < 20 \<Longrightarrow> k = w" using rest by (auto simp: k_def)
  ultimately show ?thesis by auto
qed

lemma alloc_carve_aligned:
  fixes s :: "'a kmem_scheme"
  assumes ok: "heap_ok h (xs @ (n, True) # ys) s"
  defines "a \<equiv> hstart h s + total xs"
  assumes i: "i < sa_size (h_index (heaps s h))" "sa_elems (h_index (heaps s h)) (mem s) ! unat i = of_nat a"
    and front: "20 \<le> front_pad a" "4096 \<le> a"
    and w: "w = unat sz + 20" "front_pad a + w = n \<or> front_pad a + w + 20 \<le> n"
    and room: "sa_size (h_index (heaps s h)) < sa_maxsize (h_index (heaps s h))"
  obtains s' where
    "alloc_carve sz (sz + SIZEOF_header + SIZEOF_footer) 1 i h s = Inr (of_nat (a + front_pad a) + SIZEOF_header, s')"
    "heap_ok h (xs @ (front_pad a, True) # cut_hole (n - front_pad a) w @ ys) s'"
    "h_addr_start (heaps s' h) = h_addr_start (heaps s h)" "h_addr_end (heaps s' h) = h_addr_end (heaps s h)"
    "\<And>x. x \<notin> sa_region (h_index (heaps s h)) \<Longrightarrow> \<not> (a \<le> unat x \<and> unat x < a + n) \<Longrightarrow> mem s' x = mem s x"
    "only_heap s s'"
proof -
  note okd = heap_okD [OF ok]
  note sp = heap_ok_split [OF ok, folded a_def]
  let ?p = "front_pad a"
  define s1 where "s1 = s\<lparr>mem := put_block a ?p True (mem s)\<rparr>"
  have n: "?p \<le> n" "w \<le> n - ?p" "a + ?p + (n - ?p) = a + n" "a + ?p \<le> 2 ^ 32" "20 \<le> w" "20 \<le> n - ?p"
    using w front sp(3) by linarith+
  have below: "unat (sa_array (h_index (heaps s h))) + 4 * unat (sa_maxsize (h_index (heaps s h))) \<le> a"
    using okd(5) by (simp add: a_def)
  have look: "lookup_sorted_array (h_index (heaps s h)) i (mem s) = Inr (of_nat a)"
    using i by (simp add: lookup_sorted_array_eq word_less_nat_alt)
  note pb = put_block_ok [OF front(1) n(4), where m = "mem s" and f = True]
  have els: "sa_elems (h_index (heaps s1 h)) (mem s1) = sa_elems (h_index (heaps s h)) (mem s)"
    using index_agree [OF okd(3) below pb(2)] by (simp add: s1_def)
  have hs1 [simp]: "heaps s1 = heaps s" by (simp add: s1_def)
  have end1: "a + ?p + (n - ?p) \<le> hend h s1" using sp(2) n(3) by simp
  obtain s' where c: "(if n - ?p - w < 20 then carve_block (of_nat (n - ?p - 20)) (of_nat (n - ?p)) (of_nat (a + ?p)) (of_nat (n - ?p)) h s1
      else carve_block (of_nat (w - 20)) (of_nat w) (of_nat (a + ?p)) (of_nat (n - ?p)) h s1) = Inr (of_nat (a + ?p) + SIZEOF_header, s')"
    "tiles (mem s') (hend h s1) (a + ?p) (cut_hole (n - ?p) w)"
    "mset (sa_elems (h_index (heaps s' h)) (mem s'))
      = mset (sa_elems (h_index (heaps s1 h)) (mem s1)) + mset (map of_nat (holes (a + ?p) (cut_hole (n - ?p) w)))"
    "h_addr_start (heaps s' h) = h_addr_start (heaps s1 h)" "h_addr_end (heaps s' h) = h_addr_end (heaps s1 h)"
    "sa_wf (h_index (heaps s' h))" "sa_array (h_index (heaps s' h)) = sa_array (h_index (heaps s1 h))"
    "sa_maxsize (h_index (heaps s' h)) = sa_maxsize (h_index (heaps s1 h))" "sa_cmp (h_index (heaps s' h)) = sa_cmp (h_index (heaps s1 h))"
    "\<And>x. x \<notin> sa_region (h_index (heaps s1 h)) \<Longrightarrow> \<not> (a + ?p \<le> unat x \<and> unat x < a + ?p + (n - ?p)) \<Longrightarrow> mem s' x = mem s1 x"
    "only_heap s1 s'"
    by (rule carve_space [of s1 h "n - ?p" w "a + ?p"]) (use okd(3,4) room below n end1 in \<open>auto simp: s1_def\<close>)
  have run: "alloc_carve sz (sz + SIZEOF_header + SIZEOF_footer) 1 i h s = Inr (of_nat (a + ?p) + SIZEOF_header, s')"
    unfolding alloc_carve_aligned_eq [OF look sp(7) w(1) front sp(3) w(2), folded s1_def] by (rule c(1))
  have fr: "mem s' x = mem s x" if "x \<notin> sa_region (h_index (heaps s h))" "\<not> (a \<le> unat x \<and> unat x < a + n)" for x
  proof -
    have "mem s' x = mem s1 x" using c(10) [of x] that n(3) by auto
    also have "\<dots> = mem s x"
      using pb(2) pb(3) [of "2 ^ 32"] that(2) n(1) unat_lt_power [of x] by (auto simp: s1_def agree_def not_le)
    finally show ?thesis .
  qed
  have "x \<notin> sa_region (h_index (heaps s h))" if "a \<le> unat x" for x :: u32
    by (rule region_below [OF okd(3) below that])
  then have "agree a (a + ?p) (mem s1) (mem s')" using c(10) by (auto simp: agree_def)
  then have "block_at (mem s') (hend h s) a ?p True"
    using block_at_agree [of a ?p "mem s1" "mem s'" "hend h s" True] n(4) pb(1) by (simp add: s1_def)
  then have til: "tiles (mem s') (hend h s) a ((?p, True) # cut_hole (n - ?p) w)" using c(2) by simp
  have "mset (sa_elems (h_index (heaps s' h)) (mem s')) = mset (map of_nat (holes (hstart h s) xs
      @ holes a ((?p, True) # cut_hole (n - ?p) w) @ holes (a + n) ys))"
    using c(3) els okd(6) by (simp add: holes_append a_def)
  then have okd': "heap_ok h (xs @ (?p, True) # cut_hole (n - ?p) w @ ys) s'"
    using heap_ok_replace [where os = "[(n, True)]" and zs = "(?p, True) # cut_hole (n - ?p) w" and xs = xs and ys = ys
        and s = s and s' = s' and h = h, folded a_def] ok c(4-9) til fr total_cut_hole [OF n(2)] n(1) by simp
  have "only_heap s s'" by (rule only_heap_trans [OF _ c(11)]) (simp add: s1_def only_heap_mem)
  from that [OF run okd' _ _ fr this] show thesis using c(4,5) by simp
qed

section \<open>The search for an aligned request\<close>

text \<open>The bytes that \<open>find_smallest_hole\<close> sets aside in front of the block, and its test in natural numbers.\<close>

definition front_need :: "nat \<Rightarrow> nat" where
  "front_need a = 4096 - (a + 12) mod 4096"

lemma front_need_pad: "a mod 4096 < 4084 \<Longrightarrow> front_need a = front_pad a"
  unfolding front_need_def front_pad_def by (simp add: mod_add_eq [of a 4096 12, symmetric])

lemma sint_of_int32: "- (2 ^ 31) \<le> k \<Longrightarrow> k < 2 ^ 31 \<Longrightarrow> sint (of_int k :: u32) = k"
  by (simp add: sint_sbintrunc' signed_take_bit_int_eq_self)

lemma hole_fits_aligned:
  assumes "4096 \<le> a" "a + 12 < 2 ^ 32" "hh_size m (of_nat a) = of_nat n" "n < 2 ^ 31" "w < 2 ^ 31"
  shows "hole_fits (of_nat w) 1 m (of_nat a) \<longleftrightarrow> front_need a + w \<le> n"
proof -
  have u: "unat (of_nat (a + 12) :: u32) = a + 12" using assms(2) by (intro unat_of_nat32) simp
  have e: "(of_nat a :: u32) + SIZEOF_header = of_nat (a + 12)" by (simp add: SIZEOF_header_def)
  have m: "(of_nat (a + 12) :: u32) mod 0x1000 = of_nat ((a + 12) mod 4096)"
  proof -
    have "unat ((of_nat (a + 12) :: u32) mod 0x1000) = (a + 12) mod 4096" by (simp only: unat_mod_distrib u) simp
    then show ?thesis by (metis of_nat_unat ucast_id)
  qed
  have nz: "((of_nat (a + 12) :: u32) AND 0xFFFFF000 \<noteq> 0) = True"
  proof -
    have n: "(0xFFFFF000 :: u32) = NOT (mask 12)" by (simp add: mask_eq_exp_minus_1)
    have "unat ((of_nat (a + 12) :: u32) AND 0xFFFFF000) = a + 12 - (a + 12) mod 4096"
      unfolding n using unat_and_not_mask [of "of_nat (a + 12) :: u32" 12] u by simp
    moreover have "(a + 12) mod 4096 < 4096" by simp
    ultimately have "unat ((of_nat (a + 12) :: u32) AND 0xFFFFF000) \<noteq> 0" using assms(1) by linarith
    then show ?thesis by auto
  qed
  have lt: "(a + 12) mod 4096 \<le> 4096" by (simp add: less_imp_le)
  have "align_offset (of_nat a) = 0x1000 - of_nat ((a + 12) mod 4096)"
    unfolding align_offset_def e nz m by simp
  also have "\<dots> = of_nat (front_need a)" unfolding front_need_def using of_nat_diff [OF lt, where 'a = u32] by simp
  finally have off: "align_offset (of_nat a) = of_int (int (front_need a))" by simp
  have d: "front_need a \<le> 4096" by (simp add: front_need_def)
  have "hh_size m (of_nat a) - align_offset (of_nat a) = of_int (int n - int (front_need a))" using off assms(3) by simp
  then have "sint (hh_size m (of_nat a) - align_offset (of_nat a)) = int n - int (front_need a)"
    using assms(4) d by (simp only:) (rule sint_of_int32, simp_all)
  moreover have "sint (of_int (int w) :: u32) = int w" by (rule sint_of_int32) (use assms(5) in simp_all)
  ultimately show ?thesis by (simp add: hole_fits_def) linarith
qed

text \<open>
  The holes with their sizes. \<open>room_aligned v x\<close> says that the hole \<open>x\<close> passes the test for an aligned
  payload of \<open>v\<close> bytes, \<open>splits_aligned v x\<close> that the hole leaves space for a header and a footer in front of
  the block and behind it, or nothing behind it.
\<close>

fun hole_list :: "nat \<Rightarrow> (nat \<times> bool) list \<Rightarrow> (nat \<times> nat) list" where
  "hole_list a [] = []"
| "hole_list a ((n, f) # bs) = (if f then (a, n) # hole_list (a + n) bs else hole_list (a + n) bs)"

fun room_aligned :: "nat \<Rightarrow> nat \<times> nat \<Rightarrow> bool" where
  "room_aligned v (a, n) \<longleftrightarrow> front_need a + (v + 20) \<le> n"

fun splits_aligned :: "nat \<Rightarrow> nat \<times> nat \<Rightarrow> bool" where
  "splits_aligned v (a, n) \<longleftrightarrow> 20 \<le> front_pad a \<and> (front_pad a + (v + 20) = n \<or> front_pad a + (v + 20) + 20 \<le> n)"

lemma hole_list_append: "hole_list a (xs @ ys) = hole_list a xs @ hole_list (a + total xs) ys"
  by (induction a xs rule: hole_list.induct) (auto simp: add.assoc)

lemma hole_list_split: "(b, n) \<in> set (hole_list a bs) \<Longrightarrow> \<exists>xs ys. bs = xs @ (n, True) # ys \<and> b = a + total xs"
proof (induction a bs rule: hole_list.induct)
  case (2 a k f bs)
  show ?case
  proof (cases "f \<and> b = a \<and> n = k")
    case True
    then show ?thesis by (intro exI [of _ "[]"] exI [of _ bs]) simp
  next
    case False
    then have "(b, n) \<in> set (hole_list (a + k) bs)" using 2(3) by (auto split: if_splits)
    then obtain xs ys where "bs = xs @ (n, True) # ys" "b = a + k + total xs"
      using 2(1,2) by (cases f) auto
    then show ?thesis by (intro exI [of _ "(k, f) # xs"] exI [of _ ys]) simp
  qed
qed simp

lemma alloc_aligned_hole:
  fixes s :: "'a kmem_scheme"
  assumes ok: "heap_ok h bs s" and low: "4096 \<le> hstart h s" and small: "total bs < 2 ^ 31"
    and room: "sa_size (h_index (heaps s h)) < sa_maxsize (h_index (heaps s h))"
    and fits: "x0 \<in> set (hole_list (hstart h s) bs)" "room_aligned (unat sz) x0"
    and clean: "\<forall>x \<in> set (hole_list (hstart h s) bs). room_aligned (unat sz) x \<longrightarrow> splits_aligned (unat sz) x"
  defines "w \<equiv> unat sz + 20"
  obtains xs n ys s' where "bs = xs @ (n, True) # ys" "splits_aligned (unat sz) (hstart h s + total xs, n)"
    "alloc (Suc k) sz 1 h s = Inr (of_nat (hstart h s + total xs + front_pad (hstart h s + total xs)) + SIZEOF_header, s')"
    "heap_ok h (xs @ (front_pad (hstart h s + total xs), True) # cut_hole (n - front_pad (hstart h s + total xs)) w @ ys) s'"
    "h_addr_start (heaps s' h) = h_addr_start (heaps s h)" "h_addr_end (heaps s' h) = h_addr_end (heaps s h)"
    "\<And>x. x \<notin> sa_region (h_index (heaps s h)) \<Longrightarrow>
        \<not> (hstart h s + total xs \<le> unat x \<and> unat x < hstart h s + total xs + n) \<Longrightarrow> mem s' x = mem s x"
    "only_heap s s'"
proof -
  let ?es = "sa_elems (h_index (heaps s h)) (mem s)"
  let ?w = "sz + SIZEOF_header + SIZEOF_footer"
  have bound: "20 \<le> n \<and> n \<le> total bs \<and> a + n < 2 ^ 32 \<and> hh_size (mem s) (of_nat a) = of_nat n \<and> 4096 \<le> a"
    if "bs = xs @ (n, True) # ys" "a = hstart h s + total xs" for xs n ys a
    using heap_ok_size [OF ok [unfolded that(1)]] that low by simp
  obtain a0 n0 where x0: "x0 = (a0, n0)" by (cases x0)
  obtain xs0 ys0 where b0: "bs = xs0 @ (n0, True) # ys0" "a0 = hstart h s + total xs0"
    using hole_list_split fits(1) unfolding x0 by blast
  have w31: "w < 2 ^ 31" using fits(2) bound [OF b0] small by (simp add: x0 w_def)
  have "unat ?w = w" unfolding w_def using w31 by (intro new_size_nat) (simp add: w_def)
  then have ww: "?w = of_nat w" by (metis of_nat_unat ucast_id)
  have fit: "hole_fits ?w 1 (mem s) (of_nat a) \<longleftrightarrow> room_aligned (unat sz) (a, n)"
    if "bs = xs @ (n, True) # ys" "a = hstart h s + total xs" for xs n ys a
    unfolding ww using bound [OF that] small w31
    by (subst hole_fits_aligned [where n = n]) (auto simp: w_def)
  have "of_nat a0 \<in> set ?es"
    unfolding index_set [OF ok] using b0 by (simp add: holes_append)
  then have "\<exists>j < length ?es. hole_fits ?w 1 (mem s) (?es ! j)"
    using fit [OF b0] fits(2) x0 by (metis in_set_conv_nth)
  then obtain j where j: "j < length ?es" "hole_fits ?w 1 (mem s) (?es ! j)"
    "find_smallest_hole ?w 1 (heaps s h) (mem s) = Inr (of_nat j)" "of_nat j \<noteq> (-1 :: u32)"
    using find_smallest_hole_spec [OF heap_okD(3) [OF ok], where sz = ?w and pa = 1 and m = "mem s"] by blast
  have "j < 4294967296" using j(1) unat_lt32 [of "sa_size (h_index (heaps s h))"] unfolding length_sa_elems by linarith
  then have j32: "unat (of_nat j :: u32) = j" by (rule unat_of_nat32)
  obtain xs n ys where b: "bs = xs @ (n, True) # ys" "?es ! j = of_nat (hstart h s + total xs)"
    using hole_in_index [OF ok nth_mem [OF j(1)]] by metis
  have "(hstart h s + total xs, n) \<in> set (hole_list (hstart h s) bs)" by (simp add: b(1) hole_list_append)
  then have sp: "splits_aligned (unat sz) (hstart h s + total xs, n)"
    using clean j(2) [unfolded b(2)] fit [OF b(1) refl] by blast
  have i: "of_nat j < sa_size (h_index (heaps s h))" using j(1) j32 by (simp add: word_less_nat_alt)
  have step: "alloc (Suc k) sz 1 h s = alloc_carve sz ?w 1 (of_nat j) h s" using j(3,4) by (simp add: Let_def)
  have el: "?es ! unat (of_nat j :: u32) = of_nat (hstart h s + total xs)" using b(2) j32 by simp
  have fr: "20 \<le> front_pad (hstart h s + total xs)" "front_pad (hstart h s + total xs) + w = n \<or> front_pad (hstart h s + total xs) + w + 20 \<le> n"
    using sp by (simp_all add: w_def)
  have low': "4096 \<le> hstart h s + total xs" using low by simp
  show thesis
    by (rule alloc_carve_aligned [OF ok [unfolded b(1)] i el fr(1) low' w_def [THEN meta_eq_to_obj_eq] fr(2) room])
      (rule that [OF b(1) sp], simp only: step, assumption+)
qed

section \<open>A hole whose payload is already page-aligned\<close>

text \<open>
  With \<open>front_pad a = 0\<close> the code writes a hole of no bytes over the header at \<open>a\<close> and its footer in front of the hole,
  and takes the block from \<open>a\<close> itself.
\<close>

lemma carve_front_boundary:
  assumes "a mod 4096 = 4084" "4096 \<le> a" "a + 12 < 2 ^ 32"
  obtains m where "carve_front 1 i (of_nat a) k h s = Inr (of_nat a, k, s\<lparr>mem := m\<rparr>)" "agree 0 (a - 8) (mem s) m"
proof -
  have a: "a mod 4096 \<le> 4084" "a < 2 ^ 32" using assms(1,3) by simp_all
  have p: "front_pad a = 0" by (simp add: front_pad_def assms(1))
  note w = front_pad_words [OF a, unfolded p add_0_right] and nz = front_pad_words(4) [OF a assms(2)]
  have foot: "of_nat a - SIZEOF_footer = (of_nat (a - 8) :: u32)" using assms(2) by (simp add: SIZEOF_footer_def of_nat_diff)
  define m1 where "m1 = put_header (of_nat a) 1 (of_nat 0) (mem s)"
  define m where "m = put_footer (of_nat (a - 8)) (of_nat a) m1"
  have "agree a (a + 12) m1 m"
    unfolding m_def by (rule agree_put_footer [OF agree_refl]) (use assms in auto)
  then have sz: "hh_size m (of_nat a) = 0" using header_agree(3) [of a "a + 12" m1 m a] assms(3) by (simp add: m1_def)
  have c: "((1 :: u32) \<noteq> 0 \<and> (of_nat a :: u32) AND 0xFFFFF000 \<noteq> 0) = True" using nz by simp
  have run: "carve_front 1 i (of_nat a) k h s = Inr (of_nat a, k, s\<lparr>mem := m\<rparr>)"
    unfolding carve_front_def c if_True Let_def w(3) w(2) foot m1_def [symmetric] m_def [symmetric] sz by simp
  have "agree 0 (a - 8) (mem s) m"
    unfolding m_def m1_def by (intro agree_put_footer agree_put_header agree_refl) (use assms in auto)
  then show thesis using that run by blast
qed

lemma alloc_carve_boundary:
  fixes s :: "'a kmem_scheme"
  assumes ok: "heap_ok h (xs @ (n, True) # ys) s"
  defines "a \<equiv> hstart h s + total xs"
  assumes i: "i < sa_size (h_index (heaps s h))" "sa_elems (h_index (heaps s h)) (mem s) ! unat i = of_nat a"
    and at: "a mod 4096 = 4084" "4096 \<le> a" "unat (sa_array (h_index (heaps s h))) + 4 * unat (sa_maxsize (h_index (heaps s h))) + 8 \<le> a"
    and w: "w = unat sz + 20" "w + 20 \<le> n"
    and room: "sa_size (h_index (heaps s h)) < sa_maxsize (h_index (heaps s h))"
  obtains s' where
    "alloc_carve sz (sz + SIZEOF_header + SIZEOF_footer) 1 i h s = Inr (of_nat a + SIZEOF_header, s')"
    "block_at (mem s') (hend h s) a w False" "block_at (mem s') (hend h s) (a + w) (n - w) True"
    "mset (sa_elems (h_index (heaps s' h)) (mem s')) = mset (sa_elems (h_index (heaps s h)) (mem s)) + {# of_nat (a + w) #}"
    "h_addr_end (heaps s' h) = h_addr_end (heaps s h)" "sa_wf (h_index (heaps s' h))" "sa_array (h_index (heaps s' h)) = sa_array (h_index (heaps s h))"
    "sa_maxsize (h_index (heaps s' h)) = sa_maxsize (h_index (heaps s h))" "sa_cmp (h_index (heaps s' h)) = sa_cmp (h_index (heaps s h))"
proof -
  note okd = heap_okD [OF ok]
  note sp = heap_ok_split [OF ok, folded a_def]
  have n: "w \<le> n" "n < 2 ^ 32" "20 \<le> n - w" "20 \<le> w" "a + 12 < 2 ^ 32" using w sp(3) by linarith+
  have look: "lookup_sorted_array (h_index (heaps s h)) i (mem s) = Inr (of_nat a)"
    using i by (simp add: lookup_sorted_array_eq word_less_nat_alt)
  obtain m where fr: "carve_front 1 i (of_nat a) (of_nat n) h s = Inr (of_nat a, of_nat n, s\<lparr>mem := m\<rparr>)" "agree 0 (a - 8) (mem s) m"
    using carve_front_boundary [OF at(1,2) n(5)] .
  let ?s1 = "s\<lparr>mem := m\<rparr>"
  have below: "unat (sa_array (h_index (heaps s h))) + 4 * unat (sa_maxsize (h_index (heaps s h))) \<le> a - 8" using at(3) by linarith
  have els: "sa_elems (h_index (heaps s h)) m = sa_elems (h_index (heaps s h)) (mem s)" by (rule index_agree [OF okd(3) below fr(2)])
  have sz: "sz = of_nat (w - 20)" using w by simp
  have "w - 20 + 12 + 8 = w" using n(4) by simp
  then have new: "sz + SIZEOF_header + SIZEOF_footer = of_nat w"
    unfolding sz SIZEOF_header_def SIZEOF_footer_def by (metis of_nat_add of_nat_numeral)
  have "unat (SIZEOF_header + SIZEOF_footer) = 20" by (simp add: sizeof_defs)
  then have big: "(of_nat n - of_nat w < SIZEOF_header + SIZEOF_footer) = False"
    using n(3) by (simp only: word_less_nat_alt unat_diff_of_nat [OF n(1,2)]) simp
  have run: "alloc_carve sz (sz + SIZEOF_header + SIZEOF_footer) 1 i h s
      = carve_block (of_nat (w - 20)) (of_nat w) (of_nat a) (of_nat n) h ?s1"
    unfolding alloc_carve_def look ebind_Inr Let_def sp(7) new big if_False fr(1) split unfolding sz ..
  have c: "(n - w < 20) = False" "cut_hole n w = [(w, False), (n - w, True)]" using n(3) by (simp_all add: cut_hole_def)
  have le: "unat (sa_array (h_index (heaps ?s1 h))) + 4 * unat (sa_maxsize (h_index (heaps ?s1 h))) \<le> a" "a + n \<le> hend h ?s1"
    using at(3) sp(2) by simp_all
  show thesis
    by (rule carve_space [of ?s1 h n w a]) (use okd(3,4) room le n that [unfolded run] els c in \<open>simp_all\<close>)
qed

lemma alloc_boundary_twice:
  fixes s :: "'a kmem_scheme"
  assumes ok: "heap_ok h (xs @ (n, True) # ys) s" and only: "holes (hstart h s) xs = []" "holes (hstart h s + total xs + n) ys = []"
  defines "a \<equiv> hstart h s + total xs"
  assumes at: "a mod 4096 = 4084" "4096 \<le> a" "unat (sa_array (h_index (heaps s h))) + 4 * unat (sa_maxsize (h_index (heaps s h))) + 8 \<le> a"
    and room: "1 < sa_maxsize (h_index (heaps s h))"
    and size: "unat sz + 20 + 4096 \<le> n" "n < 2 ^ 31" "sz' \<le> sz" "n < unat sz + 20 + (unat sz' + 20)"
  obtains s' s'' where "alloc (Suc k) sz 1 h s = Inr (of_nat a + SIZEOF_header, s')"
    "alloc (Suc k) sz' 0 h s' = Inr (of_nat a + SIZEOF_header, s'')"
proof -
  note okd = heap_okD [OF ok]
  note sp = heap_ok_split [OF ok, folded a_def]
  define w where "w = unat sz + 20"
  define w' where "w' = unat sz' + 20"
  let ?w = "sz + SIZEOF_header + SIZEOF_footer" and ?w' = "sz' + SIZEOF_header + SIZEOF_footer"
  have sizes: "w + 4096 \<le> n" "w' \<le> w" "n < w + w'" using size by (simp_all add: w_def w'_def word_le_nat_alt)
  have uw: "unat ?w = w" unfolding w_def using size(1,2) by (intro new_size_nat) simp
  then have ww: "?w = of_nat w" by (metis of_nat_unat ucast_id)
  have uw': "unat ?w' = w'" unfolding w'_def using sizes size by (intro new_size_nat) (simp add: w_def w'_def)
  have "mset (sa_elems (h_index (heaps s h)) (mem s)) = {# of_nat a #}"
    using okd(6) only by (simp add: holes_append a_def)
  then have els: "sa_elems (h_index (heaps s h)) (mem s) = [of_nat a]" by (metis mset_single_iff)
  then have "length (sa_elems (h_index (heaps s h)) (mem s)) = 1" by simp
  then have one: "sa_size (h_index (heaps s h)) = 1" by (simp add: word_unat_eq_iff)
  have "front_need a = 4096" unfolding front_need_def using at(1) by (simp add: mod_add_eq [of a 4096 12, symmetric])
  then have fit: "hole_fits ?w 1 (mem s) (of_nat a)"
    unfolding ww by (subst hole_fits_aligned [where n = n]) (use at(2) sp(3,7) sizes size in auto)
  have "find_smallest_hole ?w 1 (heaps s h) (mem s) = Inr 0"
    using find_smallest_hole_spec [OF okd(3), where sz = ?w and pa = 1 and m = "mem s"] fit els by fastforce
  then have step: "alloc (Suc k) sz 1 h s = alloc_carve sz ?w 1 0 h s" by (simp add: Let_def)
  have i: "0 < sa_size (h_index (heaps s h))" "sa_elems (h_index (heaps s h)) (mem s) ! unat (0 :: u32) = of_nat a"
    "sa_size (h_index (heaps s h)) < sa_maxsize (h_index (heaps s h))" "w + 20 \<le> n" using one els room sizes by simp_all
  obtain s' where c: "alloc_carve sz ?w 1 0 h s = Inr (of_nat a + SIZEOF_header, s')"
    "block_at (mem s') (hend h s) a w False" "block_at (mem s') (hend h s) (a + w) (n - w) True"
    "mset (sa_elems (h_index (heaps s' h)) (mem s')) = {# of_nat a, of_nat (a + w) #}"
    "h_addr_end (heaps s' h) = h_addr_end (heaps s h)" "sa_wf (h_index (heaps s' h))" "sa_array (h_index (heaps s' h)) = sa_array (h_index (heaps s h))"
    "sa_maxsize (h_index (heaps s' h)) = sa_maxsize (h_index (heaps s h))" "sa_cmp (h_index (heaps s' h)) = sa_cmp (h_index (heaps s h))"
    by (rule alloc_carve_boundary [OF ok, folded a_def, OF i(1,2) at w_def i(4,3)]) (use els that in simp)
  let ?es = "sa_elems (h_index (heaps s' h)) (mem s')"
  have sz: "hh_size (mem s') (of_nat a) = of_nat w" "hh_size (mem s') (of_nat (a + w)) = of_nat (n - w)"
    using c(2,3) by (simp_all add: block_at_def)
  have fits: "hole_fits ?w' 0 (mem s') (of_nat a)" "\<not> hole_fits ?w' 0 (mem s') (of_nat (a + w))"
    unfolding hole_fits_def sz using sizes sp(3) uw' by (simp_all add: word_le_nat_alt unat_of_nat32 del: of_nat_diff)
  have "set ?es = {of_nat a, of_nat (a + w)}" using c(4) by (metis set_mset_mset set_mset_add_mset_insert set_mset_single)
  then obtain j where j: "j < length ?es" "?es ! j = of_nat a" "find_smallest_hole ?w' 0 (heaps s' h) (mem s') = Inr (of_nat j)"
      "of_nat j \<noteq> (-1 :: u32)"
    using find_smallest_hole_spec [OF c(6), where sz = ?w' and pa = 0 and m = "mem s'"] fits
    by (metis in_set_conv_nth insertE insertI1 nth_mem singletonD)
  have "j < 4294967296" using j(1) unat_lt32 [of "sa_size (h_index (heaps s' h))"] unfolding length_sa_elems by linarith
  then have j32: "unat (of_nat j :: u32) = j" by (rule unat_of_nat32)
  have i2: "of_nat j < sa_size (h_index (heaps s' h))" using j(1) j32 by (simp add: word_less_nat_alt)
  obtain s1 where s1: "index_remove h (of_nat j) s' = Inr s1" "index_step h s' s1" "sa_size (h_index (heaps s1 h)) < sa_maxsize (h_index (heaps s1 h))"
    using index_remove_ok [of s' h "of_nat j"] c(6,9) okd(4) i2 by metis
  have le: "unat (sa_array (h_index (heaps s' h))) + 4 * unat (sa_maxsize (h_index (heaps s' h))) \<le> a"
    using at(3) c(7,8) by simp
  note st1 = index_stepD [OF s1(2) c(6) le]
  have look: "lookup_sorted_array (h_index (heaps s' h)) (of_nat j) (mem s') = Inr (of_nat a)"
    using j j32 by (simp add: lookup_sorted_array_eq)
  have w32: "w < 2 ^ 32" using sizes sp(3) by linarith
  have step': "alloc (Suc k) sz' 0 h s' = alloc_carve sz' ?w' 0 (of_nat j) h s'" using j(3,4) by (simp add: Let_def)
  note eq = alloc_carve_eq [OF look sz(1) w'_def sizes(2) w32 s1(1)]
  have e1: "a + w \<le> hend h s1" "20 \<le> w'" using sp(2) st1(5) c(5) sizes by (simp_all add: w'_def)
  have x1: "sa_cmp (h_index (heaps s1 h)) = Some vm_heap_header_cmp"
    "unat (sa_array (h_index (heaps s1 h))) + 4 * unat (sa_maxsize (h_index (heaps s1 h))) \<le> a"
    using st1(6-8) le c(9) okd(4) by simp_all
  obtain s'' where "alloc_carve sz' ?w' 0 (of_nat j) h s' = Inr (of_nat a + SIZEOF_header, s'')"
    unfolding eq by (rule carve_space [OF st1(3) x1(1) disjI2 [OF s1(3)] x1(2) e1(2) sizes(2) e1(1)]) blast
  then show thesis using that step step' c(1) by metis
qed

section \<open>Properties\<close>

text \<open>A heap that is one hole of \<open>n\<close> bytes at \<open>a\<close>; its index lies a page before it.\<close>

definition one_hole :: "nat \<Rightarrow> nat \<Rightarrow> kmem" where
  "one_hole a n = boot_kmem\<lparr>mem := write32 (of_nat (a - 4096)) (of_nat a) (put_block a n True (\<lambda>_. 0)), kernel_heap := 0x500,
     heaps := (\<lambda>_. \<lparr>h_index = \<lparr>sa_array = of_nat (a - 4096), sa_size = 1, sa_maxsize = 4, sa_cmp = Some vm_heap_header_cmp\<rparr>,
       h_addr_start = of_nat a, h_addr_end = of_nat (a + n), h_addr_max = 0xFFFFF000, h_su = 0, h_ro = 0\<rparr>)\<rparr>"

lemma one_hole_ok:
  assumes "8192 \<le> a" "20 \<le> n" "a + n < 2 ^ 32"
  shows "heap_ok h [(n, True)] (one_hole a n)" "hstart h (one_hole a n) = a"
    "h_index (heaps (one_hole a n) h) = \<lparr>sa_array = of_nat (a - 4096), sa_size = 1, sa_maxsize = 4, sa_cmp = Some vm_heap_header_cmp\<rparr>"
proof -
  have u: "unat (of_nat a :: u32) = a" "unat (of_nat (a + n) :: u32) = a + n"
    by (rule unat_of_nat32; use assms in simp)+
  have lt: "a \<le> 4294967296" using assms(3) by simp
  have u3: "unat (of_nat (a - 4096) :: u32) = a - 4096" by (rule unat_of_nat32) (use assms in simp)
  show st: "hstart h (one_hole a n) = a" using u(1) by (simp add: one_hole_def)
  have en: "hend h (one_hole a n) = a + n" using u(2) by (simp add: one_hole_def)
  show ix: "h_index (heaps (one_hole a n) h) = \<lparr>sa_array = of_nat (a - 4096), sa_size = 1, sa_maxsize = 4, sa_cmp = Some vm_heap_header_cmp\<rparr>"
    by (simp add: one_hole_def)
  have "agree a (a + n) (put_block a n True (\<lambda>_. 0)) (write32 (of_nat (a - 4096)) (of_nat a) (put_block a n True (\<lambda>_. 0)))"
    by (rule agree_write32 [OF agree_refl]) (use assms(1) lt in auto)
  then have "block_at (mem (one_hole a n)) (a + n) a n True"
    using block_at_agree [of a n] put_block_ok(1) [OF assms(2), of a] assms(3) by (simp add: one_hole_def)
  moreover have "sa_elems (h_index (heaps (one_hole a n) h)) (mem (one_hole a n)) = [of_nat a]"
    by (simp add: one_hole_def sa_elems_def sa_get_def)
  ultimately show "heap_ok h [(n, True)] (one_hole a n)"
    unfolding heap_ok_def Let_def st en ix using u3 assms(1) lt by (simp add: sa_wf_def)
qed

text \<open>
  C10: In a heap at or above 4096, of less than 2 GB and with room in its index, a page-aligned \<open>alloc\<close> returns a payload at a
  page boundary of exactly the requested
  size without growing the heap, if some hole is large enough for it and every such hole leaves room for a header and
  a footer in front of the block, and behind it if anything is left there. (\<open>alloc_boundary_given_twice\<close> is a case without that
  room.) The heap keeps its layout invariant, the
  blocks in use are the old ones and the returned one, and no byte of the payload of an old block changes.
\<close>
theorem alloc_page_aligned:
  assumes "heap_ok h bs s" "4096 \<le> hstart h s" "total bs < 2 ^ 31"
    and "sa_size (h_index (heaps s h)) < sa_maxsize (h_index (heaps s h))"
    and "x0 \<in> set (hole_list (hstart h s) bs)" "room_aligned (unat sz) x0"
    and "\<forall>x \<in> set (hole_list (hstart h s) bs). room_aligned (unat sz) x \<longrightarrow> splits_aligned (unat sz) x"
  shows "\<exists>p bs' s'. alloc (Suc k) sz 1 h s = Inr (of_nat p, s') \<and> p mod 4096 = 0 \<and> p < 2 ^ 32 \<and> heap_ok h bs' s'
    \<and> h_addr_start (heaps s' h) = h_addr_start (heaps s h) \<and> h_addr_end (heaps s' h) = h_addr_end (heaps s h)
    \<and> mset (payloads (hstart h s) bs') = add_mset (p, unat sz) (mset (payloads (hstart h s) bs))
    \<and> (\<forall>x q l. (q, l) \<in> set (payloads (hstart h s) bs) \<and> q \<le> unat x \<and> unat x < q + l \<longrightarrow> mem s' x = mem s x)"
proof (rule alloc_aligned_hole [OF assms, of k])
  fix xs n ys s'
  let ?a = "hstart h s + total xs" and ?w = "unat sz + 20"
  assume r: "bs = xs @ (n, True) # ys" "splits_aligned (unat sz) (?a, n)"
    "alloc (Suc k) sz 1 h s = Inr (of_nat (?a + front_pad ?a) + SIZEOF_header, s')"
    "heap_ok h (xs @ (front_pad ?a, True) # cut_hole (n - front_pad ?a) ?w @ ys) s'"
    "h_addr_start (heaps s' h) = h_addr_start (heaps s h)" "h_addr_end (heaps s' h) = h_addr_end (heaps s h)"
    and fr: "\<And>x. x \<notin> sa_region (h_index (heaps s h)) \<Longrightarrow> \<not> (?a \<le> unat x \<and> unat x < ?a + n) \<Longrightarrow> mem s' x = mem s x"
  have sp: "20 \<le> front_pad ?a" "front_pad ?a + ?w = n \<or> front_pad ?a + ?w + 20 \<le> n" using r(2) by simp_all
  have "?a mod 4096 \<le> 4084" using sp(1) by (simp add: front_pad_def)
  then have al: "(?a + front_pad ?a + 12) mod 4096 = 0" by (rule front_pad_aligned)
  have "?a + n < 2 ^ 32" using heap_ok_size(2) [OF assms(1) [unfolded r(1)]] .
  then have lt: "?a + front_pad ?a + 12 < 2 ^ 32" using sp(2) by linarith
  have "mset (payloads (hstart h s) (xs @ (front_pad ?a, True) # cut_hole (n - front_pad ?a) ?w @ ys))
      = add_mset (?a + front_pad ?a + 12, unat sz) (mset (payloads (hstart h s) bs))"
    unfolding r(1) using sp(2) by (auto simp: payloads_append cut_hole_def add.assoc)
  moreover have "mem s' x = mem s x" if "(q, l) \<in> set (payloads (hstart h s) bs)" "q \<le> unat x" "unat x < q + l" for x q l
    using payload_not_in_hole [OF assms(1) [unfolded r(1)], of q l x] that r(1) by (intro fr) auto
  ultimately show ?thesis
    using al lt r(3-6) by (intro exI [of _ "?a + front_pad ?a + 12"] exI [of _ "xs @ (front_pad ?a, True) # cut_hole (n - front_pad ?a) ?w @ ys"]
      exI [of _ s']) (auto simp: SIZEOF_header_def)
qed

theorem alloc_page_aligned_witness:
  "\<exists>p s'. alloc 1 4096 1 0x500 (one_hole 8192 32768) = Inr (of_nat p, s') \<and> p mod 4096 = 0
    \<and> mset (payloads 8192 (blocks_of 0x500 s')) = {# (p, 4096) #}"
proof -
  note one = one_hole_ok [of 8192 32768 "0x500"]
  obtain p bs' s' where r: "alloc (Suc 0) 4096 1 0x500 (one_hole 8192 32768) = Inr (of_nat p, s')" "p mod 4096 = 0"
    "heap_ok 0x500 bs' s'" "mset (payloads (hstart 0x500 (one_hole 8192 32768)) bs')
      = add_mset (p, unat (4096 :: u32)) (mset (payloads (hstart 0x500 (one_hole 8192 32768)) [(32768, True)]))"
    using alloc_page_aligned [of "0x500" "[(32768, True)]" "one_hole 8192 32768" "(8192, 32768)" 4096 0] one
    by (simp add: front_need_def front_pad_def del: alloc.simps) metis
  then show ?thesis using one(2) heap_ok_blocks [OF r(3)] by (intro exI [of _ p] exI [of _ s']) simp
qed

text \<open>
  C37: The code at the page boundary does not keep the blocks apart. In a heap with a single hole whose
  payload starts at a page boundary, a page-aligned \<open>alloc\<close> takes the block from the start of the hole and leaves the
  address of the block in the index. The next unaligned \<open>alloc\<close>, of a size that fits the block and not the hole that
  remains, returns the same address.
\<close>
theorem alloc_boundary_given_twice:
  assumes "heap_ok h (xs @ (n, True) # ys) s" "holes (hstart h s) xs = []" "holes (hstart h s + total xs + n) ys = []"
    and "(hstart h s + total xs) mod 4096 = 4084" "4096 \<le> hstart h s + total xs"
    and "unat (sa_array (h_index (heaps s h))) + 4 * unat (sa_maxsize (h_index (heaps s h))) + 8 \<le> hstart h s + total xs"
    and "1 < sa_maxsize (h_index (heaps s h))"
    and "unat sz + 20 + 4096 \<le> n" "n < 2 ^ 31" "sz' \<le> sz" "n < unat sz + 20 + (unat sz' + 20)"
  shows "\<exists>p s' s''. alloc (Suc k) sz 1 h s = Inr (p, s') \<and> alloc (Suc k) sz' 0 h s' = Inr (p, s'')"
  using alloc_boundary_twice [OF assms, of k] by metis

theorem alloc_boundary_given_twice_witness:
  "\<exists>p s' s''. alloc 1 8172 1 0x500 (one_hole 12276 12288) = Inr (p, s') \<and> alloc 1 5000 0 0x500 s' = Inr (p, s'')"
  using alloc_boundary_given_twice [of "0x500" "[]" 12288 "[]" "one_hole 12276 12288" 8172 5000 0]
    one_hole_ok [of 12276 12288 "0x500"] by simp

end
