(* ===== verification/Boot_Alloc.thy ===== *)
theory Boot_Alloc
  imports Boot_Paging Heap_Align Heap_Client
begin

text \<open>
  The kernel heap as the allocator of page tables (\<open>table_allocator\<close>): a page-aligned cleared block when a hole fits. And
  the first page-aligned request to the kernel heap that \<open>init_paging\<close> makes, as \<open>get_page\<close> issues it for a page table:
  \<open>alloc\<close> splits the hole at a page boundary, \<open>_kmalloc\<close> reads the physical address out of the page tables, and
  the memory is cleared. The physical address is the one the processor translates to.
\<close>

lemma heap_page_split:
  fixes va :: u32
  assumes "0xC0000000 \<le> va" "va < 0xC0400000"
  shows "va div 0x1000 div 1024 = 0x300" "va AND 0xFFF = va mod 0x1000"
proof -
  have "3221225472 \<le> unat va" "unat va < 3225419776" using assms by (simp_all add: word_le_nat_alt word_less_nat_alt)
  then have "unat va div 4194304 = 0x300" by (intro div_nat_eqI) simp_all
  then show "va div 0x1000 div 1024 = 0x300" by (simp only: word_unat_eq_iff page_split(1)) simp
  have m: "(0xFFF :: u32) = mask 12" by (simp add: mask_eq_exp_minus_1)
  show "va AND 0xFFF = va mod 0x1000"
    unfolding m word_unat_eq_iff page_split(3) using unat_and_mask [of va 12] by simp
qed

text \<open>What \<open>get_page\<close> and the processor read for an address of the kernel heap, in every state with the tables of \<open>init_paging\<close>.\<close>

lemma heap_page_phys:
  fixes s :: "'a kmem_scheme" and va :: u32
  assumes rdy: "boot_ready s" and d: "d = boot_dir (placement_address s)"
    and inv: "boot_inv (d + 0x5000) (d + 0x3000) (boot_pages s) (boot_pages s) 256 (boot_base s) t"
    and s': "cr0 s' = cr0 s OR 0x80000000" "cr3 s' = pd_tblphys d 0" "\<And>x. unat x < 0xC0000000 \<Longrightarrow> mem s' x = mem t x"
    and va: "0xC0000000 \<le> va" "va < 0xC0100000"
  obtains q where "get_page kz va False d s' = Inr (q, s')"
    "mmu_walk s' va = Some (ucast (p_frame (page_at s' q)) * 0x1000 + (va AND 0xFFF))"
    "mmu_walk s' va = Some (va - 0xC0000000 + (d + 0x6000))"
proof -
  note r = boot_readyD [OF rdy d] and v = page_split [of va]
  have lt: "va < 0xC0400000" using va(2) by (simp add: word_less_nat_alt)
  note h = heap_page_split [OF va(1) lt]
  note dir = init_paging_dir [OF rdy d inv s'(3), simplified, OF v(4), unfolded h(1)]
  let ?q = "pt_pages (d + 0x3000) (va div 0x1000 mod 1024)"
  have "unat (d + 0x3000) \<noteq> 0" using r(9) [of "0x3000"] by simp
  then have nz: "d + 0x3000 \<noteq> 0" by auto
  have get: "get_page kz va False d s' = Inr (?q, s')" using dir(3) nz by (simp add: get_page_def Let_def h(1))
  have on: "bit (cr0 s') 31" unfolding s'(1) by (simp add: bit_simps)
  have "unat (d + 0x6000) = unat d + 0x6000" using r(9) [of "0x6000"] by simp
  then have "\<not> va < d + 0x6000" using va(1) r(6) by (simp add: word_less_nat_alt word_le_nat_alt)
  then have walk: "mmu_walk s' va = Some (va - 0xC0000000 + (d + 0x6000))"
    using init_paging_walk [OF rdy d inv s', of va] va by simp
  have "mmu_walk s' va = (if p_present (page_at s' ?q) = 0 then None else Some (ucast (p_frame (page_at s' ?q)) * 0x1000 + va mod 0x1000))"
    using on dir(1,2) aligned_and(2,3) [OF dir(6)] by (simp add: mmu_walk_def Let_def h(1) s'(2) pt_pages_def)
  then have "mmu_walk s' va = Some (ucast (p_frame (page_at s' ?q)) * 0x1000 + (va AND 0xFFF))"
    using walk by (simp add: h(2) split: if_splits)
  then show thesis using that get walk by blast
qed

lemma aligned_single_hole:
  fixes s :: "'a kmem_scheme"
  assumes ok: "heap_ok h [(n, True)] s" and a: "hstart h s = 0xC0081000" and n: "unat sz + 4124 \<le> n" "n < 2 ^ 31"
    and room: "1 < sa_maxsize (h_index (heaps s h))"
  obtains s' where "alloc (Suc k) sz 1 h s = Inr (0xC0082000, s')"
    "heap_ok h ((4084, True) # cut_hole (n - 4084) (unat sz + 20)) s'" "h_addr_start (heaps s' h) = h_addr_start (heaps s h)"
    "\<And>x. x \<notin> sa_region (h_index (heaps s h)) \<Longrightarrow> unat x < 0xC0081000 \<Longrightarrow> mem s' x = mem s x" "only_heap s s'"
proof -
  have "mset (sa_elems (h_index (heaps s h)) (mem s)) = {# of_nat 0xC0081000 #}" using heap_okD(6) [OF ok] a by simp
  then have "length (sa_elems (h_index (heaps s h)) (mem s)) = 1" by (metis size_mset size_single)
  then have one: "sa_size (h_index (heaps s h)) = 1" by (simp add: word_unat_eq_iff)
  have p: "front_pad 0xC0081000 = 4084" "front_need 0xC0081000 = 4084" by (simp_all add: front_pad_def front_need_def)
  show thesis
  proof (rule alloc_aligned_hole [OF ok, of "(0xC0081000, n)" sz k])
    fix xs n' ys s'
    assume r: "[(n, True)] = xs @ (n', True) # ys"
      "alloc (Suc k) sz 1 h s = Inr (of_nat (hstart h s + total xs + front_pad (hstart h s + total xs)) + SIZEOF_header, s')"
      "heap_ok h (xs @ (front_pad (hstart h s + total xs), True) # cut_hole (n' - front_pad (hstart h s + total xs)) (unat sz + 20) @ ys) s'"
      "h_addr_start (heaps s' h) = h_addr_start (heaps s h)" "only_heap s s'"
      and fr: "\<And>x. x \<notin> sa_region (h_index (heaps s h)) \<Longrightarrow>
        \<not> (hstart h s + total xs \<le> unat x \<and> unat x < hstart h s + total xs + n') \<Longrightarrow> mem s' x = mem s x"
    have e: "xs = []" "n' = n" "ys = []" using r(1) by (simp_all add: Cons_eq_append_conv)
    show thesis
      by (rule that) (use r fr in \<open>simp_all add: e a p SIZEOF_header_def del: alloc.simps\<close>)
  qed (use n a one room p in simp_all)
qed

lemma kmalloc0_ap_heap:
  assumes "kernel_heap s \<noteq> 0" "alloc k len 1 (kernel_heap s) s = Inr (p, s')"
    and "get_page no_table_alloc p False (kernel_directory s') s' = Inr (q, s')"
  shows "kmalloc0_ap k len s = Inr (p, ucast (p_frame (page_at s' q)) * 0x1000 + (p AND 0xFFF), s'\<lparr>mem := bzero p len (mem s')\<rparr>)"
proof -
  have f: "(M_ALIGNED OR M_ZERO) AND M_ALIGNED = 1" "(M_ALIGNED OR M_ZERO) AND M_ZERO \<noteq> 0"
    by (simp_all add: M_ALIGNED_def M_ZERO_def)
  show ?thesis using assms f by (simp add: kmalloc0_ap_def kmalloc_internal_def)
qed

lemma only_heap_walk: "only_heap s s' \<Longrightarrow> cr0 s' = cr0 s \<and> cr3 s' = cr3 s \<and> kernel_directory s' = kernel_directory s \<and> kernel_heap s' = kernel_heap s"
  unfolding only_heap_def by (cases s; cases s') simp

section \<open>Page tables from the heap\<close>

text \<open>
  The heap is ready to give a page table away from the memory below \<open>b\<close> when it lies at or above \<open>b\<close>, with its index,
  and some hole is large enough and every such hole can be split.
\<close>

definition heap_table_ready :: "nat \<Rightarrow> 'a kmem_scheme \<Rightarrow> bool" where
  "heap_table_ready b s \<longleftrightarrow>
     (let h = kernel_heap s; ix = h_index (heaps s h); bs = blocks_of h s; hs = hole_list (hstart h s) bs
      in h \<noteq> 0 \<and> heap_ok h bs s \<and> b \<le> unat (sa_array ix) \<and> 4096 \<le> hstart h s \<and> total bs < 2 ^ 31
       \<and> sa_size ix < sa_maxsize ix \<and> (\<exists>x \<in> set hs. room_aligned 4096 x)
       \<and> (\<forall>x \<in> set hs. room_aligned 4096 x \<longrightarrow> splits_aligned 4096 x))"

lemma get_page_plain: "\<exists>q. get_page kz a False dir s = Inr (q, s)"
  by (simp add: get_page_def Let_def)

lemma get_page_kernel:
  "get_page kz va False (kernel_directory s) s
    = Inr (if kernel_table s va = 0 then 0 else pt_pages (kernel_table s va) (va div 0x1000 mod 1024), s)"
  by (simp add: get_page_def kernel_table_def Let_def)

text \<open>The physical address of a table from the heap, when the kernel's directory and the table for its address lie below \<open>b\<close>.\<close>

definition heap_placed :: "nat \<Rightarrow> 'a paging_scheme \<Rightarrow> u32 \<Rightarrow> u32 \<Rightarrow> bool" where
  "heap_placed b s addr phys \<longleftrightarrow>
     (unat (kernel_directory s) + 4096 \<le> b \<and> unat (kernel_table s addr) + 4096 \<le> b \<longrightarrow> phys = kernel_phys s addr)"

lemma kernel_phys_below:
  assumes "kernel_directory s' = kernel_directory s" "\<And>x. unat x < b \<Longrightarrow> mem s' x = mem s x" "b \<le> 2 ^ 32"
    and "unat (kernel_directory s) + 4096 \<le> b" "unat (kernel_table s va) + 4096 \<le> b"
  shows "kernel_table s' va = kernel_table s va" "kernel_phys s' va = kernel_phys s va"
proof -
  let ?i = "va div 0x1000 div 1024 :: u32" and ?j = "va div 0x1000 mod 1024 :: u32"
  have word: "read32 (mem s') p = read32 (mem s) p" if "unat p + 4 \<le> b" for p
  proof (rule read32_cong, rule assms(2))
    fix x assume "x \<in> addr_range p 4"
    then show "unat x < b" using that assms(3) addr_range_nowrap [of p 4 x] by simp
  qed
  have n: "unat ?i < 1024" "unat ?j < 1024" using page_split [of va] by simp_all
  then have ij: "?i < 1024" "?j < 1024" by (simp_all only: word_less_nat_alt) simp_all
  have d: "unat (kernel_directory s) + 4 * unat (1024 :: u32) \<le> 2 ^ 32" using assms(3,4) by simp
  have "unat (pd_tables (kernel_directory s) ?i) + 4 \<le> b"
    unfolding pd_tables_def using slot32_unat [OF d ij(1)] n(1) assms(4) by simp
  then show t: "kernel_table s' va = kernel_table s va" by (simp add: kernel_table_def assms(1) word)
  have d: "unat (kernel_table s va) + 4 * unat (1024 :: u32) \<le> 2 ^ 32" using assms(3,5) by simp
  have "unat (if kernel_table s va = 0 then 0 else pt_pages (kernel_table s va) ?j) + 4 \<le> b"
    unfolding pt_pages_def using slot32_unat [OF d ij(2)] n(2) assms(5) by simp
  then show "kernel_phys s' va = kernel_phys s va" by (simp only: kernel_phys_def Let_def page_at_def t word)
qed

lemma heap_table_fresh:
  fixes s :: "'a kmem_scheme"
  assumes r: "heap_table_ready b s"
  shows "\<exists>addr phys s'. kmalloc0_ap (Suc n) SIZEOF_vm_page_table s = Inr (addr, phys, s')
      \<and> b \<le> unat addr \<and> unat addr + 4096 \<le> 2 ^ 32 \<and> unat addr mod 4096 = 0 \<and> heap_placed b s addr phys
      \<and> (\<forall>x. unat addr \<le> unat x \<and> unat x < unat addr + 4096 \<longrightarrow> mem s' x = 0)
      \<and> (\<forall>x. unat x < b \<longrightarrow> mem s' x = mem s x)"
proof -
  let ?h = "kernel_heap s" and ?z = "SIZEOF_vm_page_table"
  let ?ix = "h_index (heaps s ?h)" and ?bs = "blocks_of ?h s"
  have h: "?h \<noteq> 0" "heap_ok ?h ?bs s" "b \<le> unat (sa_array ?ix)" "4096 \<le> hstart ?h s" "total ?bs < 2 ^ 31" "sa_size ?ix < sa_maxsize ?ix"
    and holes: "\<exists>x \<in> set (hole_list (hstart ?h s) ?bs). room_aligned 4096 x"
      "\<forall>x \<in> set (hole_list (hstart ?h s) ?bs). room_aligned 4096 x \<longrightarrow> splits_aligned 4096 x"
    using r unfolding heap_table_ready_def Let_def by blast+
  have z: "unat ?z = 4096" by (simp add: SIZEOF_vm_page_table_def)
  obtain x0 where x0: "x0 \<in> set (hole_list (hstart ?h s) ?bs)" "room_aligned (unat ?z) x0" using holes(1) z by auto
  have clean: "\<forall>x \<in> set (hole_list (hstart ?h s) ?bs). room_aligned (unat ?z) x \<longrightarrow> splits_aligned (unat ?z) x"
    using holes(2) z by simp
  obtain xs m ys s1 where b1: "?bs = xs @ (m, True) # ys" "splits_aligned (unat ?z) (hstart ?h s + total xs, m)"
    and al: "alloc (Suc n) ?z 1 ?h s = Inr (of_nat (hstart ?h s + total xs + front_pad (hstart ?h s + total xs)) + SIZEOF_header, s1)"
    and fr: "\<And>x. x \<notin> sa_region ?ix \<Longrightarrow> \<not> (hstart ?h s + total xs \<le> unat x \<and> unat x < hstart ?h s + total xs + m) \<Longrightarrow> mem s1 x = mem s x"
    and oh: "only_heap s s1"
    by (rule alloc_aligned_hole [OF h(2,4,5,6) x0 clean, of n]) (rule that, assumption+)
  define p where "p = hstart ?h s + total xs + front_pad (hstart ?h s + total xs) + 12"
  have sp: "20 \<le> front_pad (hstart ?h s + total xs)" "p + 4096 + 8 \<le> hstart ?h s + total xs + m"
    using b1(2) by (auto simp: z p_def)
  have "(hstart ?h s + total xs) mod 4096 \<le> 4084" using sp(1) by (simp add: front_pad_def)
  then have al4: "p mod 4096 = 0" unfolding p_def by (rule front_pad_aligned)
  have top: "p + 4096 < 2 ^ 32" using heap_ok_size(2) [OF h(2) [unfolded b1(1)]] sp(2) by linarith
  then have up: "unat (of_nat p :: u32) = p" by (intro unat_of_nat32) simp
  have run: "alloc (Suc n) ?z 1 ?h s = Inr (of_nat p, s1)" using al by (simp add: p_def SIZEOF_header_def del: alloc.simps)
  note km = kmalloc0_ap_heap [OF h(1) run get_page_kernel]
  let ?phys = "ucast (p_frame (page_at s1 (if kernel_table s1 (of_nat p) = 0 then 0
      else pt_pages (kernel_table s1 (of_nat p)) (of_nat p div 0x1000 mod 1024)))) * 0x1000 + (of_nat p AND 0xFFF) :: u32"
  have low: "b \<le> hstart ?h s" using h(3) heap_okD(5) [OF h(2)] by linarith
  have bp: "b \<le> p" using low by (simp add: p_def)
  have wf: "unat (sa_array ?ix) + 4 * unat (sa_maxsize ?ix) \<le> 2 ^ 32" using heap_okD(3) [OF h(2)] by (simp add: sa_wf_def)
  have rg: "x \<in> addr_range (of_nat p) 4096 \<longleftrightarrow> p \<le> unat x \<and> unat x < p + 4096" for x :: u32
    using addr_range_nowrap [of "of_nat p" 4096 x] up top by simp
  have keep: "mem s1 x = mem s x" if "unat x < b" for x
  proof (rule fr)
    show "x \<notin> sa_region ?ix" using that h(3) addr_range_nowrap [OF wf, of x] by (simp add: sa_region_def del: addr_range_code)
  qed (use that low in simp)
  have "b \<le> 2 ^ 32" using bp top by simp
  then have placed: "heap_placed b s (of_nat p) ?phys"
    using kernel_phys_below(2) [of s1 s b "of_nat p", OF only_heapD(2) [OF oh] keep]
    by (simp add: heap_placed_def kernel_phys_def Let_def)
  show ?thesis
    by (intro exI conjI, rule km) (use bp top al4 keep placed in \<open>auto simp: up z rg bzero_apply simp del: addr_range_code\<close>)
qed

interpretation heap_tables: table_allocator "kmalloc0_ap (Suc n)" heap_table_ready heap_placed for n
  by unfold_locales (rule heap_table_fresh)

section \<open>Properties\<close>

text \<open>
  C30: For an address without a page table, \<open>get_page\<close> with \<open>create\<close> takes a new page-aligned
  table, from the placement allocator before there is a heap and from a hole of the heap afterwards, with all its 1024 entries
  empty, and returns the entry of the address. The table is entered twice: its address in \<open>pd_tables\<close>, and its physical
  address with the bits present, writable and user in \<open>pd_tblphys\<close>, which the processor reads. The physical address is the address
  itself before there is a heap, and afterwards the one the kernel's page tables give, if the directory and the table that
  say so are below the heap. (\<open>placement_ready\<close> is room behind the placement pointer, \<open>heap_table_ready\<close> a heap above the
  directory with holes that can be split for an aligned page.) Every other entry of both arrays is as before.
\<close>
theorem get_page_new_table:
  assumes "placement_ready b s \<or> heap_table_ready b s" "unat dir + 8196 \<le> b"
    and "read32 (mem s) (pd_tables dir (a div 0x1000 div 1024)) = 0"
  shows "\<exists>tbl phys s'. get_page (kmalloc0_ap (Suc n)) a True dir s = Inr (pt_pages tbl (a div 0x1000 mod 1024), s')
    \<and> tbl \<noteq> 0 \<and> unat tbl mod 4096 = 0
    \<and> (kernel_heap s = 0 \<longrightarrow> phys = tbl)
    \<and> (kernel_heap s \<noteq> 0 \<and> unat (kernel_directory s) + 4096 \<le> b \<and> unat (kernel_table s tbl) + 4096 \<le> b \<longrightarrow> phys = kernel_phys s tbl)
    \<and> read32 (mem s') (pd_tables dir (a div 0x1000 div 1024)) = tbl
    \<and> read32 (mem s') (pd_tblphys dir (a div 0x1000 div 1024)) = phys OR 0x7
    \<and> (\<forall>j < 1024. read32 (mem s') (pt_pages tbl j) = 0)
    \<and> (\<forall>i < 1024. i \<noteq> a div 0x1000 div 1024 \<longrightarrow> read32 (mem s') (pd_tables dir i) = read32 (mem s) (pd_tables dir i)
        \<and> read32 (mem s') (pd_tblphys dir i) = read32 (mem s) (pd_tblphys dir i))"
  using assms(1)
proof
  assume r: "placement_ready b s"
  then have "kernel_heap s = 0" by (simp add: placement_ready_def)
  then show ?thesis using place.get_page_creates [OF r assms(2,3), of "Suc n"]
    by (elim exE conjE) (intro exI conjI, assumption+, auto)
next
  assume r: "heap_table_ready b s"
  then have "kernel_heap s \<noteq> 0" by (simp add: heap_table_ready_def Let_def)
  then show ?thesis using heap_tables.get_page_creates [OF r assms(2,3), of n] unfolding heap_placed_def
    by (elim exE conjE) (intro exI conjI, assumption+, auto)
qed

theorem get_page_new_table_witness:
  "\<exists>tbl phys s'. get_page (kmalloc0_ap 1) 0xD0000000 True 0x300000 (one_hole 0x500000 0x8000) = Inr (pt_pages tbl 0, s') \<and> tbl \<noteq> 0
    \<and> read32 (mem s') (pd_tables 0x300000 0x340) = tbl \<and> read32 (mem s') (pd_tblphys 0x300000 0x340) = phys OR 0x7"
proof -
  note one = one_hole_ok [of "0x500000" "0x8000" "0x500"]
  have kh: "kernel_heap (one_hole 0x500000 0x8000) = 0x500" by (simp add: one_hole_def)
  have bs: "blocks_of 0x500 (one_hole 0x500000 0x8000) = [(0x8000, True)]" using one(1) heap_ok_blocks by simp
  have r: "heap_table_ready 0x4FF000 (one_hole 0x500000 0x8000)"
    unfolding heap_table_ready_def Let_def kh bs using one by (simp add: front_need_def front_pad_def)
  have "agree 0 0x4FF000 (\<lambda>_. 0) (mem (one_hole 0x500000 0x8000))"
    using agree_write32 [OF agree_sub [OF put_block_ok(2) [where n = "0x8000" and a = "0x500000" and m = "\<lambda>_. 0" and f = True]],
        where lo = 0 and hi = "0x4FF000" and a = "0x4FF000" and v = "0x500000"]
    by (simp add: one_hole_def)
  then have "read32 (mem (one_hole 0x500000 0x8000)) (of_nat 0x300D00) = read32 (\<lambda>_. 0) (of_nat 0x300D00)"
    by (rule read32_agree) simp_all
  then have "read32 (mem (one_hole 0x500000 0x8000)) (pd_tables 0x300000 (0xD0000000 div 0x1000 div 1024)) = 0"
    by (simp add: pd_tables_def)
  from get_page_new_table [OF disjI2 [OF r] _ this, of 0] show ?thesis by (simp, elim exE conjE, intro exI conjI)
qed

text \<open>
  C5: After \<open>init_paging\<close> the first page-aligned cleared block, of up to 516 KB, is the
  page at 0xC0082000. The physical address \<open>kmalloc0_ap\<close> stores is the address the processor translates the block to, the
  bytes of the block are 0, and the heap keeps its invariant with this block in use.
\<close>
theorem page_request_after_boot:
  assumes "boot_ready s" "unat len + 4124 \<le> 0x7F000"
  shows "\<exists>s1 ph s2. init_paging n s = Inr s1 \<and> kmalloc0_ap (Suc k) len s1 = Inr (0xC0082000, ph, s2)
    \<and> mmu_walk s2 0xC0082000 = Some ph \<and> unat ph mod 4096 = 0
    \<and> (\<forall>x \<in> addr_range 0xC0082000 (unat len). mem s2 x = 0)
    \<and> kheap_good s2 \<and> kheap_live s2 = {(0xC0082000, unat len)}"
proof -
  define d where "d = boot_dir (placement_address s)"
  note r = boot_readyD [OF assms(1) d_def]
  obtain t s1 where run: "init_paging n s = Inr s1"
    and inv: "boot_inv (d + 0x5000) (d + 0x3000) (boot_pages s) (boot_pages s) 256 (boot_base s) t"
    and sh: "\<exists>m hp. s1 = t\<lparr>mem := m, heaps := hp, kernel_heap := d + 0x4000, current_directory := d, cr3 := pd_tblphys d 0,
       cr0 := cr0 s OR 0x80000000, interrupt_handlers := (interrupt_handlers s)[14 := Some Page_fault_handler]\<rparr>"
    and low: "\<And>x. unat x < 0xC0000000 \<Longrightarrow> mem s1 x = mem t x"
    and hp: "heap_ok (d + 0x4000) [(0x7F000, True)] s1" "h_addr_start (heaps s1 (d + 0x4000)) = 0xC0081000"
      "sa_array (h_index (heaps s1 (d + 0x4000))) = 0xC0000000" "sa_maxsize (h_index (heaps s1 (d + 0x4000))) = VM_HEAP_INDEX_SIZE"
    by (rule init_paging_run [OF assms(1) d_def, of n]) (rule that, assumption+)
  obtain mt where mt: "t = boot_base s\<lparr>mem := mt\<rparr>" using inv unfolding boot_inv_def by blast
  have f1: "kernel_heap s1 = d + 0x4000" "cr0 s1 = cr0 s OR 0x80000000" "cr3 s1 = pd_tblphys d 0" "kernel_directory s1 = d"
    using sh by (auto simp: mt boot_base_def d_def)
  have "unat (d + 0x4000) \<noteq> 0" using r(9) [of "0x4000"] by simp
  then have kh: "d + 0x4000 \<noteq> 0" by auto
  obtain s2 where al: "alloc (Suc k) len 1 (d + 0x4000) s1 = Inr (0xC0082000, s2)"
    "heap_ok (d + 0x4000) ((4084, True) # cut_hole (0x7F000 - 4084) (unat len + 20)) s2"
    "h_addr_start (heaps s2 (d + 0x4000)) = h_addr_start (heaps s1 (d + 0x4000))"
    "\<And>x. x \<notin> sa_region (h_index (heaps s1 (d + 0x4000))) \<Longrightarrow> unat x < 0xC0081000 \<Longrightarrow> mem s2 x = mem s1 x" "only_heap s1 s2"
    by (rule aligned_single_hole [OF hp(1), of len k]) (use hp(2,4) assms(2) in \<open>simp_all add: VM_HEAP_INDEX_SIZE_def\<close>)
  have f2: "kernel_heap s2 = d + 0x4000" "cr0 s2 = cr0 s OR 0x80000000" "cr3 s2 = pd_tblphys d 0" "kernel_directory s2 = d"
    using only_heap_walk [OF al(5)] f1 by simp_all
  have low2: "mem s2 x = mem t x" if "unat x < 0xC0000000" for x
  proof -
    have "x \<notin> sa_region (h_index (heaps s1 (d + 0x4000)))"
      using that addr_range_nowrap [of "0xC0000000" "4 * 131072" x] hp(3,4)
      by (simp add: sa_region_def VM_HEAP_INDEX_SIZE_def del: addr_range_code)
    then show ?thesis using al(4) [of x] low [OF that] that by simp
  qed
  define s3 where "s3 = s2\<lparr>mem := bzero 0xC0082000 len (mem s2)\<rparr>"
  have rg: "x \<in> addr_range 0xC0082000 (unat len) \<longleftrightarrow> 0xC0082000 \<le> unat x \<and> unat x < 0xC0082000 + unat len" for x :: u32
    using addr_range_nowrap [of "0xC0082000" "unat len" x] assms(2) by simp
  have f3: "kernel_heap s3 = d + 0x4000" "cr0 s3 = cr0 s OR 0x80000000" "cr3 s3 = pd_tblphys d 0" using f2 by (simp_all add: s3_def)
  have low3: "mem s3 x = mem t x" if "unat x < 0xC0000000" for x
    using low2 [OF that] that rg [of x] by (simp add: s3_def bzero_apply del: addr_range_code)
  obtain q where q: "get_page no_table_alloc 0xC0082000 False d s2 = Inr (q, s2)"
    "mmu_walk s2 0xC0082000 = Some (ucast (p_frame (page_at s2 q)) * 0x1000 + (0xC0082000 AND 0xFFF))"
    "mmu_walk s2 0xC0082000 = Some (0xC0082000 - 0xC0000000 + (d + 0x6000))"
    by (rule heap_page_phys [OF assms(1) d_def inv f2(2,3) low2, of "0xC0082000" no_table_alloc]) (assumption, simp, simp, rule that)
  have w3: "mmu_walk s3 0xC0082000 = mmu_walk s2 0xC0082000"
    using init_paging_walk [OF assms(1) d_def inv f3(2,3) low3, of "0xC0082000"]
      init_paging_walk [OF assms(1) d_def inv f2(2,3) low2, of "0xC0082000"] by simp
  have run2: "kmalloc0_ap (Suc k) len s1 = Inr (0xC0082000, ucast (p_frame (page_at s2 q)) * 0x1000 + (0xC0082000 AND 0xFFF), s3)"
    unfolding s3_def by (rule kmalloc0_ap_heap) (use kh al(1) q(1) f1 f2 in \<open>simp_all del: alloc.simps\<close>)
  have st: "hstart (d + 0x4000) s2 = 0xC0081000" using al(3) hp(2) by simp
  have pay: "set (payloads (hstart (d + 0x4000) s2) ((4084, True) # cut_hole (0x7F000 - 4084) (unat len + 20))) = {(0xC0082000, unat len)}"
    using assms(2) by (auto simp: st cut_hole_def)
  have ok3: "heap_ok (d + 0x4000) ((4084, True) # cut_hole (0x7F000 - 4084) (unat len + 20)) s3"
    unfolding s3_def by (rule heap_ok_payload_write [OF al(2)]) (use pay rg in \<open>auto simp: bzero_apply simp del: addr_range_code split: if_splits\<close>)
  have st3: "hstart (d + 0x4000) s3 = hstart (d + 0x4000) s2" by (simp add: s3_def)
  have good: "kheap_good s3" "kheap_live s3 = {(0xC0082000, unat len)}"
    using f3(1) kh ok3 heap_ok_blocks [OF ok3] pay st3 by (simp_all add: kheap_good_def kheap_live_def)
  have "unat (0x82000 + (d + 0x6000)) = 0x82000 + (unat d + 0x6000)"
    using r(6) r(9) [of "0x6000"] by (subst unat_add_nowrap) simp_all
  then have "unat (0xC0082000 - 0xC0000000 + (d + 0x6000)) mod 4096 = 0" using r(7) by (simp add: mod_add_eq [symmetric])
  moreover have "\<forall>x \<in> addr_range 0xC0082000 (unat len). mem s3 x = 0" by (simp add: s3_def bzero_apply)
  ultimately show ?thesis using run run2 w3 q(2,3) good by auto
qed

theorem page_request_after_boot_witness:
  "\<exists>s1 ph s2. init_paging 0 boot_kmem = Inr s1 \<and> kmalloc0_ap 1 0x1000 s1 = Inr (0xC0082000, ph, s2)
    \<and> mmu_walk s2 0xC0082000 = Some ph \<and> kheap_live s2 = {(0xC0082000, 0x1000)}"
  using page_request_after_boot [OF boot_kmem_ready, of "0x1000" 0 0] by (simp del: addr_range_code) blast

end
