(* ===== verification/Heap_Shrink.thy ===== *)
theory Heap_Shrink
  imports Heap_Grow Heap_Free
begin

text \<open>
  The contraction of a heap: \<open>free\<close> of the last block unmaps pages and moves the end of the heap down to
  \<open>VM_HEAP_MIN_SIZE\<close>. \<open>W\<close> is the memory of the frame bits and page tables, as for the growth.
\<close>

section \<open>contract\<close>

text \<open>
  \<open>free_frame\<close> clears the bit of frame \<open>f div 4096\<close> for a frame \<open>f\<close>: at most bit 255, so 256 frames keep the write
  inside the bitset.
\<close>

lemma unmap_page_frame:
  fixes s :: "'a kmem_scheme"
  assumes "bitset_wf s" "256 \<le> nbits s" "bitset_region s \<subseteq> W" "table_ready W a s"
  obtains m where "free_frame (entry_of a s) s = s\<lparr>mem := m\<rparr>" "\<And>x. x \<notin> W \<Longrightarrow> m x = mem s x"
proof -
  let ?p = "entry_of a s"
  let ?f = "ucast (p_frame (page_at s ?p)) :: u32"
  have "unat (p_frame (page_at s ?p)) < 2 ^ 20" using unsigned_less [of "p_frame (page_at s ?p)"] by simp
  then have "unat ?f < 2 ^ 20" by (simp add: unat_ucast_mod)
  then have "unat (?f div 0x1000) < nbits s" using assms(2) by (simp add: unat_div_distrib less_mult_imp_div_less)
  then have clr: "mem (clear_frame ?f s) x = mem s x" if "x \<notin> W" for x
    using write_word_outside [OF assms(1), of "?f div 0x1000" x] that assms(3)
    by (auto simp: clear_frame_def Let_def simp del: addr_range_code)
  have eq: "free_frame ?p s = s\<lparr>mem := mem (free_frame ?p s)\<rparr>"
    by (simp add: free_frame_def clear_frame_def set_page_def Let_def)
  have "mem (free_frame ?p s) x = mem s x" if "x \<notin> W" for x
  proof -
    have "x \<notin> addr_range ?p 4" using assms(4) that by (auto simp: table_ready_def simp del: addr_range_code)
    then show ?thesis using clr [OF that] by (simp add: free_frame_def Let_def write32_outside del: addr_range_code)
  qed
  then show thesis using that eq by blast
qed

lemma contract_pages_ok:
  fixes s :: "'a kmem_scheme"
  assumes "bitset_wf s" "256 \<le> nbits s" "bitset_region s \<subseteq> W"
    and "\<And>j. b < j \<Longrightarrow> unat j \<le> unat i \<Longrightarrow> table_ready W (h_addr_start (heaps s h) + j) s"
    and "4096 \<le> unat b" "unat i \<le> unat b + 4096 * n"
  shows "\<exists>m. contract_pages (Suc n + k) i b h s = Inr (s\<lparr>mem := m\<rparr>) \<and> (\<forall>x. x \<notin> W \<longrightarrow> m x = mem s x)"
  using assms
proof (induction n arbitrary: i s)
  case 0
  then have "\<not> b < i" by (simp add: word_less_nat_alt)
  then show ?case by (intro exI [of _ "mem s"]) simp
next
  case (Suc n)
  show ?case
  proof (cases "b < i")
    case True
    let ?a = "h_addr_start (heaps s h) + i"
    have rdy: "table_ready W ?a s" using Suc.prems(4) True by blast
    obtain m where m: "free_frame (entry_of ?a s) s = s\<lparr>mem := m\<rparr>" "\<And>x. x \<notin> W \<Longrightarrow> m x = mem s x"
      by (rule unmap_page_frame [OF Suc.prems(1-3) rdy]) (rule that, assumption+)
    have i': "unat (i - 0x1000) = unat i - 4096"
      using True Suc.prems(5) by (subst unat_sub_nowrap) (simp_all add: word_less_nat_alt)
    have rdy': "table_ready W (h_addr_start (heaps (s\<lparr>mem := m\<rparr>) h) + j) (s\<lparr>mem := m\<rparr>)"
      if "b < j" "unat j \<le> unat (i - 0x1000)" for j
      using table_ready_cong [OF Suc.prems(4) m(2)] that i' by simp
    have "\<exists>m'. contract_pages (Suc n + k) (i - 0x1000) b h (s\<lparr>mem := m\<rparr>) = Inr (s\<lparr>mem := m\<rparr>\<lparr>mem := m'\<rparr>)
        \<and> (\<forall>x. x \<notin> W \<longrightarrow> m' x = mem (s\<lparr>mem := m\<rparr>) x)"
      by (rule Suc.IH [OF _ _ _ rdy' Suc.prems(5)])
        (use Suc.prems(1-3,6) i' in \<open>simp_all add: bitset_wf_def nbits_def bitset_region_def del: addr_range_code\<close>)
    then obtain m' where "contract_pages (Suc n + k) (i - 0x1000) b h (s\<lparr>mem := m\<rparr>) = Inr (s\<lparr>mem := m'\<rparr>)"
      "\<forall>x. x \<notin> W \<longrightarrow> m' x = mem s x" using m(2) by auto
    then show ?thesis using True get_page_ready [OF rdy] m(1)
      by (intro exI [of _ m']) (simp del: contract_pages.simps add: contract_pages.simps(2) [of "Suc (n + k)"])
  next
    case False
    then show ?thesis by (intro exI [of _ "mem s"]) simp
  qed
qed

text \<open>The directory entry for the address \<open>a\<close> lies outside the heap.\<close>

definition directory_away :: "u32 \<Rightarrow> u32 \<Rightarrow> 'a kmem_scheme \<Rightarrow> bool" where
  "directory_away h a s \<longleftrightarrow> (\<forall>x \<in> addr_range (pd_tables (kernel_directory s) (a div 0x1000 div 1024)) 4.
     \<not> (hstart h s \<le> unat x \<and> unat x < hend h s))"

definition shrink_ready :: "u32 \<Rightarrow> u32 set \<Rightarrow> 'a kmem_scheme \<Rightarrow> bool" where
  "shrink_ready h W s \<longleftrightarrow> bitset_wf s \<and> 256 \<le> nbits s \<and> bitset_region s \<subseteq> W
     \<and> hstart h s + 0x70000 \<le> hend h s
     \<and> (\<forall>j. 0x70000 < unat j \<and> unat j < hend h s - hstart h s \<longrightarrow> table_ready W (h_addr_start (heaps s h) + j) s
          \<and> directory_away h (h_addr_start (heaps s h) + j) s)
     \<and> sa_region (h_index (heaps s h)) \<inter> W = {} \<and> (\<forall>x \<in> W. \<not> (hstart h s \<le> unat x \<and> unat x < hend h s))"

lemma shrink_ready_heap_write:
  assumes rdy: "shrink_ready h W s" and m: "\<And>x. \<not> (hstart h s \<le> unat x \<and> unat x < hend h s) \<Longrightarrow> m x = mem s x"
  shows "shrink_ready h W (s\<lparr>mem := m\<rparr>)"
proof -
  have "table_ready W (h_addr_start (heaps s h) + j) (s\<lparr>mem := m\<rparr>) \<and> directory_away h (h_addr_start (heaps s h) + j) (s\<lparr>mem := m\<rparr>)"
    if "0x70000 < unat j" "unat j < hend h s - hstart h s" for j
  proof -
    let ?a = "h_addr_start (heaps s h) + j"
    have t: "table_ready W ?a s" "directory_away h ?a s" using rdy that by (auto simp: shrink_ready_def)
    have "table_of ?a (s\<lparr>mem := m\<rparr>) = table_of ?a s"
      unfolding table_of_def mem_update by (rule read32_cong, rule m) (use t(2) in \<open>unfold directory_away_def, blast\<close>)
    then show ?thesis
      using t by (simp add: table_ready_def entry_of_def page_apart_def bitset_region_def directory_away_def del: addr_range_code)
  qed
  then show ?thesis
    using rdy unfolding shrink_ready_def by (simp add: bitset_wf_def nbits_def bitset_region_def del: addr_range_code)
qed

text \<open>A request below the minimum, or one with bit 12 set, however large, leads to the minimum.\<close>

lemma contract_min:
  fixes s :: "'a kmem_scheme"
  assumes rdy: "shrink_ready h W s" and new: "unat new < hend h s - hstart h s" "unat new < 0x70000 \<or> new AND 0x1000 \<noteq> 0"
  obtains m where "contract new h s
      = Inr (VM_HEAP_MIN_SIZE, upd_heap h (\<lambda>hp. hp\<lparr>h_addr_end := h_addr_start hp + VM_HEAP_MIN_SIZE\<rparr>) (s\<lparr>mem := m\<rparr>))"
    "\<And>x. x \<notin> W \<Longrightarrow> m x = mem s x"
proof -
  let ?l = "heap_len h s"
  have r: "bitset_wf s" "256 \<le> nbits s" "bitset_region s \<subseteq> W" "hstart h s + 0x70000 \<le> hend h s"
    and tab: "\<And>j. 0x70000 < unat j \<Longrightarrow> unat j < hend h s - hstart h s \<Longrightarrow> table_ready W (h_addr_start (heaps s h) + j) s"
    using rdy by (auto simp: shrink_ready_def)
  have l: "unat ?l = hend h s - hstart h s" using r(4) by (simp add: heap_len_def unat_sub_nowrap)
  have k: "kassert msg (new < ?l) = Inr ()" for msg using new(1) l by (simp add: kassert_def word_less_nat_alt)
  have bit: "x AND 0x1000 \<noteq> 0 \<Longrightarrow> (x AND 0x1000) + 0x1000 = 0x2000" for x :: u32
  proof -
    assume nz: "x AND 0x1000 \<noteq> 0"
    have p: "(0x1000 :: u32) = 2 ^ 12" by simp
    have "bit x 12" using nz unfolding p by (subst (asm) and_single_bit) simp_all
    then have "x AND 2 ^ 12 = 2 ^ 12" by (intro bit_eqI) (unfold bit_and_iff bit_exp_iff, auto)
    then show ?thesis unfolding p by simp
  qed
  have cut: "(if (if new AND 0x1000 \<noteq> 0 then (new AND 0x1000) + 0x1000 else new) < VM_HEAP_MIN_SIZE then VM_HEAP_MIN_SIZE
      else (if new AND 0x1000 \<noteq> 0 then (new AND 0x1000) + 0x1000 else new)) = VM_HEAP_MIN_SIZE"
    using new(2) bit [of new] by (auto simp: VM_HEAP_MIN_SIZE_def word_less_nat_alt)
  have mn: "unat VM_HEAP_MIN_SIZE = 0x70000" by (simp add: VM_HEAP_MIN_SIZE_def)
  have il: "unat (?l - 0x1000) = unat ?l - 4096" using l r(4) by (subst unat_sub_nowrap) simp_all
  obtain n where n: "unat (?l - 0x1000) \<le> unat VM_HEAP_MIN_SIZE + 4096 * n" "n \<le> 2 ^ 20"
  proof (rule that [OF pages_needed(1)])
    show "(unat (?l - 0x1000) - unat VM_HEAP_MIN_SIZE + 4095) div 4096 \<le> 2 ^ 20"
      by (rule pages_needed(2)) (use unat_lt32 [of "?l - 0x1000", THEN less_imp_le, THEN trans_le_add2, of "unat VM_HEAP_MIN_SIZE"] in simp)
  qed
  obtain k' where k': "page_fuel = Suc n + k'" using le_Suc_ex [of "Suc n" page_fuel] n(2) by (auto simp: page_fuel_def)
  have "\<exists>m. contract_pages (Suc n + k') (?l - 0x1000) VM_HEAP_MIN_SIZE h s = Inr (s\<lparr>mem := m\<rparr>) \<and> (\<forall>x. x \<notin> W \<longrightarrow> m x = mem s x)"
  proof (rule contract_pages_ok [OF r(1-3) _ _ n(1)])
    show "table_ready W (h_addr_start (heaps s h) + j) s" if "VM_HEAP_MIN_SIZE < j" "unat j \<le> unat (?l - 0x1000)" for j
      using tab [of j] that l il mn r(4) by (simp add: word_less_nat_alt)
  qed (simp add: mn)
  then obtain m where m: "contract_pages page_fuel (?l - 0x1000) VM_HEAP_MIN_SIZE h s = Inr (s\<lparr>mem := m\<rparr>)" "\<And>x. x \<notin> W \<Longrightarrow> m x = mem s x"
    unfolding k' by blast
  show thesis
    by (rule that [OF _ m(2)]) (simp only: contract_def k ebind_Inr Let_def cut m(1))
qed

section \<open>The end of free\<close>

text \<open>
  The last stage of \<open>free\<close> for a hole of \<open>q\<close> bytes at the end of the heap, behind the blocks \<open>zs\<close>, that begins at least
  20 bytes below the minimum size.
\<close>

lemma release_tail_ok:
  fixes s :: "'a kmem_scheme"
  assumes rdy: "shrink_ready h W s" and wf: "sa_wf (h_index (heaps s h))"
    and len: "hstart h s + total zs + q = hend h s" and small: "total zs + 20 \<le> 0x70000"
  defines "a \<equiv> hstart h s + total zs"
  assumes t: "tiles (mem s) (hend h s) (hstart h s) zs" "block_at (mem s) (hend h s) a q True"
  obtains s' where "release_tail (of_nat a) (of_nat (a + q - 8)) th h s = Inr s'"
    "hend h s' = hstart h s + 0x70000" "h_addr_start (heaps s' h) = h_addr_start (heaps s h)" "h_index (heaps s' h) = h_index (heaps s h)"
    "tiles (mem s') (hstart h s + 0x70000) (hstart h s) (zs @ [(0x70000 - total zs, True)])" "only_heap s s'"
    "\<And>x. x \<notin> W \<Longrightarrow> \<not> (a \<le> unat x \<and> unat x < hstart h s + 0x70000) \<Longrightarrow> mem s' x = mem s x"
proof -
  let ?d = "0x70000 - total zs"
  have away: "\<And>x. x \<in> W \<Longrightarrow> \<not> (hstart h s \<le> unat x \<and> unat x < hend h s)" and min: "hstart h s + 0x70000 \<le> hend h s"
    using rdy by (auto simp: shrink_ready_def)
  have e32: "hend h s < 2 ^ 32" by simp
  have q: "20 \<le> q" "hh_size (mem s) (of_nat a) = of_nat q" "hh_magic (mem s) (of_nat a) = VM_HEAP_HDR_MAGIC"
    "hh_is_hole (mem s) (of_nat a) = 1"
    using t(2) by (simp_all add: block_at_def)
  have aq: "a + q = hend h s" using len by (simp add: a_def)
  have ha: "hstart h s \<le> a" "a + 12 \<le> hend h s" using aq q(1) by (simp_all add: a_def)
  have off: "of_nat a - h_addr_start (heaps s h) = (of_nat (total zs) :: u32)" by (simp add: a_def)
  have t32: "unat (of_nat (total zs) :: u32) = total zs" using small by (intro unat_of_nat32) simp
  obtain m where m: "contract (of_nat (total zs)) h s
      = Inr (VM_HEAP_MIN_SIZE, upd_heap h (\<lambda>hp. hp\<lparr>h_addr_end := h_addr_start hp + VM_HEAP_MIN_SIZE\<rparr>) (s\<lparr>mem := m\<rparr>))"
    "\<And>x. x \<notin> W \<Longrightarrow> m x = mem s x"
    by (rule contract_min [OF rdy, of "of_nat (total zs)"]) (use t32 small len q(1) in simp, use t32 small in simp, rule that, assumption+)
  have ag: "agree (hstart h s) (hend h s) (mem s) m" using m(2) away unfolding agree_def by blast
  have mq: "hh_size m (of_nat a) = of_nat q" "hh_magic m (of_nat a) = VM_HEAP_HDR_MAGIC" "hh_is_hole m (of_nat a) = 1"
    using header_agree [OF ag ha less_imp_le [OF e32]] q by simp_all
  have plus: "of_nat (a + q - 8) + SIZEOF_footer = h_addr_end (heaps s h)"
    using footer_plus [of q a] q(1) unfolding aq by simp
  have dd: "q - (hend h s - hstart h s - 0x70000) = ?d" using len min small by linarith
  have old: "heap_len h s = of_nat (hend h s - hstart h s)" using min by (simp add: heap_len_def of_nat_diff)
  have "heap_len h s - VM_HEAP_MIN_SIZE = of_nat (hend h s - hstart h s - 0x70000)"
    unfolding old VM_HEAP_MIN_SIZE_def using min by (simp add: of_nat_diff)
  then have size: "of_nat q - (heap_len h s - VM_HEAP_MIN_SIZE) = (of_nat ?d :: u32)"
    using dd len min small by (simp add: of_nat_diff flip: dd)
  have dpos: "20 \<le> ?d" "?d < 4294967296" using small by simp_all
  have "unat (of_nat ?d :: u32) = ?d" using dpos(2) by (rule unat_of_nat32)
  then have pos: "(0 :: u32) < of_nat ?d" using dpos(1) by (simp add: word_less_nat_alt)
  have foot: "of_nat a + of_nat ?d - SIZEOF_footer = (of_nat (a + ?d - 8) :: u32)"
    using footer_plus [of ?d a] dpos(1) by (simp add: algebra_simps)
  define m2 where "m2 = put_footer (of_nat (a + ?d - 8)) (of_nat a) (set_hh_size (of_nat a) (of_nat ?d) m)"
  let ?s' = "(upd_heap h (\<lambda>hp. hp\<lparr>h_addr_end := h_addr_start hp + VM_HEAP_MIN_SIZE\<rparr>) (s\<lparr>mem := m\<rparr>))\<lparr>mem := m2\<rparr>"
  have run: "release_tail (of_nat a) (of_nat (a + q - 8)) th h s = Inr ?s'"
    unfolding release_tail_def Let_def plus off m(1) ebind_Inr split
    by (simp only: simp_thms if_True upd_heap_simps mem_update mq(1) size pos header_of_set foot m2_def)
  have top: "a + ?d = hstart h s + 0x70000" using small by (simp add: a_def)
  have fit: "a + ?d \<le> 2 ^ 32" "a + 12 \<le> 2 ^ 32" using top min e32 dpos(1) by linarith+
  have low: "agree 0 a m m2"
    unfolding m2_def by (rule agree_put_footer [OF agree_set_hh_size [OF agree_refl]]) (use fit dpos in auto)
  have high: "agree (a + ?d) (2 ^ 32) m m2"
    unfolding m2_def by (rule agree_put_footer [OF agree_set_hh_size [OF agree_refl]]) (use fit dpos in auto)
  have fr: "m2 x = mem s x" if "x \<notin> W" "\<not> (a \<le> unat x \<and> unat x < hstart h s + 0x70000)" for x
    using low high m(2) [OF that(1)] that(2) top unat_lt_power [of x] by (auto simp: agree_def not_le)
  have hdr: "agree a (a + 12) (set_hh_size (of_nat a) (of_nat ?d) m) m2"
    unfolding m2_def by (rule agree_put_footer [OF agree_refl]) (use fit dpos in auto)
  have "hh_magic m2 (of_nat a) = VM_HEAP_HDR_MAGIC" "hh_is_hole m2 (of_nat a) = 1" "hh_size m2 (of_nat a) = of_nat ?d"
    using header_agree [OF hdr, of a] fit(2) mq(2,3) by simp_all
  moreover have "footer_at m2 a ?d" unfolding m2_def footer_at_def by simp
  ultimately have new: "block_at m2 (hstart h s + 0x70000) a ?d True" using dpos(1) by (simp add: block_at_def)
  have ag2: "agree (hstart h s) a (mem s) m2"
    by (rule agree_trans [OF agree_sub [OF ag] agree_sub [OF low]]) (use aq in simp_all)
  have "tiles (mem s) (hstart h s + 0x70000) (hstart h s) zs" by (rule tiles_end [OF t(1)]) (use len q(1) in simp)
  then have zs: "tiles m2 (hstart h s + 0x70000) (hstart h s) zs"
    using tiles_agree [of "hstart h s" zs "mem s" m2 "hstart h s + 0x70000"] ag2 fit(2) by (simp add: a_def)
  have lt: "hstart h s + 0x70000 < 2 ^ 32" using min e32 by linarith
  have end': "hend h ?s' = hstart h s + 0x70000"
    using lt by (simp add: VM_HEAP_MIN_SIZE_def unat_add_nowrap)
  have "only_heap s ?s'" unfolding only_heap_def upd_heap_def by (cases s) simp
  then show thesis
    by (intro that [OF run end']) (use zs new fr in \<open>simp_all add: tiles_append a_def\<close>)
qed

text \<open>Behind the heap there is nothing that looks like a hole: \<open>free\<close> reads there when the last block is freed.\<close>

definition no_hole_above :: "u32 \<Rightarrow> 'a kmem_scheme \<Rightarrow> bool" where
  "no_hole_above h s \<longleftrightarrow> hend h s + 12 \<le> 2 ^ 32 \<and> \<not> (hh_magic (mem s) (h_addr_end (heaps s h)) = VM_HEAP_HDR_MAGIC
     \<and> hh_is_hole (mem s) (h_addr_end (heaps s h)) \<noteq> 0)"

text \<open>The stages before the last one, for a last block in use behind a block in use.\<close>

lemma free_last_stages:
  fixes s :: "'a kmem_scheme"
  assumes ok: "heap_ok h (xs @ [(n, False)]) s" and h: "h \<noteq> 0" and left: "left_used h xs s" and above: "no_hole_above h s"
  defines "a \<equiv> hstart h s + total xs"
  obtains m where "free (of_nat a + SIZEOF_header) h s
      = ebind (release_tail (of_nat a) (of_nat (a + n - 8)) (of_nat (a + n)) h (s\<lparr>mem := m\<rparr>)) (index_insert h (of_nat a))"
    "\<And>x. \<not> (a \<le> unat x \<and> unat x < hend h s) \<Longrightarrow> m x = mem s x" "agree (hstart h s) a (mem s) m"
    "block_at m (hend h s) a n True" "a + n = hend h s"
proof -
  note sp = heap_ok_split [OF ok, folded a_def]
  have an: "a + n = hend h s" using sp(2) by simp
  define m where "m = set_hh_is_hole (of_nat a) 1 (mem s)"
  have ag: "agree lo hi (mem s) m" if "hi \<le> a + 4 \<or> a + 8 \<le> lo" for lo hi
    unfolding m_def using that sp(1,3) by (intro mark_agree) auto
  have out: "m x = mem s x" if "\<not> (a \<le> unat x \<and> unat x < hend h s)" for x
    using that ag [of a 0] ag [of "2 ^ 32" "hend h s"] an sp(1) unat_lt_power [of x] by (auto simp: agree_def not_le)
  have ul: "unify_left (of_nat a) (of_nat (a + n - 8)) m = (of_nat a, True, m)"
    unfolding m_def a_def by (rule unify_left_none [OF ok left])
  have plus: "of_nat (a + n - 8) + SIZEOF_footer = h_addr_end (heaps s h)"
    using footer_plus [of n a] sp(1) unfolding an by simp
  have "hh_magic m (of_nat (hend h s)) = hh_magic (mem s) (of_nat (hend h s))"
    "hh_is_hole m (of_nat (hend h s)) = hh_is_hole (mem s) (of_nat (hend h s))"
    using header_agree [OF ag [of "2 ^ 32" "hend h s"], of "hend h s"] above an sp(1) by (simp_all add: no_hole_above_def)
  then have ghost: "\<not> (hh_magic m (h_addr_end (heaps s h)) = VM_HEAP_HDR_MAGIC \<and> hh_is_hole m (h_addr_end (heaps s h)) \<noteq> 0)"
    using above by (simp add: no_hole_above_def)
  have ur: "unify_right (of_nat a) (of_nat (a + n - 8)) h (s\<lparr>mem := m\<rparr>) = Inr (of_nat (a + n - 8), s\<lparr>mem := m\<rparr>)"
    unfolding unify_right_def Let_def plus mem_update if_not_P [OF ghost] ..
  have blk: "block_at m (hend h s) a n True"
  proof -
    have "agree (a + n - 8) (a + n) (mem s) m" using sp(1) by (intro ag) simp
    then have "footer_at m a n"
      using footer_agree [of "a + n - 8" "a + n" "mem s" m "a + n - 8"] sp(1,3,6) by (simp only: footer_at_def block_at_def) simp
    then show ?thesis using sp(1,6) by (simp add: block_at_def m_def)
  qed
  have run: "free (of_nat a + SIZEOF_header) h s
      = ebind (release_tail (of_nat a) (of_nat (a + n - 8)) (of_nat (a + n)) h (s\<lparr>mem := m\<rparr>)) (index_insert h (of_nat a))"
    unfolding a_def free_unfold [OF ok h] by (simp only: m_def [symmetric] a_def [symmetric] ul split ebind_Inr if_True ur)
  show thesis by (rule that [OF run out ag blk an]) simp_all
qed

lemma free_last_ok:
  fixes s :: "'a kmem_scheme"
  assumes ok: "heap_ok h (xs @ [(n, False)]) s" and h: "h \<noteq> 0" and left: "left_used h xs s" and above: "no_hole_above h s"
    and room: "sa_size (h_index (heaps s h)) < sa_maxsize (h_index (heaps s h))"
    and rdy: "shrink_ready h W s" and small: "total xs + 20 \<le> 0x70000"
  defines "a \<equiv> hstart h s + total xs"
  obtains s' where "free (of_nat a + SIZEOF_header) h s = Inr s'" "heap_ok h (xs @ [(0x70000 - total xs, True)]) s'"
    "h_addr_start (heaps s' h) = h_addr_start (heaps s h)" "hend h s' = hstart h s + 0x70000"
    "\<And>x. x \<notin> W \<Longrightarrow> x \<notin> sa_region (h_index (heaps s h)) \<Longrightarrow> \<not> (a \<le> unat x \<and> unat x < hend h s) \<Longrightarrow> mem s' x = mem s x"
proof -
  let ?d = "0x70000 - total xs"
  note okd = heap_okD [OF ok] and sp = heap_ok_split [OF ok, folded a_def]
  have an: "a + n = hend h s" using sp(2) by simp
  obtain m where run0: "free (of_nat a + SIZEOF_header) h s
      = ebind (release_tail (of_nat a) (of_nat (a + n - 8)) (of_nat (a + n)) h (s\<lparr>mem := m\<rparr>)) (index_insert h (of_nat a))"
    and out: "\<And>x. \<not> (a \<le> unat x \<and> unat x < hend h s) \<Longrightarrow> m x = mem s x" and ag: "agree (hstart h s) a (mem s) m"
    and blk: "block_at m (hend h s) a n True"
    by (rule free_last_stages [OF ok h left above, folded a_def]) (rule that, assumption+)
  define s1 where "s1 = s\<lparr>mem := m\<rparr>"
  have rdy1: "shrink_ready h W s1"
    unfolding s1_def by (rule shrink_ready_heap_write [OF rdy out]) (simp add: a_def)
  have tl: "tiles m (hend h s) (hstart h s) xs"
    using tiles_agree [of "hstart h s" xs "mem s" m "hend h s"] ag sp(3,4) by (simp add: a_def)
  have s1s: "heaps s1 = heaps s" "mem s1 = m" by (simp_all add: s1_def)
  obtain s2 where s2: "release_tail (of_nat a) (of_nat (a + n - 8)) (of_nat (a + n)) h s1 = Inr s2"
    "hend h s2 = hstart h s + 0x70000" "h_addr_start (heaps s2 h) = h_addr_start (heaps s h)" "h_index (heaps s2 h) = h_index (heaps s h)"
    "tiles (mem s2) (hstart h s + 0x70000) (hstart h s) (xs @ [(?d, True)])" "only_heap s1 s2"
    and fr2: "\<And>x. x \<notin> W \<Longrightarrow> \<not> (a \<le> unat x \<and> unat x < hstart h s + 0x70000) \<Longrightarrow> mem s2 x = m x"
    by (rule release_tail_ok [OF rdy1, where zs = xs and q = n and th = "of_nat (a + n)", unfolded s1s, folded a_def])
      (use okd(3) an small tl blk in \<open>simp_all add: a_def\<close>)
  have below: "unat (sa_array (h_index (heaps s2 h))) + 4 * unat (sa_maxsize (h_index (heaps s2 h))) \<le> hstart h s" using okd(5) s2(4) by simp
  have wf: "sa_wf (h_index (heaps s2 h))" "sa_cmp (h_index (heaps s2 h)) = Some vm_heap_header_cmp"
    "sa_size (h_index (heaps s2 h)) < sa_maxsize (h_index (heaps s2 h))" using okd(3,4) room s2(4) by simp_all
  have reg: "x \<notin> W \<and> unat x < hstart h s" if "x \<in> sa_region (h_index (heaps s h))" for x
    using that rdy region_below [OF okd(3,5), of x] by (auto simp: shrink_ready_def not_le)
  have els: "sa_elems (h_index (heaps s2 h)) (mem s2) = sa_elems (h_index (heaps s h)) (mem s)"
    unfolding s2(4)
  proof (rule sa_elems_frame [OF okd(3)])
    fix x assume "x \<in> sa_region (h_index (heaps s h))"
    from reg [OF this] have x: "x \<notin> W" "\<not> (a \<le> unat x \<and> unat x < hstart h s + 0x70000)" "\<not> (a \<le> unat x \<and> unat x < hend h s)"
      by (simp_all add: a_def)
    then show "mem s2 x = mem s x" using fr2 [OF x(1,2)] out [OF x(3)] by simp
  qed
  obtain s' where s': "index_insert h (of_nat a) s2 = Inr s'" "index_step h s2 s'"
    "mset (sa_elems (h_index (heaps s' h)) (mem s')) = add_mset (of_nat a) (mset (sa_elems (h_index (heaps s2 h)) (mem s2)))"
    by (rule index_insert_ok [OF wf])
  note st = index_stepD [OF s'(2) wf(1) below]
  have run: "free (of_nat a + SIZEOF_header) h s = Inr s'"
    unfolding run0 by (simp only: s1_def [symmetric] s2(1) ebind_Inr s'(1))
  have min: "hstart h s + 0x70000 \<le> hend h s" using rdy by (simp add: shrink_ready_def)
  have "hstart h s + total (xs @ [(?d, True)]) = hstart h s + 0x70000" using small by simp
  then have "tiles (mem s') (hstart h s + 0x70000) (hstart h s) (xs @ [(?d, True)])"
    using tiles_agree [OF st(9), of "xs @ [(?d, True)]" "hstart h s + 0x70000"] s2(5) min less_imp_le [OF unat_lt_power [of "h_addr_end (heaps s h)"]]
    by simp
  then have ok': "heap_ok h (xs @ [(?d, True)]) s'"
    using st(1-8) s2(2-4) small okd(4,5,6) s'(3) els unfolding heap_ok_def Let_def
    by (simp add: holes_append a_def)
  have fr: "mem s' x = mem s x"
    if "x \<notin> W" "x \<notin> sa_region (h_index (heaps s h))" "\<not> (a \<le> unat x \<and> unat x < hend h s)" for x
    using st(10) [of x] that(2) s2(4) fr2 [OF that(1)] out [OF that(3)] that(3) min by auto
  show thesis by (rule that [OF run ok' _ _ fr]) (use st(2,4) s2(2,3) in simp_all)
qed

section \<open>An example\<close>

text \<open>
  A heap of 0x72000 bytes at 0x2000 with two blocks in use. The page directory is at 0x100000, its first page table at
  0x101000, and the bits of 256 frames at 0x102000.
\<close>

definition shrink_blocks :: "(nat \<times> bool) list" where
  "shrink_blocks = [(40, False)] @ [(466904, False)]"

definition shrink_heap :: vm_heap where
  "shrink_heap = \<lparr>h_index = \<lparr>sa_array = 0x1000, sa_size = 0, sa_maxsize = 4, sa_cmp = Some vm_heap_header_cmp\<rparr>,
     h_addr_start = 0x2000, h_addr_end = 0x74000, h_addr_max = 0x80000, h_su = 0, h_ro = 0\<rparr>"

definition shrink_example :: kmem where
  "shrink_example = boot_kmem\<lparr>mem := write32 0x100000 0x101000 (put_block 8192 40 False (put_block 8232 466904 False (\<lambda>_. 0))),
     kernel_heap := 0x500, heaps := (\<lambda>_. shrink_heap), kernel_directory := 0x100000, frames := 0x102000, nframes := 256\<rparr>"

lemma shrink_example_simps [simp]:
  "mem shrink_example = write32 0x100000 0x101000 (put_block 8192 40 False (put_block 8232 466904 False (\<lambda>_. 0)))"
  "heaps shrink_example = (\<lambda>_. shrink_heap)" "kernel_directory shrink_example = 0x100000"
  "frames shrink_example = 0x102000" "nframes shrink_example = 256"
  by (simp_all add: shrink_example_def)

lemma shrink_example_ok: "heap_ok h shrink_blocks shrink_example"
proof -
  have t: "tiles (mem shrink_example) 475136 8192 shrink_blocks"
    by (simp add: shrink_blocks_def block_at_def footer_at_def put_block_def field_defs read32_write32_apart)
  have s: "hstart h shrink_example = 8192" "hend h shrink_example = 475136" by (simp_all add: shrink_heap_def)
  show ?thesis
    unfolding heap_ok_def Let_def s
    using t by (simp add: shrink_heap_def sa_wf_def shrink_blocks_def sa_elems_def del: shrink_example_simps(1))
qed

lemma shrink_example_ready: "shrink_ready h (addr_range 0x101000 0x2000) shrink_example"
proof -
  let ?W = "addr_range 0x101000 0x2000"
  have rg: "x \<in> ?W \<longleftrightarrow> 0x101000 \<le> unat x \<and> unat x < 0x103000" for x
    using addr_range_nowrap [of "0x101000" "0x2000"] by simp
  have dg: "x \<in> addr_range 0x100000 4 \<longleftrightarrow> 0x100000 \<le> unat x \<and> unat x < 0x100004" for x
    using addr_range_nowrap [of "0x100000" 4] by simp
  have bits: "bitset_region shrink_example = addr_range 0x102000 32" by (simp add: bitset_region_def)
  have tab: "read32 (mem shrink_example) 0x100000 = 0x101000" by simp
  have sub: "addr_range (0x101000 + d) k \<subseteq> ?W" if "unat d + k \<le> 0x2000" for d k by (rule addr_sub [OF that]) simp
  have ready: "table_ready ?W (h_addr_start (heaps shrink_example h) + j) shrink_example
      \<and> directory_away h (h_addr_start (heaps shrink_example h) + j) shrink_example"
    if "0x70000 < unat j" "unat j < 0x72000" for j
  proof -
    let ?a = "0x2000 + j"
    have ua: "unat ?a = 8192 + unat j" using that by (subst unat_add_nowrap) simp_all
    have "unat (?a div 0x1000) = 2 + unat j div 4096" by (simp add: unat_div_distrib ua)
    moreover have "112 \<le> unat j div 4096" "unat j div 4096 < 114" using that by (simp_all add: div_less_iff_less_mult less_eq_div_iff_mult_less_eq)
    ultimately have "unat (?a div 0x1000) = 114 \<or> unat (?a div 0x1000) = 115" by linarith
    then have p: "?a div 0x1000 = 114 \<or> ?a div 0x1000 = 115" by (auto simp: word_unat_eq_iff)
    then have dir: "?a div 0x1000 div 1024 = 0" "?a div 0x1000 mod 1024 = ?a div 0x1000" by auto
    have t: "table_of ?a shrink_example = 0x101000" using tab dir by (simp add: table_of_def pd_tables_def del: shrink_example_simps(1))
    have e: "entry_of ?a shrink_example = 0x1011C8 \<or> entry_of ?a shrink_example = 0x1011CC"
      using p t dir by (auto simp: entry_of_def pt_pages_def)
    have "addr_range 0x100000 4 \<inter> ?W = {}" by (rule addr_range_disjoint) simp_all
    moreover have "addr_range (entry_of ?a shrink_example) 4 \<subseteq> ?W" using e sub [of "0x1C8" 4] sub [of "0x1CC" 4] by auto
    moreover have "addr_range (entry_of ?a shrink_example) 4 \<inter> addr_range 0x102000 32 = {}"
      using e addr_range_disjoint [of "0x1011C8" 4 "0x102000" 32] addr_range_disjoint [of "0x1011CC" 4 "0x102000" 32] by auto
    ultimately have "table_ready ?W ?a shrink_example"
      unfolding table_ready_def page_apart_def bits using t dir by (simp add: pd_tables_def del: addr_range_code shrink_example_simps(1))
    moreover have "directory_away h ?a shrink_example"
      unfolding directory_away_def using dir dg by (simp add: pd_tables_def shrink_heap_def del: addr_range_code shrink_example_simps(1))
    ultimately show ?thesis by (simp add: shrink_heap_def del: shrink_example_simps(1))
  qed
  have "sa_region (h_index shrink_heap) \<inter> ?W = {}"
    unfolding sa_region_def by (rule addr_range_disjoint) (simp_all add: shrink_heap_def)
  moreover have "\<forall>x \<in> ?W. \<not> (hstart h shrink_example \<le> unat x \<and> unat x < hend h shrink_example)"
  proof
    fix x assume "x \<in> ?W"
    then have "0x101000 \<le> unat x" using rg by blast
    then show "\<not> (hstart h shrink_example \<le> unat x \<and> unat x < hend h shrink_example)" by (simp add: shrink_heap_def)
  qed
  moreover have "bitset_region shrink_example \<subseteq> ?W" unfolding bits using sub [of "0x1000" 32] by simp
  moreover have "hend h shrink_example - hstart h shrink_example = 0x72000" "hstart h shrink_example + 0x70000 \<le> hend h shrink_example"
    by (simp_all add: shrink_heap_def)
  ultimately show ?thesis
    unfolding shrink_ready_def using ready by (simp add: bitset_wf_def nbits_def del: addr_range_code)
qed

section \<open>Properties\<close>

text \<open>
  C15: Freeing the last block of a heap of at least its minimum size moves the end of the heap down to exactly the minimum:
  the block becomes a hole up to the new end with a footer of its own, the index holds it, the heap is well formed and
  the contents of the other blocks stay. The conditions: the block begins, with its header and footer, below the minimum size
  (\<open>free_last_outside\<close> is the other case), a block in use or the start of the heap is in front of it, nothing behind the
  heap (nor in front of it, if the block is the first) looks like a hole, the index has room, and the frame bitset and the page tables of
  the released pages exist and lie outside the heap and its index.
\<close>
theorem free_last_contracts:
  fixes s :: "'a kmem_scheme"
  assumes "heap_ok h (xs @ [(n, False)]) s" "h \<noteq> 0" "left_used h xs s" "no_hole_above h s"
    and "sa_size (h_index (heaps s h)) < sa_maxsize (h_index (heaps s h))" "shrink_ready h W s" "total xs + 20 \<le> 0x70000"
  shows "\<exists>s'. free (of_nat (hstart h s + total xs) + SIZEOF_header) h s = Inr s'
    \<and> heap_ok h (xs @ [(0x70000 - total xs, True)]) s' \<and> hstart h s' = hstart h s \<and> hend h s' = hstart h s + 0x70000
    \<and> (\<forall>x q l. (q, l) \<in> set (payloads (hstart h s) xs) \<and> q \<le> unat x \<and> unat x < q + l \<longrightarrow> mem s' x = mem s x)"
proof -
  note ok = assms(1)
  obtain s' where r: "free (of_nat (hstart h s + total xs) + SIZEOF_header) h s = Inr s'"
    "heap_ok h (xs @ [(0x70000 - total xs, True)]) s'" "h_addr_start (heaps s' h) = h_addr_start (heaps s h)" "hend h s' = hstart h s + 0x70000"
    and fr: "\<And>x. x \<notin> W \<Longrightarrow> x \<notin> sa_region (h_index (heaps s h)) \<Longrightarrow>
      \<not> (hstart h s + total xs \<le> unat x \<and> unat x < hend h s) \<Longrightarrow> mem s' x = mem s x"
    by (rule free_last_ok [OF assms]) (rule that, assumption+)
  have "mem s' x = mem s x" if q: "(q, l) \<in> set (payloads (hstart h s) xs)" "q \<le> unat x" "unat x < q + l" for x q l
  proof (rule fr)
    have rng: "hstart h s \<le> unat x" "unat x < hstart h s + total xs"
      using payloads_range [OF heap_ok_split(4) [OF ok] q(1)] q(2,3) by simp_all
    then have "unat x < hend h s" using heap_ok_split(2) [OF ok] by simp
    then show "x \<notin> W" using rng assms(6) by (auto simp: shrink_ready_def)
    show "x \<notin> sa_region (h_index (heaps s h))" by (rule region_below [OF heap_okD(3,5) [OF ok] rng(1)])
    show "\<not> (hstart h s + total xs \<le> unat x \<and> unat x < hend h s)" using rng by simp
  qed
  then have "\<forall>x q l. (q, l) \<in> set (payloads (hstart h s) xs) \<and> q \<le> unat x \<and> unat x < q + l \<longrightarrow> mem s' x = mem s x" by blast
  then show ?thesis using r by auto
qed

theorem free_last_contracts_witness:
  "\<exists>s'. free (of_nat 8232 + SIZEOF_header) 0x500 shrink_example = Inr s' \<and> hend 0x500 s' = 0x72000
    \<and> blocks_of 0x500 s' = [(40, False), (458712, True)]"
proof -
  have st: "hstart 0x500 shrink_example + total [(40, False)] = 8232" "hstart 0x500 shrink_example = 8192"
    by (simp_all add: shrink_heap_def)
  have "hh_magic (mem shrink_example) 475136 = 0"
    by (simp add: put_block_def field_defs read32_write32_apart)
  then have above: "no_hole_above 0x500 shrink_example"
    by (simp add: no_hole_above_def shrink_heap_def heap_consts del: shrink_example_simps(1))
  have left: "left_used 0x500 [(40, False)] shrink_example" by (simp add: left_used_def)
  have room: "sa_size (h_index (heaps shrink_example 0x500)) < sa_maxsize (h_index (heaps shrink_example 0x500))"
    by (simp add: shrink_heap_def)
  have d: "0x70000 - total [(40 :: nat, False)] = 458712" by simp
  obtain s' where s': "free (of_nat 8232 + SIZEOF_header) 0x500 shrink_example = Inr s'"
    "heap_ok 0x500 ([(40, False)] @ [(458712, True)]) s'" "hend 0x500 s' = 8192 + 0x70000"
    using free_last_contracts [OF shrink_example_ok [unfolded shrink_blocks_def] _ left above room shrink_example_ready,
        unfolded st d] by auto
  then show ?thesis using heap_ok_blocks [OF s'(2)] by auto
qed

text \<open>
  A request for a size with bit 12 set contracts the heap to its minimum size, however many bytes were to be kept:
  the mask keeps bit 12 and drops all others.
\<close>
theorem contract_forgets_size:
  fixes s :: "'a kmem_scheme"
  assumes "shrink_ready h W s" "unat new < hend h s - hstart h s" "new AND 0x1000 \<noteq> 0"
  shows "\<exists>s'. contract new h s = Inr (VM_HEAP_MIN_SIZE, s') \<and> h_addr_end (heaps s' h) = h_addr_start (heaps s h) + VM_HEAP_MIN_SIZE
    \<and> (\<forall>x. x \<notin> W \<longrightarrow> mem s' x = mem s x)"
proof -
  obtain m where m: "contract new h s
      = Inr (VM_HEAP_MIN_SIZE, upd_heap h (\<lambda>hp. hp\<lparr>h_addr_end := h_addr_start hp + VM_HEAP_MIN_SIZE\<rparr>) (s\<lparr>mem := m\<rparr>))"
    "\<And>x. x \<notin> W \<Longrightarrow> m x = mem s x"
    by (rule contract_min [OF assms(1,2)]) (simp add: assms(3), rule that, assumption+)
  show ?thesis by (rule exI, intro conjI, rule m(1)) (use m(2) in simp_all)
qed

theorem contract_forgets_size_witness:
  "\<exists>s'. contract 0x71000 0x500 shrink_example = Inr (VM_HEAP_MIN_SIZE, s')"
  using contract_forgets_size [OF shrink_example_ready, of "0x71000" "0x500"] by (auto simp: shrink_heap_def)

end
