(* ===== verification/Heap_Release.thy ===== *)
theory Heap_Release
  imports Heap_Shrink Heap_Alloc
begin

text \<open>
  \<open>free\<close> of a last block that begins at or above the minimum size: the heap ends where the block began, and
  the address of the block, which is behind the end now, enters the index. A following \<open>alloc\<close> returns it.
\<close>

section \<open>Contraction to the block\<close>

text \<open>A request at or above the minimum with bit 12 clear is taken as it is; when less than a page goes away no page is freed.\<close>

lemma contract_exact:
  fixes s :: "'a kmem_scheme"
  assumes "hstart h s + b < hend h s" "hend h s \<le> hstart h s + b + 4096" "0x70000 \<le> b" "(of_nat b :: u32) AND 0x1000 = 0"
  shows "contract (of_nat b) h s = Inr (of_nat b, upd_heap h (\<lambda>hp. hp\<lparr>h_addr_end := h_addr_start hp + of_nat b\<rparr>) s)"
proof -
  have b: "unat (of_nat b :: u32) = b"
    using assms(1) unat_lt32 [of "h_addr_end (heaps s h)"] by (intro unat_of_nat32) linarith
  have l: "unat (heap_len h s) = hend h s - hstart h s" using assms(1) by (simp add: heap_len_def unat_sub_nowrap)
  have k: "kassert msg (of_nat b < heap_len h s) = Inr ()" for msg
    using assms(1) l b by (simp add: kassert_def word_less_nat_alt)
  have "unat (heap_len h s - 0x1000) = unat (heap_len h s) - 4096"
    using l assms(1,3) by (subst unat_sub_nowrap) simp_all
  then have stop: "\<not> of_nat b < heap_len h s - 0x1000" using l b assms(2) by (simp add: word_less_nat_alt)
  obtain f where f: "page_fuel = Suc f" by (simp add: page_fuel_def)
  have min: "\<not> of_nat b < VM_HEAP_MIN_SIZE" using b assms(3) by (simp add: VM_HEAP_MIN_SIZE_def word_less_nat_alt)
  show ?thesis
    unfolding contract_def k ebind_Inr Let_def f using stop min assms(4) by (simp add: upd_heap_def)
qed

lemma index_scan_absent:
  assumes "target \<notin> set (sa_elems ix m)"
  shows "index_scan ix m target 0 = Inr (sa_size ix)"
proof -
  obtain k where k: "index_scan ix m target 0 = Inr k" "k \<le> sa_size ix" "k < sa_size ix \<longrightarrow> sa_get ix m k = target"
    using index_scan_spec [of 0 ix m target] by auto
  have "\<not> k < sa_size ix"
  proof
    assume lt: "k < sa_size ix"
    then have "sa_elems ix m ! unat k = target" "unat k < length (sa_elems ix m)"
      using k(3) sa_elems_nth_word [OF lt, of m] by (simp_all add: word_less_nat_alt)
    then show False using assms nth_mem by metis
  qed
  then show ?thesis using k by simp
qed

section \<open>The entry that is left\<close>

lemma free_last_dangles:
  fixes s :: "'a kmem_scheme"
  assumes ok: "heap_ok h (xs @ [(n, False)]) s" and h: "h \<noteq> 0" and left: "left_used h xs s" and above: "no_hole_above h s"
    and room: "sa_size (h_index (heaps s h)) < sa_maxsize (h_index (heaps s h))"
    and big: "0x70000 \<le> total xs" "(of_nat (total xs) :: u32) AND 0x1000 = 0" "n \<le> 4096"
  defines "a \<equiv> hstart h s + total xs"
  obtains s' where "free (of_nat a + SIZEOF_header) h s = Inr s'" "hend h s' = a" "h_addr_start (heaps s' h) = h_addr_start (heaps s h)"
    "sa_wf (h_index (heaps s' h))" "sa_array (h_index (heaps s' h)) = sa_array (h_index (heaps s h))"
    "sa_maxsize (h_index (heaps s' h)) = sa_maxsize (h_index (heaps s h))" "sa_cmp (h_index (heaps s' h)) = sa_cmp (h_index (heaps s h))"
    "mset (sa_elems (h_index (heaps s' h)) (mem s')) = add_mset (of_nat a) (mset (map of_nat (holes (hstart h s) xs)))"
    "hh_size (mem s') (of_nat a) = of_nat n" "tiles (mem s') a (hstart h s) xs"
proof -
  note okd = heap_okD [OF ok] and sp = heap_ok_split [OF ok, folded a_def]
  obtain m where run0: "free (of_nat a + SIZEOF_header) h s
      = ebind (release_tail (of_nat a) (of_nat (a + n - 8)) (of_nat (a + n)) h (s\<lparr>mem := m\<rparr>)) (index_insert h (of_nat a))"
    and out: "\<And>x. \<not> (a \<le> unat x \<and> unat x < hend h s) \<Longrightarrow> m x = mem s x" and ag: "agree (hstart h s) a (mem s) m"
    and blk: "block_at m (hend h s) a n True" and an: "a + n = hend h s"
    by (rule free_last_stages [OF ok h left above, folded a_def]) (rule that, assumption+)
  let ?s1 = "s\<lparr>mem := m\<rparr>"
  let ?s2 = "upd_heap h (\<lambda>hp. hp\<lparr>h_addr_end := h_addr_start hp + of_nat (total xs)\<rparr>) ?s1"
  have e: "hstart h s + total xs < hend h s" "hend h s \<le> hstart h s + total xs + 4096" using an sp(1) big(3) by (simp_all add: a_def)
  have off: "of_nat a - h_addr_start (heaps s h) = (of_nat (total xs) :: u32)" by (simp add: a_def)
  have con: "contract (of_nat (total xs)) h ?s1 = Inr (of_nat (total xs), ?s2)"
    by (rule contract_exact) (use e big in simp_all)
  have plus: "of_nat (a + n - 8) + SIZEOF_footer = h_addr_end (heaps s h)"
    using footer_plus [of n a] sp(1) unfolding an by simp
  have "h_addr_end (heaps s h) = of_nat (a + n)" unfolding an by simp
  then have old: "heap_len h ?s1 - of_nat (total xs) = of_nat n" by (simp add: heap_len_def a_def)
  have size: "hh_size m (of_nat a) = of_nat n" using blk by (simp add: block_at_def)
  have hs: "set (sa_elems (h_index (heaps s h)) (mem s)) = of_nat ` set (holes (hstart h s) xs)"
    using index_set [OF ok] by (simp add: holes_append)
  have below: "unat (sa_array (h_index (heaps s h))) + 4 * unat (sa_maxsize (h_index (heaps s h))) \<le> a" using okd(5) by (simp add: a_def)
  have "agree 0 a (mem s) m" using out by (auto simp: agree_def)
  then have els: "sa_elems (h_index (heaps s h)) m = sa_elems (h_index (heaps s h)) (mem s)" by (rule index_agree [OF okd(3) below])
  have absent: "of_nat (a + n) \<notin> set (sa_elems (h_index (heaps s h)) m)"
  proof
    assume "of_nat (a + n) \<in> set (sa_elems (h_index (heaps s h)) m)"
    then obtain x where x: "x \<in> set (holes (hstart h s) xs)" "of_nat (a + n) = (of_nat x :: u32)" using els hs by auto
    have "x < a" using holes_below [OF x(1) sp(4)] by (simp add: a_def)
    moreover have "unat (of_nat x :: u32) = x" "unat (of_nat (a + n) :: u32) = a + n"
      using calculation sp(3) by (intro unat_of_nat32; simp)+
    ultimately show False using x(2) by simp
  qed
  have tail: "release_tail (of_nat a) (of_nat (a + n - 8)) (of_nat (a + n)) h ?s1 = Inr ?s2"
    unfolding release_tail_def Let_def plus off con[unfolded mem_update] mem_update
    by (simp add: old [simplified] size index_scan_absent [OF absent] del: of_nat_add)
  have w2: "sa_wf (h_index (heaps ?s2 h))" "sa_cmp (h_index (heaps ?s2 h)) = Some vm_heap_header_cmp"
    "sa_size (h_index (heaps ?s2 h)) < sa_maxsize (h_index (heaps ?s2 h))" using okd(3,4) room by simp_all
  have b2: "unat (sa_array (h_index (heaps ?s2 h))) + 4 * unat (sa_maxsize (h_index (heaps ?s2 h))) \<le> hstart h s" using okd(5) by simp
  obtain s' where s': "index_insert h (of_nat a) ?s2 = Inr s'" "index_step h ?s2 s'"
    "mset (sa_elems (h_index (heaps s' h)) (mem s')) = add_mset (of_nat a) (mset (sa_elems (h_index (heaps ?s2 h)) (mem ?s2)))"
    by (rule index_insert_ok [OF w2])
  note st = index_stepD [OF s'(2) w2(1) b2]
  have run: "free (of_nat a + SIZEOF_header) h s = Inr s'" unfolding run0 tail ebind_Inr by (rule s'(1))
  have lt: "a < 2 ^ 32" "a + 12 \<le> 2 ^ 32" using sp(1,3) by linarith+
  have a32: "unat (of_nat a :: u32) = a" by (rule unat_of_nat32) (use lt in simp)
  have end': "hend h s' = a"
    using st(2) a32 by (simp add: a_def)
  have els': "mset (sa_elems (h_index (heaps s' h)) (mem s')) = add_mset (of_nat a) (mset (map of_nat (holes (hstart h s) xs)))"
    using s'(3) els okd(6) by (simp add: holes_append)
  have "agree (hstart h s) (a + 12) m (mem s')" using st(9) by simp
  then have size': "hh_size (mem s') (of_nat a) = of_nat n"
    using header_agree(3) [of "hstart h s" "a + 12" m "mem s'" a] size lt(2) by (simp add: a_def)
  have "agree (hstart h s) a (mem s) (mem s')" using agree_trans [OF ag] st(9) by simp
  moreover have "tiles (mem s) a (hstart h s) xs" by (rule tiles_end [OF sp(4)]) (use an sp(1) in \<open>simp add: a_def\<close>)
  ultimately have til: "tiles (mem s') a (hstart h s) xs"
    using tiles_agree [of "hstart h s" xs "mem s" "mem s'" a] lt(2) by (simp add: a_def)
  show thesis
    by (rule that [OF run end' _ _ _ _ _ els' size' til]) (use st in simp_all)
qed

text \<open>The next \<open>alloc\<close> that only this entry fits takes it: the block is carved behind the end of the heap.\<close>

lemma alloc_outside:
  fixes s :: "'a kmem_scheme"
  assumes ix: "sa_wf (h_index (heaps s h))" "sa_cmp (h_index (heaps s h)) = Some vm_heap_header_cmp"
    and below: "unat (sa_array (h_index (heaps s h))) + 4 * unat (sa_maxsize (h_index (heaps s h))) \<le> a"
    and els: "mset (sa_elems (h_index (heaps s h)) (mem s)) = add_mset (of_nat a) (mset (map of_nat (holes b xs)))"
    and size: "hh_size (mem s) (of_nat a) = of_nat n" and til: "tiles (mem s) e b xs" "b + total xs \<le> 2 ^ 32"
    and n: "20 \<le> n" "n < 2 ^ 32" "unat sz + 20 \<le> n" "n < unat sz + 40"
    and only: "\<forall>m. (m, True) \<in> set xs \<longrightarrow> m < unat sz + 20"
  obtains s' where "alloc (Suc k) sz 0 h s = Inr (of_nat a + SIZEOF_header, s')" "h_addr_end (heaps s' h) = h_addr_end (heaps s h)"
proof -
  let ?w = "sz + SIZEOF_header + SIZEOF_footer" and ?es = "sa_elems (h_index (heaps s h)) (mem s)"
  have uw: "unat ?w = unat sz + 20" using n(2,3) by (intro new_size_nat) linarith
  have fit: "hole_fits ?w 0 (mem s) (of_nat a)"
    unfolding hole_fits_def size using n(2,3) uw by (simp add: word_le_nat_alt unat_of_nat32)
  have set: "set ?es = insert (of_nat a) (of_nat ` set (holes b xs))" using arg_cong [OF els, of set_mset] by simp
  have tight: "\<not> hole_fits ?w 0 (mem s) (of_nat x)" if x: "x \<in> set (holes b xs)" for x
  proof -
    obtain us m vs where sp: "xs = us @ (m, True) # vs" "x = b + total us" using holes_split [OF x] by blast
    have "hh_size (mem s) (of_nat x) = of_nat m" using til(1) by (simp add: sp tiles_append block_at_def)
    moreover have "m < 2 ^ 32" "m < unat ?w" using only uw sp(1) n(2,3) by auto
    ultimately show ?thesis by (simp add: hole_fits_def word_le_nat_alt unat_of_nat32)
  qed
  have elem: "el = of_nat a" if "el \<in> set ?es" "hole_fits ?w 0 (mem s) el" for el using that set tight by auto
  obtain i where i0: "i < length ?es" "?es ! i = of_nat a" using set by (metis in_set_conv_nth insertI1)
  then have "\<not> (\<forall>j < length ?es. \<not> hole_fits ?w 0 (mem s) (?es ! j))" using fit by auto
  then obtain j where j: "j < length ?es" "hole_fits ?w 0 (mem s) (?es ! j)" "find_smallest_hole ?w 0 (heaps s h) (mem s) = Inr (of_nat j)"
    "of_nat j \<noteq> (-1 :: u32)"
    using find_smallest_hole_spec [OF ix(1), where sz = ?w and pa = 0 and m = "mem s"] by blast
  have ja: "?es ! j = of_nat a" using elem [OF nth_mem [OF j(1)] j(2)] .
  have "j < 4294967296" using j(1) unat_lt32 [of "sa_size (h_index (heaps s h))"] unfolding length_sa_elems by linarith
  then have j32: "unat (of_nat j :: u32) = j" by (rule unat_of_nat32)
  have i: "of_nat j < sa_size (h_index (heaps s h))" using j(1) j32 by (simp add: word_less_nat_alt)
  obtain s1 where s1: "index_remove h (of_nat j) s = Inr s1" "index_step h s s1"
    using index_remove_ok [OF ix i] by metis
  have look: "lookup_sorted_array (h_index (heaps s h)) (of_nat j) (mem s) = Inr (of_nat a)"
    using j(1) ja j32 by (simp add: lookup_sorted_array_eq)
  have small: "n - (unat sz + 20) < 20" using n(4) by simp
  have step: "alloc (Suc k) sz 0 h s = alloc_carve sz ?w 0 (of_nat j) h s" using j(3,4) by (simp add: Let_def)
  show thesis
    by (rule that [of "s1\<lparr>mem := put_block a n False (mem s1)\<rparr>"])
      (use small index_stepD(5) [OF s1(2) ix(1) below] in
        \<open>simp_all only: step alloc_carve_eq [OF look size refl n(3,2) s1(1)] carve_block_full [OF n(1)] if_True mem_update\<close>)
qed

section \<open>Properties\<close>

text \<open>A heap of 0x70064 bytes at 0x2000 with two blocks in use: 0x70000 bytes, and 100 bytes behind them.\<close>

definition release_example :: kmem where
  "release_example = boot_kmem\<lparr>mem := put_block 8192 458752 False (put_block 466944 100 False (\<lambda>_. 0)), kernel_heap := 0x500,
     heaps := (\<lambda>_. \<lparr>h_index = \<lparr>sa_array = 0x1000, sa_size = 0, sa_maxsize = 4, sa_cmp = Some vm_heap_header_cmp\<rparr>,
       h_addr_start = 0x2000, h_addr_end = 0x72064, h_addr_max = 0x80000, h_su = 0, h_ro = 0\<rparr>)\<rparr>"

lemma release_example_ok: "heap_ok h ([(458752, False)] @ [(100, False)]) release_example"
proof -
  have t: "tiles (mem release_example) 467044 8192 ([(458752, False)] @ [(100, False)])"
    by (simp add: release_example_def block_at_def footer_at_def put_block_def field_defs read32_write32_apart)
  have s: "hstart h release_example = 8192" "hend h release_example = 467044" by (simp_all add: release_example_def)
  show ?thesis
    unfolding heap_ok_def Let_def s using t by (simp add: release_example_def sa_wf_def sa_elems_def)
qed

text \<open>
  C38: Freeing the last block of a heap, when it begins at or above the minimum size, moves the end of the heap to the
  address of the block and leaves that address in the index: the code looks for the header behind the block instead of
  the block itself. The next \<open>alloc\<close> of a size that fits the block and none of the holes returns the freed address
  again, which is behind the end of the heap, and the heap does not grow.
\<close>
theorem free_last_outside:
  fixes s :: "'a kmem_scheme"
  assumes "heap_ok h (xs @ [(n, False)]) s" "h \<noteq> 0" "left_used h xs s" "no_hole_above h s"
    and "sa_size (h_index (heaps s h)) < sa_maxsize (h_index (heaps s h))"
    and "0x70000 \<le> total xs" "(of_nat (total xs) :: u32) AND 0x1000 = 0" "n \<le> 4096"
    and "unat sz + 20 \<le> n" "n < unat sz + 40" "\<forall>m. (m, True) \<in> set xs \<longrightarrow> m < unat sz + 20"
  shows "\<exists>p s' s''. unat p = hstart h s + total xs + 12 \<and> free p h s = Inr s' \<and> hend h s' = hstart h s + total xs
    \<and> alloc (Suc k) sz 0 h s' = Inr (p, s'') \<and> hend h s'' < unat p"
proof -
  let ?a = "hstart h s + total xs"
  note okd = heap_okD [OF assms(1)] and sp = heap_ok_split [OF assms(1)]
  have fit: "?a < 2 ^ 32" "?a + 12 < 2 ^ 32" "n < 2 ^ 32" "?a \<le> 2 ^ 32" using sp(1,3) by linarith+
  obtain s' where f: "free (of_nat ?a + SIZEOF_header) h s = Inr s'" "hend h s' = ?a" "h_addr_start (heaps s' h) = h_addr_start (heaps s h)"
    "sa_wf (h_index (heaps s' h))" "sa_array (h_index (heaps s' h)) = sa_array (h_index (heaps s h))"
    "sa_maxsize (h_index (heaps s' h)) = sa_maxsize (h_index (heaps s h))" "sa_cmp (h_index (heaps s' h)) = sa_cmp (h_index (heaps s h))"
    "mset (sa_elems (h_index (heaps s' h)) (mem s')) = add_mset (of_nat ?a) (mset (map of_nat (holes (hstart h s) xs)))"
    "hh_size (mem s') (of_nat ?a) = of_nat n" "tiles (mem s') ?a (hstart h s) xs"
    by (rule free_last_dangles [OF assms(1-8)]) (rule that, assumption+)
  have x: "sa_cmp (h_index (heaps s' h)) = Some vm_heap_header_cmp"
    "unat (sa_array (h_index (heaps s' h))) + 4 * unat (sa_maxsize (h_index (heaps s' h))) \<le> ?a"
    using f(5-7) okd(4,5) by simp_all
  obtain s'' where c: "alloc (Suc k) sz 0 h s' = Inr (of_nat ?a + SIZEOF_header, s'')" "h_addr_end (heaps s'' h) = h_addr_end (heaps s' h)"
    by (rule alloc_outside [OF f(4) x f(8-10) fit(4) sp(1) fit(3) assms(9-11)]) (rule that, assumption+)
  have "of_nat ?a + SIZEOF_header = (of_nat (?a + 12) :: u32)" by (simp add: SIZEOF_header_def)
  then have p: "unat (of_nat ?a + SIZEOF_header :: u32) = ?a + 12" using unat_of_nat32 [of "?a + 12"] fit(2) by simp
  have "hend h s'' < ?a + 12" using c(2) f(2) by simp
  then show ?thesis using p f(1,2) c(1) by metis
qed

theorem free_last_outside_witness:
  "\<exists>p s' s''. free p 0x500 release_example = Inr s' \<and> hend 0x500 s' = 466944
    \<and> alloc 1 80 0 0x500 s' = Inr (p, s'') \<and> hend 0x500 s'' < unat p"
proof -
  have st: "hstart 0x500 release_example = 8192" "total [(458752 :: nat, False)] = 458752" by (simp_all add: release_example_def)
  have "hh_magic (mem release_example) 467044 = 0"
    by (simp add: release_example_def put_block_def field_defs read32_write32_apart)
  then have above: "no_hole_above 0x500 release_example"
    by (simp add: no_hole_above_def release_example_def heap_consts)
  have left: "left_used 0x500 [(458752, False)] release_example" by (simp add: left_used_def)
  show ?thesis
    using free_last_outside [OF release_example_ok _ left above, where sz = 80 and k = 0] unfolding st
    by (force simp: release_example_def)
qed

end
