(* ===== verification/Heap_Spec.thy ===== *)
theory Heap_Spec
  imports Heap_Client
begin

text \<open>
  What the heap is to its clients: a set of separate blocks with contents. A client takes blocks, releases them and writes words
  into them; the abstract state \<open>(L, M)\<close> has the blocks in use and the bytes inside them, and says nothing of headers, holes or
  the index. Every sequence of operations on an allocator with the laws of \<open>block_client\<close> is a run of this specification.
\<close>

section \<open>Clients\<close>

datatype client_op = Get u32 | Put u32 | Store u32 u32

fun run_client ::
  "(u32 \<Rightarrow> 's \<Rightarrow> kerror + u32 \<times> 's) \<Rightarrow> (u32 \<Rightarrow> 's \<Rightarrow> kerror + 's) \<Rightarrow> ('s \<Rightarrow> mem) \<Rightarrow> (mem \<Rightarrow> 's \<Rightarrow> 's) \<Rightarrow> client_op list \<Rightarrow> 's \<Rightarrow> kerror + 's" where
  "run_client get put memory set_memory [] s = Inr s"
| "run_client get put memory set_memory (Get sz # ops) s = ebind (get sz s) (\<lambda>(p, s). run_client get put memory set_memory ops s)"
| "run_client get put memory set_memory (Put p # ops) s = ebind (put p s) (run_client get put memory set_memory ops)"
| "run_client get put memory set_memory (Store a v # ops) s =
     run_client get put memory set_memory ops (set_memory (write32 a v (memory s)) s)"

lemma run_client_Cons:
  "run_client get put memory set_memory [opn] s = Inr s1 \<Longrightarrow>
     run_client get put memory set_memory (opn # ops) s = run_client get put memory set_memory ops s1"
  by (cases opn) (auto elim!: ebind_eq_InrE split: prod.splits)

text \<open>The conditions under which the laws of the allocator apply, along the run: a hole fits, the block is in use and can be
  released, the word lies in a block in use.\<close>

definition op_allowed ::
  "(u32 \<Rightarrow> 's \<Rightarrow> bool) \<Rightarrow> (u32 \<Rightarrow> 's \<Rightarrow> bool) \<Rightarrow> ('s \<Rightarrow> (nat \<times> nat) set) \<Rightarrow> client_op \<Rightarrow> 's \<Rightarrow> bool" where
  "op_allowed can may_put live opn s =
     (case opn of Get sz \<Rightarrow> can sz s | Put p \<Rightarrow> may_put p s \<and> unat p \<in> fst ` live s | Store a v \<Rightarrow> in_blocks (live s) a 4)"

fun client_allowed :: "(client_op \<Rightarrow> 's \<Rightarrow> bool) \<Rightarrow> (client_op list \<Rightarrow> 's \<Rightarrow> kerror + 's) \<Rightarrow> client_op list \<Rightarrow> 's \<Rightarrow> bool" where
  "client_allowed allowed run [] s \<longleftrightarrow> True"
| "client_allowed allowed run (opn # ops) s \<longleftrightarrow>
     allowed opn s \<and> (case run [opn] s of Inl e \<Rightarrow> True | Inr s' \<Rightarrow> client_allowed allowed run ops s')"

section \<open>The specification\<close>

type_synonym block_state = "(nat \<times> nat) set \<times> (u32 \<rightharpoonup> u8)"

definition block_bytes :: "nat \<times> nat \<Rightarrow> u32 set" where
  "block_bytes b = {x. fst b \<le> unat x \<and> unat x < fst b + snd b}"

definition blocks_bytes :: "(nat \<times> nat) set \<Rightarrow> u32 set" where
  "blocks_bytes L = (\<Union>b \<in> L. block_bytes b)"

inductive block_step :: "client_op \<Rightarrow> block_state \<Rightarrow> block_state \<Rightarrow> bool" where
  step_get: "(p :: u32) \<noteq> 0 \<Longrightarrow> unat sz \<le> l \<Longrightarrow> (unat p, l) \<notin> L \<Longrightarrow> blocks_apart (insert (unat p, l) L) \<Longrightarrow>
     dom M' = dom M \<union> block_bytes (unat p, l) \<Longrightarrow> M \<subseteq>\<^sub>m M' \<Longrightarrow> block_step (Get sz) (L, M) (insert (unat p, l) L, M')"
| step_put: "(unat p, l) \<in> L \<Longrightarrow> block_step (Put p) (L, M) (L - {(unat p, l)}, M |` (- block_bytes (unat p, l)))"
| step_store: "in_blocks L a 4 \<Longrightarrow> block_step (Store a v) (L, M) (L, M ++ ((\<lambda>x. Some (write32 a v (\<lambda>_. 0) x)) |` addr_range a 4))"

inductive block_run :: "client_op list \<Rightarrow> block_state \<Rightarrow> block_state \<Rightarrow> bool" where
  run_nil: "block_run [] A A"
| run_cons: "block_step opn A A1 \<Longrightarrow> block_run ops A1 A2 \<Longrightarrow> block_run (opn # ops) A A2"

inductive_cases block_getE: "block_step (Get sz) A A'"
inductive_cases block_putE: "block_step (Put p) A A'"
inductive_cases block_storeE: "block_step (Store a v) A A'"
inductive_simps block_run_simps: "block_run [] A A'" "block_run (opn # ops) A A'"

text \<open>The blocks and their contents in a state of the allocator.\<close>

definition abs_blocks :: "(nat \<times> nat) set \<Rightarrow> mem \<Rightarrow> block_state" where
  "abs_blocks L m = (L, (\<lambda>x. Some (m x)) |` blocks_bytes L)"

section \<open>Simulation\<close>

lemma block_bytes_cover: "x \<in> blocks_bytes L \<longleftrightarrow> (\<exists>b \<in> L. fst b \<le> unat x \<and> unat x < fst b + snd b)"
  by (auto simp: blocks_bytes_def block_bytes_def)

lemma keeps_bytes: "(\<forall>b \<in> L. keeps_block m m' b) \<Longrightarrow> x \<in> blocks_bytes L \<Longrightarrow> m' x = m x"
  by (auto simp: block_bytes_cover keeps_block_def)

lemma blocks_apart_bytes:
  assumes "blocks_apart L" "b \<in> L"
  shows "blocks_bytes (L - {b}) = blocks_bytes L - block_bytes b"
proof -
  have "block_bytes c \<inter> block_bytes b = {}" if "c \<in> L" "c \<noteq> b" for c
    using assms that unfolding blocks_apart_def block_bytes_def by fastforce
  then show ?thesis using assms(2) unfolding blocks_bytes_def by blast
qed

lemma write32_bytes: "x \<in> addr_range a 4 \<Longrightarrow> write32 a v m x = write32 a v (\<lambda>_. 0) x"
  unfolding range4 by (auto simp: write32_def)

context block_client
begin

lemma client_step:
  assumes good: "good s" and ok: "op_allowed can may_put live opn s"
  shows "\<exists>s'. run_client get put memory set_memory [opn] s = Inr s' \<and> good s'
    \<and> block_step opn (abs_blocks (live s) (memory s)) (abs_blocks (live s') (memory s'))"
proof (cases opn)
  case (Get sz)
  obtain p l s' where g: "get sz s = Inr (p, s')" "good s'" "p \<noteq> 0" "unat sz \<le> l" "live s' = insert (unat p, l) (live s)"
    "(unat p, l) \<notin> live s" "\<forall>b \<in> live s. keeps_block (memory s) (memory s') b"
    using get_law [OF good, of sz] ok by (auto simp: op_allowed_def Get)
  have "blocks_bytes (live s') = blocks_bytes (live s) \<union> block_bytes (unat p, l)" by (auto simp: g(5) blocks_bytes_def)
  then have "block_step opn (abs_blocks (live s) (memory s)) (abs_blocks (live s') (memory s'))"
    unfolding Get abs_blocks_def g(5)
    by (intro step_get g(3,4,6) live_apart [OF g(2), unfolded g(5)])
      (auto simp: map_le_def restrict_map_def keeps_bytes [OF g(7)] g(5) split: if_splits)
  then show ?thesis using g by (auto simp: Get)
next
  case (Put p)
  obtain l where l: "may_put p s" "(unat p, l) \<in> live s" using ok by (auto simp: op_allowed_def Put)
  obtain s' where p: "put p s = Inr s'" "good s'" "live s' = live s - {(unat p, l)}" "\<forall>b \<in> live s'. keeps_block (memory s) (memory s') b"
    using put_law [OF good l] by blast
  have "blocks_bytes (live s') = blocks_bytes (live s) - block_bytes (unat p, l)"
    unfolding p(3) by (rule blocks_apart_bytes [OF live_apart [OF good] l(2)])
  then have "(\<lambda>x. Some (memory s' x)) |` blocks_bytes (live s') = (\<lambda>x. Some (memory s x)) |` blocks_bytes (live s) |` (- block_bytes (unat p, l))"
    using keeps_bytes [OF p(4)] by (auto simp: restrict_map_def fun_eq_iff)
  then have "block_step opn (abs_blocks (live s) (memory s)) (abs_blocks (live s') (memory s'))"
    using step_put [OF l(2), of "(\<lambda>x. Some (memory s x)) |` blocks_bytes (live s)"] unfolding Put abs_blocks_def p(3) by metis
  then show ?thesis using p by (auto simp: Put)
next
  case (Store a v)
  let ?m = "write32 a v (memory s)"
  have a: "in_blocks (live s) a 4" using ok by (simp add: op_allowed_def Store)
  have "\<exists>b \<in> live s. fst b \<le> unat x \<and> unat x < fst b + snd b" if "?m x \<noteq> memory s x" for x
    using in_blocks_range [OF good a] write32_outside [of x a v "memory s"] that by blast
  then have st: "good (set_memory ?m s)" "live (set_memory ?m s) = live s" using store_law [OF good, of ?m] by blast+
  have "addr_range a 4 \<subseteq> blocks_bytes (live s)" using in_blocks_range [OF good a] by (auto simp: block_bytes_cover simp del: addr_range_code)
  then have "(\<lambda>x. Some (?m x)) |` blocks_bytes (live s)
      = (\<lambda>x. Some (memory s x)) |` blocks_bytes (live s) ++ ((\<lambda>x. Some (write32 a v (\<lambda>_. 0) x)) |` addr_range a 4)"
    using write32_outside [of _ a v "memory s"] write32_bytes [of _ a v "memory s"]
    by (auto simp: restrict_map_def map_add_def fun_eq_iff simp del: addr_range_code)
  then have "block_step opn (abs_blocks (live s) (memory s)) (abs_blocks (live s) ?m)"
    unfolding Store abs_blocks_def using step_store [OF a] by simp
  then show ?thesis using st memory_set by (simp add: Store)
qed

lemma client_refines:
  assumes "good s" "client_allowed (op_allowed can may_put live) (run_client get put memory set_memory) ops s"
  shows "\<exists>s'. run_client get put memory set_memory ops s = Inr s' \<and> good s'
    \<and> block_run ops (abs_blocks (live s) (memory s)) (abs_blocks (live s') (memory s'))"
  using assms
proof (induction ops arbitrary: s)
  case Nil
  then show ?case by (simp add: block_run_simps)
next
  case (Cons opn ops)
  obtain s1 where s1: "run_client get put memory set_memory [opn] s = Inr s1" "good s1"
    "block_step opn (abs_blocks (live s) (memory s)) (abs_blocks (live s1) (memory s1))"
    using client_step [OF Cons.prems(1), of opn] Cons.prems(2) by auto
  obtain s' where s': "run_client get put memory set_memory ops s1 = Inr s'" "good s'"
    "block_run ops (abs_blocks (live s1) (memory s1)) (abs_blocks (live s') (memory s'))"
    using Cons.IH [OF s1(2)] Cons.prems(2) s1(1) by auto
  have "run_client get put memory set_memory (opn # ops) s = run_client get put memory set_memory ops s1"
    using s1(1) by (rule run_client_Cons)
  then show ?case using s' run_cons [OF s1(3)] by auto
qed

end

section \<open>Runs of the specification\<close>

lemma block_step_apart:
  assumes "block_step opn (L, M) (L', M')" "blocks_apart L"
  shows "blocks_apart L'"
  using assms by cases (auto simp: blocks_apart_def)

text \<open>Memory after the stores of a client, and nothing else.\<close>

fun stored :: "client_op list \<Rightarrow> mem \<Rightarrow> mem" where
  "stored [] m = m"
| "stored (Get sz # ops) m = stored ops m"
| "stored (Put p # ops) m = stored ops m"
| "stored (Store a v # ops) m = stored ops (write32 a v m)"

text \<open>A block that is not released has the bytes it had, with the client's stores.\<close>

lemma block_step_keeps:
  assumes "block_step opn (L, M) (L', M')" "blocks_apart L" "b \<in> L" "\<forall>x \<in> block_bytes b. M x = Some (m x)"
    and "\<And>p. opn = Put p \<Longrightarrow> unat p \<noteq> fst b"
  shows "b \<in> L' \<and> (\<forall>x \<in> block_bytes b. M' x = Some (stored [opn] m x))"
  using assms(1)
proof cases
  case (step_get p sz l)
  then show ?thesis using assms(3,4) by (auto simp: map_le_def dom_def)
next
  case (step_put p l)
  have ne: "b \<noteq> (unat p, l)" using assms(5) step_put(1) by auto
  have "block_bytes b \<inter> block_bytes (unat p, l) = {}"
    using assms(2,3) step_put(4) ne unfolding blocks_apart_def block_bytes_def by fastforce
  then show ?thesis using step_put ne assms(3,4) by (auto simp: restrict_map_def disjoint_iff)
next
  case (step_store a v)
  have "M' x = Some (write32 a v m x)" if "x \<in> block_bytes b" for x
    using that assms(4) step_store(3) write32_bytes [of x a v m] write32_outside [of x a v m]
    by (cases "x \<in> addr_range a 4") (simp_all add: map_add_def restrict_map_def del: addr_range_code)
  then show ?thesis using step_store(1,2) assms(3) by simp
qed

lemma stored_Cons: "stored (opn # ops) m = stored ops (stored [opn] m)"
  by (cases opn) simp_all

lemma block_run_keeps:
  assumes "block_run ops A A'" "blocks_apart (fst A)" "b \<in> fst A" "\<forall>x \<in> block_bytes b. snd A x = Some (m x)"
    and "\<forall>p. Put p \<in> set ops \<longrightarrow> unat p \<noteq> fst b"
  shows "b \<in> fst A' \<and> (\<forall>x \<in> block_bytes b. snd A' x = Some (stored ops m x))"
  using assms
proof (induction arbitrary: m rule: block_run.induct)
  case (run_cons opn A A1 ops A2)
  obtain L M L1 M1 where A: "A = (L, M)" "A1 = (L1, M1)" by (cases A; cases A1) auto
  note step = run_cons.hyps(1) [unfolded A]
  have "b \<in> L1 \<and> (\<forall>x \<in> block_bytes b. M1 x = Some (stored [opn] m x))"
    by (rule block_step_keeps [OF step]) (use run_cons.prems A in auto)
  then show ?case
    using run_cons.IH [of "stored [opn] m"] run_cons.prems block_step_apart [OF step] A unfolding stored_Cons [of opn ops m] by simp
qed simp

lemma abs_block_bytes: "b \<in> L \<Longrightarrow> x \<in> block_bytes b \<Longrightarrow> snd (abs_blocks L m) x = Some (m x)"
  by (auto simp: abs_blocks_def restrict_map_def blocks_bytes_def)

section \<open>The kernel heap\<close>

abbreviation heap_run :: "nat \<Rightarrow> client_op list \<Rightarrow> 'a kmem_scheme \<Rightarrow> kerror + 'a kmem_scheme" where
  "heap_run n \<equiv> run_client (kmalloc (Suc n)) kfree mem (\<lambda>m s. s\<lparr>mem := m\<rparr>)"

abbreviation heap_allowed :: "nat \<Rightarrow> client_op list \<Rightarrow> 'a kmem_scheme \<Rightarrow> bool" where
  "heap_allowed n \<equiv> client_allowed (op_allowed kheap_can kheap_may_put kheap_live) (heap_run n)"

abbreviation heap_blocks :: "'a kmem_scheme \<Rightarrow> block_state" where
  "heap_blocks s \<equiv> abs_blocks (kheap_live s) (mem s)"

section \<open>Properties\<close>

text \<open>
  C12: The kernel heap implements separate blocks with contents, for the clients in \<open>heap_allowed\<close>: sequences of \<open>kmalloc\<close>, \<open>kfree\<close> and
  stores in which each request fits a hole of the heap at that point, each released block is in use and in front of a block in use (and, when no hole is in
  front of it, the index has room and nothing in front of the heap looks like the footer of a hole), and each store lies in a block in use. Such a sequence succeeds, keeps the invariant of
  the heap, and is a run of the specification: a block handed out is at least as long as asked for and apart from all others, a
  release removes one block, a store changes its four bytes and nothing else.
\<close>
theorem heap_refines_blocks:
  fixes s :: "'a kmem_scheme"
  assumes "kheap_good s" "heap_allowed n ops s"
  shows "\<exists>s'. heap_run n ops s = Inr s' \<and> kheap_good s' \<and> block_run ops (heap_blocks s) (heap_blocks s')"
  using assms by (rule kclient.client_refines)

text \<open>A client that releases the block at 8244, takes a new one and stores into the block at 8284.\<close>

lemma example_kheap:
  "kheap_good example_heap" "kheap_live example_heap = {(8244, 20), (8284, 20), (8324, 20), (8404, 20)}"
proof -
  have b: "blocks_of 0x500 example_heap = example_blocks" by (rule heap_ok_blocks [OF example_heap_ok])
  show "kheap_good example_heap" using example_heap_ok by (simp add: kheap_good_def b)
  show "kheap_live example_heap = {(8244, 20), (8284, 20), (8324, 20), (8404, 20)}"
    by (simp add: kheap_live_def b) (simp add: example_vm_heap_def example_blocks_def)
qed

lemma example_put:
  obtains s1 where "kheap_may_put 8244 example_heap" "kfree 8244 example_heap = Inr s1" "kheap_good s1"
    "kheap_live s1 = {(8284, 20), (8324, 20), (8404, 20)}" "kheap_can 8 s1"
proof -
  have b: "blocks_of 0x500 example_heap = example_blocks" by (rule heap_ok_blocks [OF example_heap_ok])
  have may: "kheap_may_put 8244 example_heap"
    unfolding kheap_may_put_def
    by (intro exI [of _ "[(40, True)]"] exI [of _ 40] exI [of _ "[(40, False), (40, True), (40, False)]"])
      (simp add: b, simp add: example_blocks_def example_vm_heap_def SIZEOF_header_def)
  obtain s1 where s1: "free (of_nat (hstart 0x500 example_heap + total [] + 40) + SIZEOF_header) 0x500 example_heap = Inr s1"
    "heap_ok 0x500 ([] @ (40 + 40, True) # (40, False) # [(40, False), (40, True), (40, False)]) s1"
    by (rule free_left_ok [OF example_heap_ok [of "0x500", unfolded example_split(2)]]) auto
  have p: "of_nat (hstart 0x500 example_heap + total [] + 40) + SIZEOF_header = (8244 :: u32)"
    by (simp add: example_vm_heap_def SIZEOF_header_def)
  have run: "kfree 8244 example_heap = Inr s1" using s1(1) unfolding p by (simp add: kfree_def)
  have "(unat (8244 :: u32), 20) \<in> kheap_live example_heap" by (simp add: example_kheap(2))
  from kheap_put_law [OF example_kheap(1) may this] obtain t where t: "kfree 8244 example_heap = Inr t" "kheap_good t"
    "kheap_live t = kheap_live example_heap - {(8244, 20)}" "only_heap example_heap t" by auto
  have "t = s1" using run t(1) by simp
  moreover have "kernel_heap t = 0x500" using only_heapD(1) [OF t(4)] by simp
  ultimately have "kheap_can 8 t" using heap_ok_blocks [OF s1(2)] by (simp add: kheap_can_def)
  then show thesis using that [of t] may t(1-3) by (auto simp: example_kheap(2))
qed

abbreviation example_client :: "client_op list" where
  "example_client \<equiv> [Put 8244, Get 8, Store 8288 7]"

lemma example_allowed: "heap_allowed 0 example_client example_heap"
proof -
  obtain s1 where s1: "kheap_may_put 8244 example_heap" "kfree 8244 example_heap = Inr s1" "kheap_good s1"
    "kheap_live s1 = {(8284, 20), (8324, 20), (8404, 20)}" "kheap_can 8 s1"
    by (rule example_put)
  obtain p l s2 where s2: "kmalloc 1 8 s1 = Inr (p, s2)" "kheap_live s2 = insert (unat p, l) (kheap_live s1)"
    using kheap.get_law [OF s1(3,5), of 0] by auto
  have "in_blocks (kheap_live s2) 8288 4" by (simp add: in_blocks_def s1(4) s2(2))
  then show ?thesis using s1 s2(1) by (simp add: op_allowed_def example_kheap(2))
qed

theorem heap_refines_blocks_witness:
  "\<exists>s'. heap_run 0 example_client example_heap = Inr s' \<and> kheap_good s'
    \<and> block_run example_client (heap_blocks example_heap) (heap_blocks s')"
  by (rule heap_refines_blocks [OF example_kheap(1) example_allowed])

text \<open>
  C13: Memory safety of the heap, for the sequences of \<open>heap_allowed\<close>: a block in use that the sequence does not release
  stays in use, and at the end each of its bytes is what the stores of the sequence, applied to the memory at the beginning, make of
  it. So requests, releases and the stores into other blocks never change it.
\<close>
theorem heap_block_survives:
  fixes s s' :: "'a kmem_scheme"
  assumes "kheap_good s" "heap_allowed n ops s" "heap_run n ops s = Inr s'"
    and "b \<in> kheap_live s" "\<forall>p. Put p \<in> set ops \<longrightarrow> unat p \<noteq> fst b"
  shows "b \<in> kheap_live s' \<and> (\<forall>x. fst b \<le> unat x \<and> unat x < fst b + snd b \<longrightarrow> mem s' x = stored ops (mem s) x)"
proof -
  have run: "block_run ops (heap_blocks s) (heap_blocks s')"
    using kclient.client_refines [OF assms(1,2)] assms(3) by auto
  have r: "b \<in> fst (heap_blocks s') \<and> (\<forall>x \<in> block_bytes b. snd (heap_blocks s') x = Some (stored ops (mem s) x))"
    by (rule block_run_keeps [OF run _ _ _ assms(5)])
      (use assms(4) kheap.live_apart [OF assms(1)] abs_block_bytes [OF assms(4)] in \<open>auto simp: abs_blocks_def\<close>)
  then have "b \<in> kheap_live s'" by (simp add: abs_blocks_def)
  then show ?thesis using r abs_block_bytes [of b "kheap_live s'"] by (auto simp: block_bytes_def)
qed

theorem heap_block_survives_witness:
  "\<exists>s'. heap_run 0 example_client example_heap = Inr s' \<and> (8284, 20) \<in> kheap_live s' \<and> mem s' 8288 = 7
    \<and> mem s' 8284 = mem example_heap 8284"
proof -
  obtain s' where s': "heap_run 0 example_client example_heap = Inr s'"
    using kclient.client_refines [OF example_kheap(1) example_allowed] by blast
  have "\<forall>p. Put p \<in> set example_client \<longrightarrow> unat p \<noteq> fst (8284 :: nat, 20 :: nat)" by simp
  from heap_block_survives [OF example_kheap(1) example_allowed s' _ this]
  have "(8284, 20) \<in> kheap_live s' \<and> mem s' 8288 = write32 8288 7 (mem example_heap) 8288
    \<and> mem s' 8284 = write32 8288 7 (mem example_heap) 8284"
    by (simp add: example_kheap(2) del: run_client.simps)
  then show ?thesis using s' by (simp add: write32_def)
qed

end
