(* ===== verification/Processor.thy ===== *)
theory Processor
  imports Descriptor_Tables
begin

text \<open>
  A small model of the processor, for the assembly files \<open>boot.s\<close>, \<open>interrupt.s\<close> and \<open>thread_asm.s\<close>: the registers and the
  memory as the state \<open>x86\<close>, the instructions these files use, and lists of instructions without branches.
\<close>

section \<open>State\<close>

datatype reg = EAX | ECX | EDX | EBX | ESP | EBP | ESI | EDI

datatype sreg = DS | ES | FS | GS | SS

record x86 =
  gpr :: "reg \<Rightarrow> u32"
  seg :: "sreg \<Rightarrow> u16"
  code_seg :: u16
  pc :: u32
  flags :: u32
  gdt_reg :: table_ptr
  idt_reg :: table_ptr
  ram :: mem

definition xpush :: "u32 \<Rightarrow> x86 \<Rightarrow> x86" where
  "xpush v c = c\<lparr>gpr := (gpr c)(ESP := gpr c ESP - 4), ram := write32 (gpr c ESP - 4) v (ram c)\<rparr>"

definition xpop :: "x86 \<Rightarrow> u32 \<times> x86" where
  "xpop c = (read32 (ram c) (gpr c ESP), c\<lparr>gpr := (gpr c)(ESP := gpr c ESP + 4)\<rparr>)"

definition set_gpr :: "reg \<Rightarrow> u32 \<Rightarrow> x86 \<Rightarrow> x86" where
  "set_gpr r v c = c\<lparr>gpr := (gpr c)(r := v)\<rparr>"

section \<open>Instructions\<close>

text \<open>
  \<open>Mov_rs\<close> and \<open>Mov_ri\<close> write the low 16 bits of a register. \<open>Load r b d\<close> is \<open>mov r, [b + d]\<close>, \<open>Store b d r\<close> is \<open>mov [b + d], r\<close>,
  and \<open>Load_at\<close> and \<open>Store_at\<close> have a fixed address. \<open>Call ra f\<close> is the call of \<open>f\<close> from in front of the address \<open>ra\<close>.
\<close>

datatype insn = Cli | Push_i u32 | Push_r reg | Pop_r reg | Pusha | Popa
  | Mov_rs reg sreg | Mov_ri reg u16 | Mov_sr sreg reg | Add_ri reg u32 | Iret
  | Load reg reg u32 | Store reg u32 reg | Load_at reg u32 | Store_at u32 reg | Pushf | Popf
  | Lgdt reg | Lidt reg | Jmp_far u16 u32 | Call u32 u32 | Ret

definition low16 :: "u32 \<Rightarrow> u16 \<Rightarrow> u32" where
  "low16 w v = (w AND 0xFFFF0000) OR ucast v"

text \<open>The six bytes \<open>lgdt\<close> and \<open>lidt\<close> read: a limit and a base address, packed.\<close>

definition table_at :: "mem \<Rightarrow> u32 \<Rightarrow> table_ptr" where
  "table_at m p = \<lparr>tp_limit = read16 m p, tp_base = read32 m (p + 2)\<rparr>"

fun pop_regs :: "reg list \<Rightarrow> x86 \<Rightarrow> x86" where
  "pop_regs [] c = c"
| "pop_regs (r # rs) c = (case xpop c of (v, c) \<Rightarrow> pop_regs rs (if r = ESP then c else set_gpr r v c))"

fun run_insn :: "insn \<Rightarrow> x86 \<Rightarrow> x86" where
  "run_insn Cli c = c\<lparr>flags := flags c AND NOT 0x200\<rparr>"
| "run_insn (Push_i v) c = xpush v c"
| "run_insn (Push_r r) c = xpush (gpr c r) c"
| "run_insn (Pop_r r) c = (case xpop c of (v, c) \<Rightarrow> set_gpr r v c)"
| "run_insn Pusha c = fold (\<lambda>r. xpush (gpr c r)) [EAX, ECX, EDX, EBX, ESP, EBP, ESI, EDI] c"
| "run_insn Popa c = pop_regs [EDI, ESI, EBP, ESP, EBX, EDX, ECX, EAX] c"
| "run_insn (Mov_rs r s) c = set_gpr r (low16 (gpr c r) (seg c s)) c"
| "run_insn (Mov_ri r v) c = set_gpr r (low16 (gpr c r) v) c"
| "run_insn (Mov_sr s r) c = c\<lparr>seg := (seg c)(s := ucast (gpr c r))\<rparr>"
| "run_insn (Add_ri r v) c = set_gpr r (gpr c r + v) c"
| "run_insn Iret c =
     (case xpop c of (a, c) \<Rightarrow> case xpop c of (s, c) \<Rightarrow> case xpop c of (f, c) \<Rightarrow>
        c\<lparr>pc := a, code_seg := ucast s, flags := f\<rparr>)"
| "run_insn (Load r b d) c = set_gpr r (read32 (ram c) (gpr c b + d)) c"
| "run_insn (Store b d r) c = c\<lparr>ram := write32 (gpr c b + d) (gpr c r) (ram c)\<rparr>"
| "run_insn (Load_at r a) c = set_gpr r (read32 (ram c) a) c"
| "run_insn (Store_at a r) c = c\<lparr>ram := write32 a (gpr c r) (ram c)\<rparr>"
| "run_insn Pushf c = xpush (flags c) c"
| "run_insn Popf c = (case xpop c of (f, c) \<Rightarrow> c\<lparr>flags := f\<rparr>)"
| "run_insn (Lgdt r) c = c\<lparr>gdt_reg := table_at (ram c) (gpr c r)\<rparr>"
| "run_insn (Lidt r) c = c\<lparr>idt_reg := table_at (ram c) (gpr c r)\<rparr>"
| "run_insn (Jmp_far s a) c = c\<lparr>code_seg := s, pc := a\<rparr>"
| "run_insn (Call ra f) c = (xpush ra c)\<lparr>pc := f\<rparr>"
| "run_insn Ret c = (case xpop c of (a, c) \<Rightarrow> c\<lparr>pc := a\<rparr>)"

definition exec :: "insn list \<Rightarrow> x86 \<Rightarrow> x86" where
  "exec = fold run_insn"

definition load_segs :: "reg \<Rightarrow> insn list" where
  "load_segs r = [Mov_sr DS r, Mov_sr ES r, Mov_sr FS r, Mov_sr GS r, Mov_sr SS r]"

section \<open>Evaluation of instruction lists\<close>

lemma unwind:
  "exec [] c = c" "exec (i # is) c = exec is (run_insn i c)"
  by (simp_all add: exec_def)

lemma exec_append: "exec (is @ js) c = exec js (exec is c)"
  by (simp add: exec_def)

lemmas insn_defs = unwind xpush_def xpop_def set_gpr_def

lemma seg_cases: "(\<forall>s. P s) \<longleftrightarrow> P DS \<and> P ES \<and> P FS \<and> P GS \<and> P SS"
  by (metis sreg.exhaust)

lemma reg_cases: "(\<forall>r. P r) \<longleftrightarrow> P EAX \<and> P ECX \<and> P EDX \<and> P EBX \<and> P ESP \<and> P EBP \<and> P ESI \<and> P EDI"
  by (metis reg.exhaust)

lemma ucast_low16: "ucast (low16 w v) = v"
proof -
  have m: "(0xFFFF0000 :: u32) = NOT (mask 16)" by (simp add: mask_eq_exp_minus_1)
  show ?thesis unfolding low16_def m by (rule bit_eqI) (auto simp: bit_simps)
qed

lemma ucast_16_32: "ucast (ucast (v :: u16) :: u32) = v"
  by (rule bit_eqI) (auto simp: bit_simps)

text \<open>The words of the stack below its top.\<close>

lemma read_below:
  fixes a d e :: u32
  assumes "4 \<le> unat (d - e)" "unat (d - e) \<le> 2 ^ 32 - 4"
  shows "read32 (write32 (a - d) v m) (a - e) = read32 m (a - e)"
proof -
  have "unat (- e - (- d)) = unat (d - e)" by simp
  then show ?thesis using read32_field [of "- e" "- d" a v m] assms by simp
qed

lemma read_above:
  fixes a d e :: u32
  assumes "4 \<le> unat (d + e)" "unat (d + e) \<le> 2 ^ 32 - 4"
  shows "read32 (write32 (a - d) v m) (e + a) = read32 m (e + a)"
  using read32_field [of e "- d" a v m] assms by (simp add: add.commute)

lemma read_top:
  fixes a d :: u32
  assumes "4 \<le> unat d" "unat d \<le> 2 ^ 32 - 4"
  shows "read32 (write32 (a - d) v m) a = read32 m a"
  using read_above [of d 0 a v m] assms by simp

lemmas stack_reads = read_below read_above read_top

text \<open>A processor in kernel mode for examples.\<close>

definition example_x86 :: x86 where
  "example_x86 = \<lparr>gpr = (\<lambda>r. if r = ESP then 0x9000 else 7), seg = (\<lambda>_. 0x10), code_seg = 0x08, pc = 0x1234,
     flags = 0x202, gdt_reg = \<lparr>tp_limit = 0, tp_base = 0\<rparr>, idt_reg = \<lparr>tp_limit = 0, tp_base = 0\<rparr>, ram = (\<lambda>_. 0)\<rparr>"

end
