(* ===== verification/Interrupt_Stub.thy ===== *)
theory Interrupt_Stub
  imports Kernel_Main Processor
begin

text \<open>
  \<open>interrupt.s\<close>: the interrupt stubs, as lists of the processor instructions they use. An interrupt in the
  kernel pushes the flags, the code segment and the address; the stub of its vector adds an error
  code and the vector, and the common stub the registers, so that \<open>registers_t\<close> of \<open>descriptor_tables.h\<close>
  overlays the stack. The call of the C function between the two halves of the common stub is any
  step that keeps the calling convention and the frame.
\<close>

section \<open>Interrupts\<close>

text \<open>An interrupt or exception without error code, through an interrupt gate (type 0x8E) of the kernel code segment.\<close>

definition interrupt :: "u32 \<Rightarrow> x86 \<Rightarrow> x86" where
  "interrupt target c =
     (xpush (pc c) (xpush (ucast (code_seg c)) (xpush (flags c) c)))
       \<lparr>pc := target, code_seg := 0x08, flags := flags c AND NOT 0x200\<rparr>"

text \<open>An exception with an error code, which the processor pushes last.\<close>

definition fault :: "u32 \<Rightarrow> u32 \<Rightarrow> x86 \<Rightarrow> x86" where
  "fault target e c = xpush e (interrupt target c)"

section \<open>The stubs\<close>

definition isr_noerrcode :: "u32 \<Rightarrow> insn list" where
  "isr_noerrcode n = [Cli, Push_i 0, Push_i n]"

definition isr_errcode :: "u32 \<Rightarrow> insn list" where
  "isr_errcode n = [Cli, Push_i n]"

definition irq_stub :: "u32 \<Rightarrow> insn list" where
  "irq_stub v = [Cli, Push_i 0, Push_i v]"

text \<open>\<open>isr_common_stub\<close>, before and after its call of \<open>idt_handler\<close>.\<close>

definition isr_common_in :: "insn list" where
  "isr_common_in = [Pusha, Mov_rs EAX DS, Push_r EAX, Mov_ri EAX 0x10] @ load_segs EAX @ [Push_r ESP]"

definition isr_common_out :: "insn list" where
  "isr_common_out = [Add_ri ESP 4, Pop_r EBX] @ load_segs EBX @ [Popa, Add_ri ESP 8, Iret]"

text \<open>\<open>irq_common_stub\<close>, before and after its call of \<open>irq_handler\<close>.\<close>

definition irq_common_in :: "insn list" where
  "irq_common_in = [Pusha, Mov_rs EAX DS, Push_r EAX, Mov_ri EAX 0x10] @ load_segs EAX @ [Push_r ESP]"

definition irq_common_out :: "insn list" where
  "irq_common_out = [Add_ri ESP 4, Pop_r EBX] @ load_segs EBX @ [Popa, Add_ri ESP 8, Iret]"

text \<open>The stubs in the order of the file, each with the vector it pushes.\<close>

definition isr_stubs :: "(u32 \<times> insn list) list" where
  "isr_stubs =
     map (\<lambda>n. (n, isr_noerrcode n)) [0, 1, 2, 3, 4, 5, 6, 7] @ [(8, isr_errcode 8), (9, isr_noerrcode 9)]
     @ map (\<lambda>n. (n, isr_errcode n)) [10, 11, 12, 13, 14]
     @ map (\<lambda>n. (n, isr_noerrcode n)) [15, 16, 17, 18, 19, 20, 21, 22, 23, 24, 25, 26, 27, 28, 29, 30, 31, 255]"

definition irq_stubs :: "(u32 \<times> insn list) list" where
  "irq_stubs = map (\<lambda>v. (v, irq_stub v)) [32, 33, 34, 35, 36, 37, 38, 39, 40, 41, 42, 43, 44, 45, 46, 47]"

text \<open>\<open>registers_t\<close> at an address.\<close>

definition registers_at :: "mem \<Rightarrow> u32 \<Rightarrow> registers" where
  "registers_at m p = \<lparr>reg_ds = read32 m p, reg_edi = read32 m (p + 4), reg_esi = read32 m (p + 8),
     reg_ebp = read32 m (p + 12), reg_esp = read32 m (p + 16), reg_ebx = read32 m (p + 20), reg_edx = read32 m (p + 24),
     reg_ecx = read32 m (p + 28), reg_eax = read32 m (p + 32), int_no = read32 m (p + 36), err_code = read32 m (p + 40),
     reg_eip = read32 m (p + 44), reg_cs = read32 m (p + 48), reg_eflags = read32 m (p + 52),
     reg_useresp = read32 m (p + 56), reg_ss = read32 m (p + 60)\<rparr>"

text \<open>The C function gets the address of the frame from the stack.\<close>

definition stub_frame :: "x86 \<Rightarrow> registers" where
  "stub_frame c = registers_at (ram c) (read32 (ram c) (gpr c ESP))"

section \<open>The frame\<close>

lemmas stub_defs = irq_stub_def isr_noerrcode_def isr_errcode_def irq_common_in_def irq_common_out_def load_segs_def

lemmas machine_defs = insn_defs interrupt_def

text \<open>The two common stubs differ in the function they call only.\<close>

lemma isr_common [simp]: "isr_common_in = irq_common_in" "isr_common_out = irq_common_out"
  by (simp_all add: isr_common_in_def isr_common_out_def irq_common_in_def irq_common_out_def)

text \<open>The three stubs differ in who pushes the error code.\<close>

definition pushed :: "u32 \<Rightarrow> u32 \<Rightarrow> u32 \<Rightarrow> x86 \<Rightarrow> x86" where
  "pushed e v g c = xpush v (xpush e (interrupt g c))"

lemma cli_idle: "run_insn Cli (interrupt g c) = interrupt g c" "run_insn Cli (fault g e c) = fault g e c"
  by (simp_all add: fault_def interrupt_def xpush_def and.assoc)

lemma stubs_push:
  "exec (irq_stub v @ is) (interrupt g c) = exec is (pushed 0 v g c)"
  "exec (isr_noerrcode v @ is) (interrupt g c) = exec is (pushed 0 v g c)"
  "exec (isr_errcode v @ is) (fault g e c) = exec is (pushed e v g c)"
  by (simp_all add: irq_stub_def isr_noerrcode_def isr_errcode_def unwind cli_idle del: run_insn.simps(1))
    (simp_all add: pushed_def fault_def)

definition kernel_frame :: "u32 \<Rightarrow> u32 \<Rightarrow> x86 \<Rightarrow> registers" where
  "kernel_frame e v c = \<lparr>reg_ds = low16 (gpr c EAX) (seg c DS), reg_edi = gpr c EDI, reg_esi = gpr c ESI,
     reg_ebp = gpr c EBP, reg_esp = gpr c ESP - 20, reg_ebx = gpr c EBX, reg_edx = gpr c EDX, reg_ecx = gpr c ECX,
     reg_eax = gpr c EAX, int_no = v, err_code = e, reg_eip = pc c, reg_cs = ucast (code_seg c), reg_eflags = flags c,
     reg_useresp = read32 (ram c) (gpr c ESP), reg_ss = read32 (ram c) (gpr c ESP + 4)\<rparr>"

lemma stub_frame_pushed: "stub_frame (exec irq_common_in (pushed e v g c)) = kernel_frame e v c"
  by (simp add: stub_defs machine_defs pushed_def stub_frame_def registers_at_def kernel_frame_def stack_reads
      add.commute [of "gpr c ESP"])

section \<open>The return\<close>

text \<open>
  What the stubs rely on in the C function they call (the System V calling convention for the i386): the stack pointer, the
  registers \<open>ebx\<close>, \<open>esi\<close>, \<open>edi\<close> and \<open>ebp\<close> the segments and the table registers are as before, and the 14 words of the frame
  behind its argument are not written.
\<close>

definition c_function :: "x86 \<Rightarrow> x86 \<Rightarrow> bool" where
  "c_function c c' \<longleftrightarrow> (\<forall>r \<in> {ESP, EBP, EBX, ESI, EDI}. gpr c' r = gpr c r) \<and> seg c' = seg c
     \<and> gdt_reg c' = gdt_reg c \<and> idt_reg c' = idt_reg c
     \<and> (\<forall>k < 14. read32 (ram c') (gpr c ESP + 4 * of_nat (k + 1)) = read32 (ram c) (gpr c ESP + 4 * of_nat (k + 1)))"

lemma frame_words:
  "(\<forall>k < 14. P k) \<longleftrightarrow> P 0 \<and> P 1 \<and> P 2 \<and> P 3 \<and> P 4 \<and> P 5 \<and> P 6 \<and> P 7 \<and> P 8 \<and> P 9 \<and> P 10 \<and> P 11 \<and> P 12 \<and> P (13 :: nat)"
proof -
  have "(\<forall>k < 14. P k) \<longleftrightarrow> (\<forall>k \<in> set [0..<14]. P k)" by auto
  then show ?thesis by (simp add: upt_rec numeral_eq_Suc)
qed

text \<open>The words of the frame for vector \<open>v\<close>.\<close>

definition frame_list :: "u32 \<Rightarrow> u32 \<Rightarrow> x86 \<Rightarrow> u32 list" where
  "frame_list e v c = [low16 (gpr c EAX) (seg c DS), gpr c EDI, gpr c ESI, gpr c EBP, gpr c ESP - 20, gpr c EBX, gpr c EDX,
     gpr c ECX, gpr c EAX, v, e, pc c, ucast (code_seg c), flags c]"

definition frame_on_stack :: "x86 \<Rightarrow> u32 list \<Rightarrow> bool" where
  "frame_on_stack c ws \<longleftrightarrow> (\<forall>k < 14. read32 (ram c) (gpr c ESP + 4 * of_nat (k + 1)) = ws ! k)"

lemma stub_entry:
  fixes c :: x86 and e v g :: u32
  defines "c1 \<equiv> exec irq_common_in (pushed e v g c)"
  shows "gpr c1 ESP = gpr c ESP - 60" "seg c1 = (\<lambda>_. 0x10)" "frame_on_stack c1 (frame_list e v c)"
    "gdt_reg c1 = gdt_reg c" "idt_reg c1 = idt_reg c"
  unfolding frame_on_stack_def frame_words fun_eq_iff seg_cases c1_def
  by (simp_all add: stub_defs machine_defs pushed_def stack_reads ucast_low16 frame_list_def)

lemma stub_exit:
  assumes "frame_on_stack c ws"
  shows "exec irq_common_out c = c\<lparr>gpr := (\<lambda>r. case r of EDI \<Rightarrow> ws ! 1 | ESI \<Rightarrow> ws ! 2 | EBP \<Rightarrow> ws ! 3 | EBX \<Rightarrow> ws ! 5
      | EDX \<Rightarrow> ws ! 6 | ECX \<Rightarrow> ws ! 7 | EAX \<Rightarrow> ws ! 8 | ESP \<Rightarrow> gpr c ESP + 60),
    seg := (\<lambda>_. ucast (ws ! 0)), pc := ws ! 11, code_seg := ucast (ws ! 12), flags := ws ! 13\<rparr>"
proof -
  note ws = assms [unfolded frame_on_stack_def frame_words, simplified]
  show ?thesis
    by (rule x86.equality)
      (use ws in \<open>simp_all add: stub_defs machine_defs fun_eq_iff reg_cases seg_cases add.commute [of _ "gpr c ESP"]\<close>)
qed

lemma stub_returns:
  fixes c :: x86
  assumes "c_function (exec irq_common_in (pushed e v g c)) c2"
  shows "exec irq_common_out c2 = c\<lparr>seg := (\<lambda>_. seg c DS), ram := ram c2\<rparr>"
proof -
  note en = stub_entry [of e v g c]
  have esp: "gpr c2 ESP = gpr c ESP - 60" "gdt_reg c2 = gdt_reg c" "idt_reg c2 = idt_reg c"
    using assms en(1,4,5) by (simp_all add: c_function_def)
  have "frame_on_stack c2 (frame_list e v c)"
    using assms en(1,3) unfolding c_function_def frame_on_stack_def by simp
  from stub_exit [OF this] show ?thesis
    by (intro x86.equality) (simp_all add: frame_list_def ucast_low16 ucast_16_32 fun_eq_iff reg_cases esp)
qed

section \<open>Entering a stub behind its first byte\<close>

text \<open>
  The lengths of the encodings in 32-bit mode: \<open>cli\<close> is one byte, \<open>push byte\<close> two. A displacement takes no byte, one or
  four, and a base of \<open>esp\<close> one more. \<open>enter_at k\<close> is the code from the \<open>k\<close>-th byte on, if an instruction starts there.
\<close>

definition small :: "u32 \<Rightarrow> bool" where
  "small v \<longleftrightarrow> v < 0x80 \<or> 0xFFFFFF80 \<le> v"

definition operand_len :: "reg \<Rightarrow> u32 \<Rightarrow> nat" where
  "operand_len b d = 1 + (if b = ESP then 1 else 0) + (if d = 0 \<and> b \<noteq> EBP then 0 else if small d then 1 else 4)"

fun insn_len :: "insn \<Rightarrow> nat" where
  "insn_len Cli = 1"
| "insn_len (Push_i v) = (if small v then 2 else 5)"
| "insn_len (Push_r r) = 1"
| "insn_len (Pop_r r) = 1"
| "insn_len Pusha = 1"
| "insn_len Popa = 1"
| "insn_len (Mov_rs r s) = 3"
| "insn_len (Mov_ri r v) = 4"
| "insn_len (Mov_sr s r) = 2"
| "insn_len (Add_ri r v) = (if small v then 3 else if r = EAX then 5 else 6)"
| "insn_len Iret = 1"
| "insn_len (Load r b d) = 1 + operand_len b d"
| "insn_len (Store b d r) = 1 + operand_len b d"
| "insn_len (Load_at r a) = (if r = EAX then 5 else 6)"
| "insn_len (Store_at a r) = (if r = EAX then 5 else 6)"
| "insn_len Pushf = 1"
| "insn_len Popf = 1"
| "insn_len (Lgdt r) = 2 + operand_len r 0"
| "insn_len (Lidt r) = 2 + operand_len r 0"
| "insn_len (Jmp_far s a) = 7"
| "insn_len (Call ra f) = 5"
| "insn_len Ret = 1"

fun enter_at :: "nat \<Rightarrow> insn list \<Rightarrow> insn list option" where
  "enter_at k [] = None"
| "enter_at k (i # is) = (if k = 0 then Some (i # is) else if insn_len i \<le> k then enter_at (k - insn_len i) is else None)"

lemma enter_behind_cli:
  "enter_at 1 (irq_stub v) = Some [Push_i 0, Push_i v]"
  "exec ([Push_i 0, Push_i v] @ is) (interrupt g c) = exec (irq_stub v @ is) (interrupt g c)"
proof -
  show "enter_at 1 (irq_stub v) = Some [Push_i 0, Push_i v]" by (simp add: irq_stub_def)
  show "exec ([Push_i 0, Push_i v] @ is) (interrupt g c) = exec (irq_stub v @ is) (interrupt g c)"
    by (simp add: irq_stub_def unwind cli_idle del: run_insn.simps)
qed

text \<open>
  The stub and the byte within it that lie \<open>k\<close> bytes behind the first stub of a sequence. The length of the \<open>jmp\<close> at
  the end of the stub for vector \<open>v\<close> is the assembler's choice, \<open>jl v\<close>.
\<close>

definition code_len :: "insn list \<Rightarrow> nat" where
  "code_len is = sum_list (map insn_len is)"

fun stub_at :: "(u32 \<Rightarrow> nat) \<Rightarrow> nat \<Rightarrow> (u32 \<times> insn list) list \<Rightarrow> (u32 \<times> nat) option" where
  "stub_at jl k [] = None"
| "stub_at jl k ((v, is) # ss) = (if k < code_len is + jl v then Some (v, k) else stub_at jl (k - (code_len is + jl v)) ss)"

text \<open>Each stub is longer than one byte, so \<open>k\<close> bytes never reach the \<open>k\<close>-th of them.\<close>

lemma stub_at_index:
  assumes "\<forall>(v, is) \<in> set ss. 2 \<le> code_len is" "k < 2 * length ss"
  shows "\<exists>i b. stub_at jl k ss = Some (fst (ss ! i), b) \<and> i < length ss \<and> 2 * i \<le> k"
  using assms
proof (induction jl k ss rule: stub_at.induct)
  case (2 jl k v "is" ss)
  show ?case
  proof (cases "k < code_len is + jl v")
    case True
    then show ?thesis by (intro exI [of _ 0] exI [of _ k]) simp
  next
    case False
    with 2 obtain i b where "stub_at jl (k - (code_len is + jl v)) ss = Some (fst (ss ! i), b)" "i < length ss"
      "2 * i \<le> k - (code_len is + jl v)"
      by fastforce
    with False 2(2) show ?thesis by (intro exI [of _ "Suc i"] exI [of _ b]) auto
  qed
qed simp

lemma stub_lists:
  "map fst isr_stubs = map of_nat [0..<32] @ [255]" "map fst irq_stubs = map of_nat [32..<48]"
  "\<forall>(v, is) \<in> set isr_stubs. 2 \<le> code_len is" "\<forall>(v, is) \<in> set irq_stubs. 2 \<le> code_len is"
  by (simp_all add: isr_stubs_def irq_stubs_def isr_noerrcode_def isr_errcode_def irq_stub_def code_len_def upt_rec)

lemma stub_counts: "length isr_stubs = 33" "length irq_stubs = 16"
  using stub_lists(1,2) [THEN arg_cong [where f = length]] by simp_all

lemma stub_vectors:
  "i < 32 \<Longrightarrow> unat (fst (isr_stubs ! i)) = i" "i < 16 \<Longrightarrow> unat (fst (irq_stubs ! i)) = 32 + i"
proof -
  assume i: "i < 32"
  have "map fst isr_stubs ! i = of_nat i" unfolding stub_lists using i by (simp add: nth_append)
  with i show "unat (fst (isr_stubs ! i)) = i" by (simp add: stub_counts unat_of_nat32)
next
  assume i: "i < 16"
  have "map fst irq_stubs ! i = of_nat (32 + i)" unfolding stub_lists using i by (subst nth_map_upt) auto
  then have "fst (irq_stubs ! i) = of_nat (32 + i)" using i by (simp add: stub_counts)
  then show "unat (fst (irq_stubs ! i)) = 32 + i" using i unat_of_nat32 [of "32 + i"] by (simp del: of_nat_add)
qed

text \<open>\<open>k\<close> bytes behind the first stub lies a stub of an earlier vector.\<close>

lemma earlier_stub:
  assumes "0 < k"
  shows "k < 32 \<Longrightarrow> \<exists>v b. stub_at jl k isr_stubs = Some (v, b) \<and> unat v < k"
    and "k < 16 \<Longrightarrow> \<exists>v b. stub_at jl k irq_stubs = Some (v, b) \<and> unat v < 32 + k"
proof -
  assume k: "k < 32"
  with stub_at_index [OF stub_lists(3), of k jl] obtain i b where "stub_at jl k isr_stubs = Some (fst (isr_stubs ! i), b)" "2 * i \<le> k"
    by (auto simp: stub_counts)
  with k assms show "\<exists>v b. stub_at jl k isr_stubs = Some (v, b) \<and> unat v < k"
    by (intro exI [of _ "fst (isr_stubs ! i)"] exI [of _ b]) (simp add: stub_vectors)
next
  assume k: "k < 16"
  with stub_at_index [OF stub_lists(4), of k jl] obtain i b where "stub_at jl k irq_stubs = Some (fst (irq_stubs ! i), b)" "2 * i \<le> k"
    by (auto simp: stub_counts)
  with k assms show "\<exists>v b. stub_at jl k irq_stubs = Some (v, b) \<and> unat v < 32 + k"
    by (intro exI [of _ "fst (irq_stubs ! i)"] exI [of _ b]) (simp add: stub_vectors)
qed

lemma gate_offsets:
  assumes "length (gdt_entries s) = 5"
  shows "\<exists>s'. init_descriptor_tables lm s = Inr s'
    \<and> (\<forall>k < 32. unat (gate_offset (idt_entries s' ! k) - link_isr0 lm) = k)
    \<and> (\<forall>k < 16. unat (gate_offset (idt_entries s' ! (32 + k)) - link_irq0 lm) = k)"
proof -
  obtain gs es where "init_descriptor_tables lm s = Inr (idt_loaded lm es (gdt_loaded lm gs s))"
    "\<forall>k<256. es ! k = (if k < 32 then idt_gate (link_isr0 lm + of_nat k) 0x08 0x8E
        else if k < 48 then idt_gate (link_irq0 lm + of_nat (k - 32)) 0x08 0x8E else zero_gate)"
    using init_descriptor_tables_eq [OF assms(1), of lm] by metis
  moreover have "unat (of_nat k :: u32) = k" if "k < 32" for k using that by (intro unat_of_nat32) simp
  ultimately show ?thesis by (auto simp: idt_loaded_def gate_offset_gate)
qed

text \<open>
  The exceptions below 32 for which the stubs expect the processor to push an error code, and the state in which
  the stub of vector \<open>v\<close> is entered.
\<close>

definition pushes_error :: "u32 \<Rightarrow> bool" where
  "pushes_error v \<longleftrightarrow> v \<in> {8, 10, 11, 12, 13, 14}"

definition entered :: "u32 \<Rightarrow> u32 \<Rightarrow> u32 \<Rightarrow> x86 \<Rightarrow> x86" where
  "entered g e v c = (if pushes_error v then fault g e c else interrupt g c)"

lemma stub_shapes:
  "(v, code) \<in> set irq_stubs \<Longrightarrow> v < 256 \<and> code = irq_stub v"
  "(v, code) \<in> set isr_stubs \<Longrightarrow> v < 256 \<and> code = (if pushes_error v then isr_errcode v else isr_noerrcode v)"
  by (auto simp: irq_stubs_def isr_stubs_def pushes_error_def)

lemma init_descriptor_tables_wf:
  assumes "length (gdt_entries s) = 5"
  shows "\<exists>s'. init_descriptor_tables lm s = Inr s' \<and> tables_wf s' \<and> interrupt_handlers s' = replicate 256 None"
proof -
  obtain gs es where "init_descriptor_tables lm s = Inr (idt_loaded lm es (gdt_loaded lm gs s))" "length gs = 5" "length es = 256"
    using init_descriptor_tables_eq [OF assms, of lm] by metis
  then show ?thesis by (simp add: tables_wf_def idt_loaded_def gdt_loaded_def)
qed

lemma handler_at_byte:
  assumes "tables_wf s" "v < 256" "interrupt_handlers s ! unat (ucast v :: u8) = h"
  shows "handler_at v s = Inr h"
proof -
  have "unat v < 256" using assms(2) by (simp add: word_less_nat_alt)
  then have "unat (ucast v :: u8) = unat v" by (simp add: unsigned_ucast_eq take_bit_nat_eq_self)
  then show ?thesis using assms \<open>unat v < 256\<close> by (simp add: handler_at_def tables_wf_def)
qed

lemma idt_handler_at:
  assumes "handler_at (int_no regs) s = Inr h"
  shows "idt_handler run regs s = (case h of Some f \<Rightarrow> run f regs s | None \<Rightarrow> Inl (Panic ''Unhandled interrupt''))"
  using assms unhandled_exception_panics [of regs s run] by (cases h) (simp_all add: idt_handler_def)

section \<open>Properties\<close>

text \<open>
  C20: The stack that the C function gets a pointer to is a \<open>registers_t\<close> with the
  registers, flags, code segment and address of the interrupted code, the vector of the stub and the error code, 0 for
  the stubs of exceptions without one and of the device interrupts. The
  field \<open>ds\<close> has the data segment in its low half and the high half of \<open>eax\<close>, \<open>esp\<close> is the stack pointer in
  the stub, and \<open>useresp\<close> and \<open>ss\<close> are the top two words of the interrupted stack.
\<close>
theorem stub_frames:
  "stub_frame (exec (irq_stub v @ irq_common_in) (interrupt g c)) = kernel_frame 0 v c
    \<and> stub_frame (exec (isr_noerrcode v @ isr_common_in) (interrupt g c)) = kernel_frame 0 v c
    \<and> stub_frame (exec (isr_errcode v @ isr_common_in) (fault g e c)) = kernel_frame e v c"
  by (simp add: stubs_push stub_frame_pushed)

text \<open>
  C19: If the C function keeps the calling convention and the frame, each of the stubs returns to the
  interrupted code with every register, the flags, the code segment and the stack pointer as they were. All data segments
  are loaded with the interrupted \<open>ds\<close>.
\<close>
theorem stubs_return:
  assumes "(c1, out) \<in> {(exec (irq_stub v @ irq_common_in) (interrupt g c), irq_common_out),
      (exec (isr_noerrcode v @ isr_common_in) (interrupt g c), isr_common_out),
      (exec (isr_errcode v @ isr_common_in) (fault g e c), isr_common_out)}"
    and "c_function c1 c2"
  shows "exec out c2 = c\<lparr>seg := (\<lambda>_. seg c DS), ram := ram c2\<rparr>"
  using assms stub_returns by (auto simp: stubs_push)

text \<open>The C function of the example scratches \<open>eax\<close> and \<open>ecx\<close> and the word at 0x8000.\<close>

definition example_call :: "x86 \<Rightarrow> x86" where
  "example_call c = c\<lparr>gpr := (gpr c)(EAX := 0, ECX := 1), ram := write32 0x8000 0xFF (ram c)\<rparr>"

lemma example_call_ok: "c_function c (example_call c)" if "gpr c ESP = 0x8FC4"
  unfolding c_function_def frame_words by (simp add: that example_call_def read32_write32_apart)

theorem stubs_return_witness:
  "exec irq_common_out (example_call (exec (irq_stub 32 @ irq_common_in) (interrupt 0x5000 example_x86)))
    = example_x86\<lparr>ram := ram (example_call (exec (irq_stub 32 @ irq_common_in) (interrupt 0x5000 example_x86)))\<rparr>"
proof -
  have "c_function (exec (irq_stub 32 @ irq_common_in) (interrupt 0x5000 example_x86))
      (example_call (exec (irq_stub 32 @ irq_common_in) (interrupt 0x5000 example_x86)))"
    by (rule example_call_ok) (simp add: stubs_push stub_entry example_x86_def)
  from stubs_return [OF _ this, of irq_common_out 32 "0x5000" example_x86 0] show ?thesis by (simp add: example_x86_def)
qed

text \<open>
  C40: The gate of the keyboard interrupt, 33, is the second instruction of the stub of
  the timer interrupt, so \<open>irq_handler\<close> sees vector 32: with both handlers registered a key press runs the timer
  callback, and not the keyboard handler.
\<close>
theorem keyboard_gate_runs_timer:
  assumes "length (gdt_entries s) = 5"
    and "handler_at 32 u = Inr (Some Timer_callback)" "handler_at 33 u = Inr (Some Keyboard_handler)"
  shows "\<exists>s' code. init_descriptor_tables lm s = Inr s'
    \<and> enter_at (unat (gate_offset (idt_entries s' ! 33) - link_irq0 lm)) (irq_stub 32) = Some code
    \<and> irq_handler run (stub_frame (exec (code @ irq_common_in) (interrupt g c))) u
      = run Timer_callback (stub_frame (exec (irq_stub 32 @ irq_common_in) (interrupt g c))) (outb 0x20 0x20 u)"
proof -
  obtain s' where s': "init_descriptor_tables lm s = Inr s'" "unat (gate_offset (idt_entries s' ! 33) - link_irq0 lm) = 1"
    using gate_offsets [OF assms(1), of lm] by (elim exE conjE) (drule spec [of _ 1], auto)
  have "handler_at 32 (outb 0x20 0x20 u) = Inr (Some Timer_callback)" using assms(2) by (simp add: handler_at_def outb_def split: if_splits)
  then have "irq_handler run (stub_frame (exec (irq_stub 32 @ irq_common_in) (interrupt g c))) u
      = run Timer_callback (stub_frame (exec (irq_stub 32 @ irq_common_in) (interrupt g c))) (outb 0x20 0x20 u)"
    by (simp add: irq_handler_def stubs_push stub_frame_pushed kernel_frame_def)
  then show ?thesis using s' enter_behind_cli by metis
qed

theorem keyboard_gate_runs_timer_witness:
  "\<exists>s' code. init_descriptor_tables example_linkmap boot_descr = Inr s'
    \<and> enter_at (unat (gate_offset (idt_entries s' ! 33) - link_irq0 example_linkmap)) (irq_stub 32) = Some code
    \<and> irq_handler (\<lambda>h regs s. Inr (outb 0x80 (if h = Timer_callback then 1 else 2) s))
        (stub_frame (exec (code @ irq_common_in) (interrupt 0x5000 example_x86)))
        (boot_descr\<lparr>interrupt_handlers := (replicate 256 None)[32 := Some Timer_callback, 33 := Some Keyboard_handler]\<rparr>)
      = Inr (outb 0x80 1 (outb 0x20 0x20
        (boot_descr\<lparr>interrupt_handlers := (replicate 256 None)[32 := Some Timer_callback, 33 := Some Keyboard_handler]\<rparr>)))"
proof -
  let ?u = "boot_descr\<lparr>interrupt_handlers := (replicate 256 None)[32 := Some Timer_callback, 33 := Some Keyboard_handler]\<rparr>"
  have h: "length (gdt_entries boot_descr) = 5" "handler_at 32 ?u = Inr (Some Timer_callback)" "handler_at 33 ?u = Inr (Some Keyboard_handler)"
    by (simp_all add: boot_descr_def handler_at_def)
  show ?thesis
    using keyboard_gate_runs_timer [OF h, of example_linkmap "\<lambda>h regs s. Inr (outb 0x80 (if h = Timer_callback then 1 else 2) s)" "0x5000" example_x86]
    by simp
qed

text \<open>
  C39: Of the gates that \<open>init_idt\<close> sets only 0 and 32 lead to the beginning of their stubs. Whatever length the assembler gives the
  jumps, the gate of every other exception and device interrupt lies inside the stub of an earlier vector. Where the jump of \<open>isr0\<close>
  takes five bytes, the gate of the page fault, 14, is inside the operand of the third instruction of \<open>isr1\<close>, where no
  instruction of the file starts.
\<close>
theorem gates_in_earlier_stubs:
  assumes "length (gdt_entries s) = 5"
  shows "\<exists>s'. init_descriptor_tables lm s = Inr s'
    \<and> gate_offset (idt_entries s' ! 0) = link_isr0 lm \<and> gate_offset (idt_entries s' ! 32) = link_irq0 lm
    \<and> (\<forall>k. 0 < k \<and> k < 32 \<longrightarrow>
        (\<exists>v b. stub_at jl (unat (gate_offset (idt_entries s' ! k) - link_isr0 lm)) isr_stubs = Some (v, b) \<and> unat v < k))
    \<and> (\<forall>k. 32 < k \<and> k < 48 \<longrightarrow>
        (\<exists>v b. stub_at jl (unat (gate_offset (idt_entries s' ! k) - link_irq0 lm)) irq_stubs = Some (v, b) \<and> unat v < k))
    \<and> (jl 0 = 5 \<longrightarrow> stub_at jl (unat (gate_offset (idt_entries s' ! 14) - link_isr0 lm)) isr_stubs = Some (1, 4)
        \<and> enter_at 4 (isr_noerrcode 1) = None)"
proof -
  obtain s' where s': "init_descriptor_tables lm s = Inr s'"
    "\<And>k. k < 32 \<Longrightarrow> unat (gate_offset (idt_entries s' ! k) - link_isr0 lm) = k"
    "\<And>k. k < 16 \<Longrightarrow> unat (gate_offset (idt_entries s' ! (32 + k)) - link_irq0 lm) = k"
    using gate_offsets [OF assms, of lm] by blast
  have first: "gate_offset (idt_entries s' ! 0) = link_isr0 lm" "gate_offset (idt_entries s' ! 32) = link_irq0 lm"
    using s'(2) [of 0] s'(3) [of 0] by (simp_all add: unat_eq_0)
  have irq: "\<exists>v b. stub_at jl (unat (gate_offset (idt_entries s' ! k) - link_irq0 lm)) irq_stubs = Some (v, b) \<and> unat v < k"
    if k: "32 < k" "k < 48" for k
    using earlier_stub(2) [of "k - 32" jl] s'(3) [of "k - 32"] k by simp
  have isr: "\<exists>v b. stub_at jl (unat (gate_offset (idt_entries s' ! k) - link_isr0 lm)) isr_stubs = Some (v, b) \<and> unat v < k"
    if "0 < k" "k < 32" for k
    using earlier_stub(1) [OF that, of jl] s'(2) [OF that(2)] by simp
  have page_fault: "stub_at jl 14 isr_stubs = Some (1, 4)" if "jl 0 = 5"
    using that by (simp add: isr_stubs_def isr_noerrcode_def code_len_def small_def)
  have "enter_at 4 (isr_noerrcode 1) = None" by (simp add: isr_noerrcode_def small_def)
  with s'(1) first isr irq page_fault s'(2) [of 14] show ?thesis by (intro exI [of _ s']) auto
qed

theorem gates_in_earlier_stubs_witness:
  "\<exists>s'. init_descriptor_tables example_linkmap boot_descr = Inr s'
    \<and> stub_at (\<lambda>_. 5) (unat (gate_offset (idt_entries s' ! 14) - link_isr0 example_linkmap)) isr_stubs = Some (1, 4)"
proof -
  have "length (gdt_entries boot_descr) = 5" by (simp add: boot_descr_def)
  from gates_in_earlier_stubs [OF this, of example_linkmap "\<lambda>_. 5"] show ?thesis by fast
qed

text \<open>
  C32: Dispatch is safe and runs what was registered. \<open>init_descriptor_tables\<close> followed by any registrations succeeds and leaves the
  tables in their declared sizes. For each stub of \<open>interrupt.s\<close>, entered by its interrupt or exception, the vector in the frame has
  an entry in the table of handlers, and the C function runs the handler that was registered last for
  the vector of the stub. Without one a device interrupt is acknowledged only, and an exception ends in a panic.
\<close>
theorem stubs_dispatch_registered:
  assumes "length (gdt_entries s) = 5"
  shows "\<exists>s'. ebind (init_descriptor_tables lm s) (register_all rs) = Inr s' \<and> tables_wf s'
    \<and> (\<forall>(v, code) \<in> set irq_stubs.
        irq_handler run (stub_frame (exec (code @ irq_common_in) (interrupt g c))) s'
        = (let t = s'\<lparr>outp := outp s' @ (if 40 \<le> v then [(0xA0, 0x20)] else []) @ [(0x20, 0x20)]\<rparr>
           in case map_of (rev rs) (ucast v) of Some h \<Rightarrow> run h (kernel_frame 0 v c) t | None \<Rightarrow> Inr t))
    \<and> (\<forall>(v, code) \<in> set isr_stubs.
        idt_handler run (stub_frame (exec (code @ isr_common_in) (entered g e v c))) s'
        = (case map_of (rev rs) (ucast v) of
             Some h \<Rightarrow> run h (kernel_frame (if pushes_error v then e else 0) v c) s'
           | None \<Rightarrow> Inl (Panic ''Unhandled interrupt'')))"
proof -
  obtain s1 where s1: "init_descriptor_tables lm s = Inr s1" "tables_wf s1" "interrupt_handlers s1 = replicate 256 None"
    using init_descriptor_tables_wf [OF assms] by blast
  obtain s' where s': "register_all rs s1 = Inr s'" "tables_wf s'"
    "\<forall>n :: u8. interrupt_handlers s' ! unat n = (case map_of (rev rs) n of Some h \<Rightarrow> Some h | None \<Rightarrow> interrupt_handlers s1 ! unat n)"
    using register_all_ok [OF s1(2)] by blast
  have at: "handler_at v s' = Inr (map_of (rev rs) (ucast v))" if "v < 256" for v
    using s'(2,3) s1(3) that unat_u8_256 [of "ucast v"] by (intro handler_at_byte) (auto split: option.split)
  have irq: "irq_handler run (stub_frame (exec (code @ irq_common_in) (interrupt g c))) s'
      = (let t = s'\<lparr>outp := outp s' @ (if 40 \<le> v then [(0xA0, 0x20)] else []) @ [(0x20, 0x20)]\<rparr>
         in case map_of (rev rs) (ucast v) of Some h \<Rightarrow> run h (kernel_frame 0 v c) t | None \<Rightarrow> Inr t)"
    if "(v, code) \<in> set irq_stubs" for v code
    using irq_acknowledged_first [of "kernel_frame 0 v c" s' "map_of (rev rs) (ucast v)" run] stub_shapes(1) [OF that] at [of v]
    by (simp add: stubs_push stub_frame_pushed kernel_frame_def)
  have isr: "idt_handler run (stub_frame (exec (code @ isr_common_in) (entered g e v c))) s'
      = (case map_of (rev rs) (ucast v) of Some h \<Rightarrow> run h (kernel_frame (if pushes_error v then e else 0) v c) s'
         | None \<Rightarrow> Inl (Panic ''Unhandled interrupt''))" if "(v, code) \<in> set isr_stubs" for v code
    using idt_handler_at [of "kernel_frame (if pushes_error v then e else 0) v c" s' "map_of (rev rs) (ucast v)" run]
      stub_shapes(2) [OF that] at [of v] by (auto simp: stubs_push stub_frame_pushed entered_def kernel_frame_def split: if_splits)
  show ?thesis using s1(1) s'(1,2) irq isr by (intro exI [of _ s']) auto
qed

text \<open>A page fault with error code 2, and the keyboard interrupt, with two handlers registered, the first of them replaced.\<close>

theorem stubs_dispatch_registered_witness:
  "\<exists>s'. ebind (init_descriptor_tables example_linkmap boot_descr)
        (register_all [(14, Timer_callback), (33, Keyboard_handler), (14, Page_fault_handler)]) = Inr s'
    \<and> idt_handler (\<lambda>h regs s. Inr (outb 0x80 (if h = Page_fault_handler then ucast (err_code regs) else 9) s))
        (stub_frame (exec (isr_errcode 14 @ isr_common_in) (entered 0x5000 2 14 example_x86))) s' = Inr (outb 0x80 2 s')
    \<and> idt_handler (\<lambda>h regs s. Inr s) (stub_frame (exec (isr_noerrcode 3 @ isr_common_in) (entered 0x5000 2 3 example_x86))) s'
      = Inl (Panic ''Unhandled interrupt'')"
proof -
  let ?rs = "[(14, Timer_callback), (33, Keyboard_handler), (14, Page_fault_handler)] :: (u8 \<times> handler) list"
  let ?run = "\<lambda>h regs s. Inr (outb 0x80 (if h = Page_fault_handler then ucast (err_code regs) else 9) s)"
  have l: "length (gdt_entries boot_descr) = 5" by (simp add: boot_descr_def)
  have m: "(14, isr_errcode 14) \<in> set isr_stubs" "(3, isr_noerrcode 3) \<in> set isr_stubs" by (simp_all add: isr_stubs_def)
  obtain s' where s': "ebind (init_descriptor_tables example_linkmap boot_descr) (register_all ?rs) = Inr s'"
    "\<forall>(v, code) \<in> set isr_stubs. idt_handler ?run (stub_frame (exec (code @ isr_common_in) (entered 0x5000 2 v example_x86))) s'
        = (case map_of (rev ?rs) (ucast v) of
             Some h \<Rightarrow> ?run h (kernel_frame (if pushes_error v then 2 else 0) v example_x86) s'
           | None \<Rightarrow> Inl (Panic ''Unhandled interrupt''))"
    using stubs_dispatch_registered [OF l, of example_linkmap ?rs ?run "0x5000" example_x86 2] by blast
  obtain s2 where s2: "ebind (init_descriptor_tables example_linkmap boot_descr) (register_all ?rs) = Inr s2"
    "\<forall>(v, code) \<in> set isr_stubs. idt_handler (\<lambda>h regs s. Inr s) (stub_frame (exec (code @ isr_common_in) (entered 0x5000 2 v example_x86))) s2
        = (case map_of (rev ?rs) (ucast v) of Some h \<Rightarrow> Inr s2 | None \<Rightarrow> Inl (Panic ''Unhandled interrupt''))"
    using stubs_dispatch_registered [OF l, of example_linkmap ?rs "\<lambda>h regs s. Inr s" "0x5000" example_x86 2] by blast
  have "s2 = s'" using s'(1) s2(1) by simp
  then show ?thesis
    using s'(1) bspec [OF s'(2) m(1)] bspec [OF s2(2) m(2)] by (simp add: pushes_error_def kernel_frame_def)
qed

end
