(* ===== verification/Thread_Code.thy ===== *)
theory Thread_Code
  imports Round_Robin Processor
begin

text \<open>
  The instructions of \<open>thread_asm.s\<close>. Their execution is the context switch \<open>switch_thread\<close> of the scheduler model, in which
  \<open>current_thread\<close> is a variable of the state; in the code it is the word at the address \<open>cur\<close>.
\<close>

section \<open>The code\<close>

definition switch_code :: "u32 \<Rightarrow> insn list" where
  "switch_code cur =
     [Load_at EAX cur, Load EAX EAX 0,
      Store EAX 0 ESP, Store EAX 4 EBP, Store EAX 8 EBX, Store EAX 12 ESI, Store EAX 16 EDI,
      Pushf, Pop_r ECX, Store EAX 20 ECX,
      Load EAX ESP 4,
      Store_at cur EAX, Load EAX EAX 0,
      Load ESP EAX 0, Load EBP EAX 4, Load EBX EAX 8, Load ESI EAX 12, Load EDI EAX 16,
      Load EAX EAX 20, Push_r EAX, Popf,
      Ret]"

definition cpu_of :: "x86 \<Rightarrow> cpu" where
  "cpu_of c = \<lparr>cpu_esp = gpr c ESP, cpu_ebp = gpr c EBP, cpu_ebx = gpr c EBX, cpu_esi = gpr c ESI, cpu_edi = gpr c EDI,
     cpu_eflags = flags c, cpu_eip = pc c\<rparr>"

text \<open>The state of the code in terms of the operations of the model.\<close>

lemma switch_code_run:
  fixes c :: x86 and cur :: u32
  defines "m \<equiv> save_context (read32 (ram c) (read32 (ram c) cur)) (cpu_of c) (ram c)"
  defines "nx \<equiv> read32 m (gpr c ESP + 4)"
  defines "m' \<equiv> write32 cur nx m"
  shows "ram (exec (switch_code cur) c) = fst (load_context (read32 m' nx) m')"
    and "cpu_of (exec (switch_code cur) c) = snd (load_context (read32 m' nx) m')"
  by (simp_all add: switch_code_def insn_defs m_def nx_def m'_def save_context_def load_context_def cpu_of_def Let_def)

section \<open>Memory outside the variable\<close>

definition same_off :: "u32 set \<Rightarrow> mem \<Rightarrow> mem \<Rightarrow> bool" where
  "same_off C m m' \<longleftrightarrow> (\<forall>x. x \<notin> C \<longrightarrow> m x = m' x)"

lemma same_off_read: "same_off C m m' \<Longrightarrow> addr_range a 4 \<inter> C = {} \<Longrightarrow> read32 m a = read32 m' a"
  unfolding same_off_def by (rule read32_cong) blast

lemma same_off_write: "same_off C m m' \<Longrightarrow> same_off C (write32 a v m) (write32 a v m')"
  by (auto simp: same_off_def write32_def)

lemma same_off_cell: "same_off (addr_range a 4) m m' \<Longrightarrow> same_off (addr_range a 4) (write32 a v m) m'"
  by (auto simp: same_off_def write32_outside simp del: addr_range_code)

lemma save_context_same_off:
  assumes "same_off C m m'" "addr_range (cpu_esp c - 4) 4 \<inter> C = {}"
  shows "same_off C (save_context t c m) (save_context t c m')"
  unfolding save_context_def Let_def by (simp add: same_off_write assms(1))

text \<open>The words of the thread \<open>t\<close> and of its stack that \<open>load_context\<close> uses.\<close>

definition load_cells :: "mem \<Rightarrow> u32 \<Rightarrow> u32 set" where
  "load_cells m t = thread_cells t \<union> addr_range (read32 m t - 4) 4 \<union> addr_range (read32 m t) 4"

lemma load_context_same_off:
  assumes "same_off C m m'" "load_cells m' t \<inter> C = {}"
  shows "same_off C (fst (load_context t m)) (fst (load_context t m'))" "snd (load_context t m) = snd (load_context t m')"
proof -
  have f: "read32 m (t + d) = read32 m' (t + d)" if "d \<in> {0, 4, 8, 12, 16, 20}" for d
  proof (rule same_off_read [OF assms(1)])
    show "addr_range (t + d) 4 \<inter> C = {}" using thread_words [of d t] assms(2) that unfolding load_cells_def by blast
  qed
  note w = f [of 0, simplified] f [of 4, simplified] f [of 8, simplified] f [of 12, simplified] f [of 16, simplified] f [of 20, simplified]
  have off: "same_off C (write32 a v m) (write32 a v m')" for a v by (rule same_off_write [OF assms(1)])
  show "same_off C (fst (load_context t m)) (fst (load_context t m'))" by (simp add: load_context_def Let_def w off)
  have "addr_range (read32 m' t) 4 \<inter> C = {}" using assms(2) by (auto simp: load_cells_def simp del: addr_range_code)
  then show "snd (load_context t m) = snd (load_context t m')"
    by (simp add: load_context_def Let_def w same_off_read [OF off])
qed

section \<open>The refinement\<close>

text \<open>
  The processor \<open>c\<close> represents the state \<open>s\<close>: the registers are those of \<open>s\<close>, the word at \<open>cur\<close> is the current node, and the memory
  is the same elsewhere.
\<close>

definition represents :: "u32 \<Rightarrow> x86 \<Rightarrow> 'a sched_scheme \<Rightarrow> bool" where
  "represents cur c s \<longleftrightarrow> same_off (addr_range cur 4) (ram c) (mem s) \<and> read32 (ram c) cur = current_thread s \<and> cpu_of c = cpu s"

text \<open>The memory a switch uses: the two nodes and threads, the top of the stack that is left and of the one that is entered.\<close>

definition switch_cells :: "'a sched_scheme \<Rightarrow> u32 set" where
  "switch_cells s =
     (let t = tl_thread (mem s) (current_thread s);
          m = save_context t (cpu s) (mem s);
          nx = read32 m (cpu_esp (cpu s) + 4)
      in addr_range (current_thread s) 4 \<union> thread_cells t \<union> addr_range (cpu_esp (cpu s) - 4) 4 \<union> addr_range (cpu_esp (cpu s) + 4) 4
         \<union> addr_range nx 4 \<union> load_cells m (tl_thread m nx))"

lemma save_context_cell:
  assumes "thread_cells t \<inter> addr_range cur 4 = {}" "addr_range (cpu_esp c - 4) 4 \<inter> addr_range cur 4 = {}"
  shows "read32 (save_context t c m) cur = read32 m cur"
proof (rule read32_cong)
  fix x assume x: "x \<in> addr_range cur 4"
  have "x \<notin> addr_range (t + d) 4" if "d \<in> {0, 4, 8, 12, 16, 20}" for d
    using thread_words [of d t] that assms(1) x by blast
  moreover have "x \<notin> addr_range (cpu_esp c - 4) 4" using assms(2) x by blast
  ultimately show "save_context t c m x = m x"
    by (simp add: save_context_def Let_def write32_outside del: addr_range_code add_0_right)
qed

text \<open>
  Running the instructions of \<open>switch_thread\<close> on the processor is the operation \<open>switch_thread\<close> of the scheduler model, if
  the variable \<open>current_thread\<close> does not lie in the memory the switch uses.
\<close>

lemma switch_code_refines:
  assumes "represents cur c s" "switch_cells s \<inter> addr_range cur 4 = {}"
  shows "represents cur (exec (switch_code cur) c) (switch_thread s)"
proof -
  let ?C = "addr_range cur 4" and ?cur = "current_thread s" and ?e = "cpu_esp (cpu s)"
  define t where "t = tl_thread (mem s) ?cur"
  define m where "m = save_context t (cpu s) (mem s)"
  define nx where "nx = read32 m (?e + 4)"
  define t' where "t' = tl_thread m nx"
  have r: "same_off ?C (ram c) (mem s)" "read32 (ram c) cur = ?cur" "cpu_of c = cpu s" "gpr c ESP = ?e"
    using assms(1) by (simp_all add: represents_def) (metis cpu.select_convs(1) cpu_of_def)
  have ap: "addr_range ?cur 4 \<inter> ?C = {}" "thread_cells t \<inter> ?C = {}" "addr_range (?e - 4) 4 \<inter> ?C = {}"
    "addr_range (?e + 4) 4 \<inter> ?C = {}" "addr_range nx 4 \<inter> ?C = {}" "load_cells m t' \<inter> ?C = {}"
    using assms(2) unfolding switch_cells_def Let_def t_def [symmetric] m_def [symmetric] nx_def [symmetric] t'_def [symmetric]
    by blast+
  have t: "read32 (ram c) ?cur = t" unfolding t_def tl_thread_def by (rule same_off_read [OF r(1) ap(1)])
  define mc where "mc = save_context t (cpu s) (ram c)"
  have mc: "same_off ?C mc m" unfolding mc_def m_def by (rule save_context_same_off [OF r(1) ap(3)])
  have nx: "read32 mc (?e + 4) = nx" unfolding nx_def by (rule same_off_read [OF mc ap(4)])
  have mw: "same_off ?C (write32 cur nx mc) m" by (rule same_off_cell [OF mc])
  have t': "read32 (write32 cur nx mc) nx = t'" unfolding t'_def tl_thread_def by (rule same_off_read [OF mw ap(5)])
  note run = switch_code_run [of cur c, unfolded r(2-4) t, folded mc_def, unfolded nx t']
  note load = load_context_same_off [OF mw ap(6)]
  have model: "switch_thread s = (s\<lparr>mem := fst (load_context t' m), current_thread := nx, cpu := snd (load_context t' m)\<rparr>)"
    by (simp add: switch_thread_def Let_def t_def m_def nx_def t'_def split: prod.split)
  have "addr_range t' 4 \<subseteq> thread_cells t'" using thread_words [of 0 t'] by simp
  then have e': "read32 (write32 cur nx mc) t' = read32 m t'"
    by (intro same_off_read [OF mw]) (use ap(6) in \<open>unfold load_cells_def, blast\<close>)
  have "read32 (ram (exec (switch_code cur) c)) cur = read32 (write32 cur nx mc) cur"
    unfolding run(1) load_context_def Let_def fst_conv add_0_right e' by (rule read32_write32_other) (use ap(6) in \<open>unfold load_cells_def, blast\<close>)
  then show ?thesis using run load by (simp add: represents_def model)
qed

text \<open>The memory of a ring: its nodes, threads and stacks. A switch uses nothing else.\<close>

definition ring_cells :: "(u32 \<Rightarrow> u32 set) \<Rightarrow> (u32 \<times> u32) list \<Rightarrow> u32 set" where
  "ring_cells stk r = (\<Union>p \<in> set r. node_cells (fst p) \<union> thread_cells (snd p) \<union> stk (snd p))"

lemma switch_cells_eq:
  assumes "read32 (mem s) (cpu_esp (cpu s) + 4) = nx" "context_of (mem s) (tl_thread (mem s) nx) c'" "switch_apart s nx c'"
  shows "switch_cells s = addr_range (current_thread s) 4 \<union> thread_cells (tl_thread (mem s) (current_thread s))
    \<union> addr_range (cpu_esp (cpu s) - 4) 4 \<union> addr_range (cpu_esp (cpu s) + 4) 4 \<union> addr_range nx 4
    \<union> (thread_cells (tl_thread (mem s) nx) \<union> addr_range (cpu_esp c' - 4) 4 \<union> addr_range (cpu_esp c') 4)"
  using switch_saved [OF assms]
  by (simp add: switch_cells_def Let_def load_cells_def context_of_def del: addr_range_code)

lemma turned_switch_cells:
  fixes s :: "'a sched_scheme"
  assumes inv: "ring_inv n stk s (ct # at # q)" and rm: "room stk s"
  shows "switch_cells (turned ra (fst (last (at # q))) s) \<subseteq> ring_cells stk (ct # at # q)"
proof -
  let ?c1 = "saved_cpu (mem s) (snd at)" and ?l = "last (at # q)" and ?e = "cpu_esp (cpu s)"
  let ?s1 = "turned ra (fst ?l) s"
  have i: "ct = (current_thread s, tl_thread (mem s) (current_thread s))" "current_thread s \<noteq> 0" "qseg (mem s) (ready_queue s) (at # q) 0"
    "addr_range (cpu_esp ?c1 - 4) 8 \<subseteq> stk (snd at)"
    using inv by (auto simp: ring_inv_def simp del: addr_range_code)
  have l: "at # q = butlast (at # q) @ [(fst ?l, snd ?l)]" and h: "at # q = (fst at, snd at) # q" by simp_all
  note rdy = turned_ready(1-5) [OF i(3) l h i(2) context_saved ring_turn_apart [OF inv rm], where ra = ra]
  have s1: "cpu_esp (cpu ?s1) = ?e - 8" "current_thread ?s1 = current_thread s" by (simp_all add: turned_def Let_def)
  have parts: "addr_range (?e - 8 - 4) 4 \<subseteq> addr_range (?e - 12) 12" "addr_range (?e - 8 + 4) 4 \<subseteq> addr_range (?e - 12) 12"
    using push_parts [of ?e] by simp_all
  have st: "addr_range (?e - 12) 12 \<subseteq> stk (snd ct)" using rm i(1) by (simp add: room_def)
  have nodes: "addr_range a 4 \<subseteq> node_cells a" for a by (rule node_words(1))
  note sp = stack_parts(3,4) [of "cpu_esp ?c1"]
  have "switch_cells ?s1 \<subseteq> node_cells (fst ct) \<union> thread_cells (snd ct) \<union> stk (snd ct) \<union> node_cells (fst at) \<union> thread_cells (snd at) \<union> stk (snd at)"
    unfolding switch_cells_eq [OF rdy(1) [folded s1(1)] rdy(2,3)] s1 rdy(4,5)
    using parts st nodes [of "fst at"] nodes [of "fst ct"] sp i(1,4) by (simp only: fst_conv snd_conv) blast
  also have "\<dots> \<subseteq> ring_cells stk (ct # at # q)" by (auto simp: ring_cells_def simp del: addr_range_code)
  finally show ?thesis .
qed

section \<open>Properties\<close>

text \<open>
  C3: The instructions of \<open>switch_thread\<close> turn the ring. When \<open>schedule\<close> calls them, with the queue turned and the next node
  on the stack, running them on the processor gives the state \<open>schedule\<close> of the model returns: the registers, flags and return
  address of the next thread, its context and the saved one in memory, and \<open>current_thread\<close> the next node. The word of that variable
  must not lie in the nodes, threads or stacks of the ring.
\<close>
theorem switch_code_turns_ring:
  fixes s :: "'a sched_scheme"
  assumes "ring_inv n stk s (ct # at # q)" "room stk s" "ring_cells stk (ct # at # q) \<inter> addr_range cur 4 = {}"
    and "represents cur c (turned ra (fst (last (at # q))) s)"
  shows "\<exists>s'. schedule n ra s = Inr s' \<and> represents cur (exec (switch_code cur) c) s' \<and> ring_inv n stk s' (at # q @ [ct])"
proof -
  let ?l = "last (at # q)"
  obtain s' where s': "schedule n ra s = Inr s'" "ring_inv n stk s' (at # q @ [ct])"
    by (rule ring_yield [OF assms(1,2), of ra]) blast
  have q: "qseg (mem s) (ready_queue s) (butlast (at # q) @ [(fst ?l, snd ?l)]) 0" "length (butlast (at # q)) < n"
    using assms(1) by (auto simp: ring_inv_def simp del: addr_range_code)
  have "s' = switch_thread (turned ra (fst ?l) s)" using s'(1) schedule_turned [OF q, of ra] by simp
  moreover have "switch_cells (turned ra (fst ?l) s) \<inter> addr_range cur 4 = {}"
    using turned_switch_cells [OF assms(1,2), of ra] assms(3) by blast
  ultimately show ?thesis using switch_code_refines [OF assms(4)] s' by blast
qed

text \<open>A processor for the state \<open>s\<close>, with the variable at \<open>cur\<close>.\<close>

definition processor_for :: "u32 \<Rightarrow> 'a sched_scheme \<Rightarrow> x86" where
  "processor_for cur s = example_x86\<lparr>gpr := (\<lambda>r. case r of ESP \<Rightarrow> cpu_esp (cpu s) | EBP \<Rightarrow> cpu_ebp (cpu s) | EBX \<Rightarrow> cpu_ebx (cpu s)
     | ESI \<Rightarrow> cpu_esi (cpu s) | EDI \<Rightarrow> cpu_edi (cpu s) | _ \<Rightarrow> 0), flags := cpu_eflags (cpu s), pc := cpu_eip (cpu s),
     ram := write32 cur (current_thread s) (mem s)\<rparr>"

lemma processor_for_represents: "represents cur (processor_for cur s) s"
proof -
  have "same_off (addr_range cur 4) (mem s) (mem s)" by (simp add: same_off_def)
  then show ?thesis by (simp add: represents_def processor_for_def cpu_of_def same_off_cell del: addr_range_code)
qed

theorem switch_code_turns_ring_witness:
  "\<exists>s'. schedule 1 0x7000 example_sched = Inr s'
    \<and> represents 0x9000 (exec (switch_code 0x9000) (processor_for 0x9000 (turned 0x7000 0x1010 example_sched))) s' \<and> cpu_eip (cpu s') = 0x5000"
proof -
  have "ring_cells example_stk example_ring \<inter> addr_range 0x9000 4 = {}"
  proof -
    have "addr_range a n \<inter> addr_range 0x9000 4 = {}" if "unat a + n \<le> 0x9000" for a n by (rule addr_range_disjoint) (use that in simp_all)
    then show ?thesis
      by (simp add: ring_cells_def example_ring_def example_stk_def node_cells_def thread_cells_def Int_Un_distrib2 del: addr_range_code)
  qed
  note t = switch_code_turns_ring [OF example_ring_inv [unfolded example_ring_def] example_room this [unfolded example_ring_def]
      processor_for_represents, where ra = "0x7000"]
  have eip: "read32 (mem example_sched) 0x4080 = 0x5000" by (simp add: read32_write32_apart)
  obtain s' where s': "schedule 1 0x7000 example_sched = Inr s'"
    "cpu s' = (saved_cpu (mem example_sched) 0x2100)\<lparr>cpu_esp := cpu_esp (saved_cpu (mem example_sched) 0x2100) + 4,
       cpu_eip := read32 (mem example_sched) (cpu_esp (saved_cpu (mem example_sched) 0x2100))\<rparr>"
    by (rule ring_yield [OF example_ring_inv [unfolded example_ring_def] example_room, of "0x7000"]) (rule that, simp_all)
  have "cpu_eip (cpu s') = 0x5000" unfolding s'(2) example_reads(4) by (simp add: eip del: example_sched_simps(1))
  then show ?thesis using t s'(1) by (intro exI [of _ s']) (simp del: example_sched_simps(1))
qed

end
