(* ===== verification/Boot_Code.thy ===== *)
theory Boot_Code
  imports Processor
begin

text \<open>
  The code that starts the kernel: \<open>boot.s\<close>, and \<open>gdt_flush\<close> and \<open>idt_flush\<close> of \<open>interrupt.s\<close>, with the tables as the
  processor reads them from memory.
\<close>

section \<open>boot.s\<close>

definition MBOOT_PAGE_ALIGN :: u32 where "MBOOT_PAGE_ALIGN = push_bit 0 1"
definition MBOOT_MEM_INFO :: u32 where "MBOOT_MEM_INFO = push_bit 1 1"
definition MBOOT_HEADER_MAGIC :: u32 where "MBOOT_HEADER_MAGIC = 0x1BADB002"
definition MBOOT_HEADER_FLAGS :: u32 where "MBOOT_HEADER_FLAGS = MBOOT_PAGE_ALIGN OR MBOOT_MEM_INFO"
definition MBOOT_CHECKSUM :: u32 where "MBOOT_CHECKSUM = - (MBOOT_HEADER_MAGIC + MBOOT_HEADER_FLAGS)"

text \<open>The words at \<open>mboot\<close>; the addresses are those of the linker.\<close>

definition mboot_header :: "u32 \<Rightarrow> u32 \<Rightarrow> u32 \<Rightarrow> u32 \<Rightarrow> u32 \<Rightarrow> u32 list" where
  "mboot_header mboot code bss end_addr start =
     [MBOOT_HEADER_MAGIC, MBOOT_HEADER_FLAGS, MBOOT_CHECKSUM, mboot, code, bss, end_addr, start]"

text \<open>\<open>_start\<close> up to the entry of \<open>main\<close>; \<open>hang\<close> is the address of the \<open>jmp $\<close> behind the call.\<close>

definition start_code :: "u32 \<Rightarrow> u32 \<Rightarrow> insn list" where
  "start_code hang main_addr = [Push_r EBX, Cli, Call hang main_addr]"

section \<open>The flushes of interrupt.s\<close>

definition gdt_flush_code :: "u32 \<Rightarrow> insn list" where
  "gdt_flush_code flush = [Load EAX ESP 4, Lgdt EAX, Mov_ri EAX 0x10] @ load_segs EAX @ [Jmp_far 0x08 flush, Ret]"

definition idt_flush_code :: "insn list" where
  "idt_flush_code = [Load EAX ESP 4, Lidt EAX, Ret]"

section \<open>Tables in memory\<close>

text \<open>A packed \<open>gdt_entry_t\<close> and a packed \<open>idt_entry_t\<close> at an address.\<close>

definition gdt_entry_at :: "mem \<Rightarrow> u32 \<Rightarrow> gdt_entry" where
  "gdt_entry_at m a = \<lparr>limit_low = read16 m a, base_low = read16 m (a + 2), base_middle = m (a + 4), seg_access = m (a + 5),
     granularity = m (a + 6), base_high = m (a + 7)\<rparr>"

definition idt_entry_at :: "mem \<Rightarrow> u32 \<Rightarrow> idt_entry" where
  "idt_entry_at m a = \<lparr>base_lo = read16 m a, gate_sel = read16 m (a + 2), always0 = m (a + 4), gate_flags = m (a + 5),
     base_hi = read16 m (a + 6)\<rparr>"

definition array_at :: "(mem \<Rightarrow> u32 \<Rightarrow> 'e) \<Rightarrow> mem \<Rightarrow> u32 \<Rightarrow> 'e list \<Rightarrow> bool" where
  "array_at get m a es \<longleftrightarrow> (\<forall>i < length es. get m (a + 8 * of_nat i) = es ! i)"

text \<open>The descriptor of a selector and the gate of a vector, if they lie inside the limit of the table.\<close>

definition descriptor :: "x86 \<Rightarrow> u16 \<Rightarrow> gdt_entry option" where
  "descriptor c sel =
     (if unat (sel OR 7) \<le> unat (tp_limit (gdt_reg c))
      then Some (gdt_entry_at (ram c) (tp_base (gdt_reg c) + ucast (sel AND NOT 7))) else None)"

definition gate :: "x86 \<Rightarrow> nat \<Rightarrow> idt_entry option" where
  "gate c v =
     (if 8 * v + 7 \<le> unat (tp_limit (idt_reg c)) then Some (idt_entry_at (ram c) (tp_base (idt_reg c) + 8 * of_nat v)) else None)"

text \<open>Segments of ring 0 that start at 0 and span 4 GB: present (bit 7 of the access byte), code or writable data.\<close>

definition flat_segment :: "gdt_entry \<Rightarrow> bool" where
  "flat_segment e \<longleftrightarrow> seg_base e = 0 \<and> seg_limit e = 0xFFFFF \<and> granularity e AND 0xC0 = 0xC0 \<and> seg_access e AND 0xF0 = 0x90"

definition flat_code :: "gdt_entry \<Rightarrow> bool" where
  "flat_code e \<longleftrightarrow> flat_segment e \<and> seg_access e AND 0x8 \<noteq> 0"

definition flat_data :: "gdt_entry \<Rightarrow> bool" where
  "flat_data e \<longleftrightarrow> flat_segment e \<and> seg_access e AND 0xA = 0x2"

text \<open>A present 32-bit interrupt gate of ring 0 for the kernel code segment.\<close>

definition kernel_gate :: "u32 \<Rightarrow> idt_entry \<Rightarrow> bool" where
  "kernel_gate a e \<longleftrightarrow> gate_offset e = a \<and> gate_sel e = 0x08 \<and> gate_flags e = 0x8E"

section \<open>Execution\<close>

lemma gdt_flush_run:
  "exec (gdt_flush_code f) c = c\<lparr>gpr := (gpr c)(EAX := low16 (read32 (ram c) (gpr c ESP + 4)) 0x10, ESP := gpr c ESP + 4),
     seg := (\<lambda>_. 0x10), code_seg := 0x08, pc := read32 (ram c) (gpr c ESP), gdt_reg := table_at (ram c) (read32 (ram c) (gpr c ESP + 4))\<rparr>"
  by (rule x86.equality)
    (simp_all add: gdt_flush_code_def load_segs_def insn_defs ucast_low16 fun_eq_iff seg_cases reg_cases)

lemma idt_flush_run:
  "exec idt_flush_code c = c\<lparr>gpr := (gpr c)(EAX := read32 (ram c) (gpr c ESP + 4), ESP := gpr c ESP + 4),
     pc := read32 (ram c) (gpr c ESP), idt_reg := table_at (ram c) (read32 (ram c) (gpr c ESP + 4))\<rparr>"
  by (rule x86.equality) (simp_all add: idt_flush_code_def insn_defs fun_eq_iff reg_cases)

lemma kernel_segments: "flat_code (gdt_gate 0 0xFFFFF 0x9A 0xCF)" "flat_data (gdt_gate 0 0xFFFFF 0x92 0xCF)"
  by (simp_all add: flat_code_def flat_data_def flat_segment_def seg_base_gate seg_limit_gate gate_fields) (simp_all add: gdt_gate_def)

lemma tables_loaded:
  assumes "length (gdt_entries s) = 5" "init_descriptor_tables lm s = Inr s'"
  shows "gdt_ptr s' = \<lparr>tp_limit = 39, tp_base = link_gdt_entries lm\<rparr>" "gdtr s' = Some (gdt_ptr s')" "length (gdt_entries s') = 5"
    "gdt_entries s' ! 1 = gdt_gate 0 0xFFFFF 0x9A 0xCF" "gdt_entries s' ! 2 = gdt_gate 0 0xFFFFF 0x92 0xCF"
    "idt_ptr s' = \<lparr>tp_limit = 2047, tp_base = link_idt_entries lm\<rparr>" "idtr s' = Some (idt_ptr s')" "length (idt_entries s') = 256"
    "\<forall>k<256. idt_entries s' ! k = (if k < 32 then idt_gate (link_isr0 lm + of_nat k) 0x08 0x8E
        else if k < 48 then idt_gate (link_irq0 lm + of_nat (k - 32)) 0x08 0x8E else zero_gate)"
proof -
  let ?gs = "[gdt_gate 0 0 0 0, gdt_gate 0 0xFFFFF 0x9A 0xCF, gdt_gate 0 0xFFFFF 0x92 0xCF, gdt_gate 0 0xFFFFFFFF 0xFA 0xCF,
    gdt_gate 0 0xFFFFFFFF 0xF2 0xCF]"
  obtain es where es: "init_idt lm (gdt_loaded lm ?gs s) = Inr (idt_loaded lm es (gdt_loaded lm ?gs s))" "length es = 256"
    "\<forall>k<256. es ! k = (if k < 32 then idt_gate (link_isr0 lm + of_nat k) 0x08 0x8E
        else if k < 48 then idt_gate (link_irq0 lm + of_nat (k - 32)) 0x08 0x8E else zero_gate)"
    by (rule init_idt_eq)
  have "s' = idt_loaded lm es (gdt_loaded lm ?gs s)"
    using assms(2) es(1) by (simp add: init_descriptor_tables_def init_gdt_eq [OF assms(1)])
  then show "gdt_ptr s' = \<lparr>tp_limit = 39, tp_base = link_gdt_entries lm\<rparr>" "gdtr s' = Some (gdt_ptr s')" "length (gdt_entries s') = 5"
    "gdt_entries s' ! 1 = gdt_gate 0 0xFFFFF 0x9A 0xCF" "gdt_entries s' ! 2 = gdt_gate 0 0xFFFFF 0x92 0xCF"
    "idt_ptr s' = \<lparr>tp_limit = 2047, tp_base = link_idt_entries lm\<rparr>" "idtr s' = Some (idt_ptr s')" "length (idt_entries s') = 256"
    "\<forall>k<256. idt_entries s' ! k = (if k < 32 then idt_gate (link_isr0 lm + of_nat k) 0x08 0x8E
        else if k < 48 then idt_gate (link_irq0 lm + of_nat (k - 32)) 0x08 0x8E else zero_gate)"
    using es(2,3) by (simp_all add: idt_loaded_def gdt_loaded_def)
qed

section \<open>Tables for examples\<close>

text \<open>The bytes of an entry, and a memory with an array of entries.\<close>

definition gdt_bytes :: "gdt_entry \<Rightarrow> u8 list" where
  "gdt_bytes e = [ucast (limit_low e), ucast (drop_bit 8 (limit_low e)), ucast (base_low e), ucast (drop_bit 8 (base_low e)),
     base_middle e, seg_access e, granularity e, base_high e]"

definition idt_bytes :: "idt_entry \<Rightarrow> u8 list" where
  "idt_bytes e = [ucast (base_lo e), ucast (drop_bit 8 (base_lo e)), ucast (gate_sel e), ucast (drop_bit 8 (gate_sel e)),
     always0 e, gate_flags e, ucast (base_hi e), ucast (drop_bit 8 (base_hi e))]"

definition table_mem :: "('e \<Rightarrow> u8 list) \<Rightarrow> u32 \<Rightarrow> 'e list \<Rightarrow> mem \<Rightarrow> mem" where
  "table_mem enc a es m x = (let d = unat (x - a) in if d < 8 * length es then enc (es ! (d div 8)) ! (d mod 8) else m x)"

lemma table_mem_byte:
  assumes "i < length es" "k < 8" "8 * length es \<le> 2 ^ 32"
  shows "table_mem enc a es m (a + 8 * of_nat i + of_nat k) = enc (es ! i) ! k"
proof -
  have "a + 8 * of_nat i + of_nat k - a = (of_nat (8 * i + k) :: u32)" by simp
  moreover have "unat (of_nat (8 * i + k) :: u32) = 8 * i + k" using assms by (intro unat_of_nat32) simp
  ultimately have d: "unat (a + 8 * of_nat i + of_nat k - a) = 8 * i + k" by simp
  show ?thesis unfolding table_mem_def d Let_def using assms(1,2) by simp
qed

lemma table_mem_outside: "x \<notin> addr_range a (8 * length es) \<Longrightarrow> table_mem enc a es m x = m x"
  by (simp add: table_mem_def)

lemma word_of_bytes: "ucast (ucast v :: u8) OR push_bit 8 (ucast (ucast (drop_bit 8 v) :: u8)) = (v :: u16)"
  by (rule bit_eqI) (auto simp: bit_simps)

lemma table_mem_bytes:
  fixes a :: u32
  assumes "i < length es" "8 * length es \<le> 2 ^ 32"
  shows "table_mem enc a es m (a + 8 * of_nat i) = enc (es ! i) ! 0"
    "table_mem enc a es m (a + (8 * of_nat i + 1)) = enc (es ! i) ! 1" "table_mem enc a es m (a + (8 * of_nat i + 2)) = enc (es ! i) ! 2"
    "table_mem enc a es m (a + (8 * of_nat i + 3)) = enc (es ! i) ! 3" "table_mem enc a es m (a + (8 * of_nat i + 4)) = enc (es ! i) ! 4"
    "table_mem enc a es m (a + (8 * of_nat i + 5)) = enc (es ! i) ! 5" "table_mem enc a es m (a + (8 * of_nat i + 6)) = enc (es ! i) ! 6"
    "table_mem enc a es m (a + (8 * of_nat i + 7)) = enc (es ! i) ! 7"
proof -
  note byte = table_mem_byte [OF assms(1) _ assms(2), where enc = enc and a = a and m = m]
  from byte [of 0] byte [of 1] byte [of 2] byte [of 3] byte [of 4] byte [of 5] byte [of 6] byte [of 7]
  show "table_mem enc a es m (a + 8 * of_nat i) = enc (es ! i) ! 0"
    "table_mem enc a es m (a + (8 * of_nat i + 1)) = enc (es ! i) ! 1" "table_mem enc a es m (a + (8 * of_nat i + 2)) = enc (es ! i) ! 2"
    "table_mem enc a es m (a + (8 * of_nat i + 3)) = enc (es ! i) ! 3" "table_mem enc a es m (a + (8 * of_nat i + 4)) = enc (es ! i) ! 4"
    "table_mem enc a es m (a + (8 * of_nat i + 5)) = enc (es ! i) ! 5" "table_mem enc a es m (a + (8 * of_nat i + 6)) = enc (es ! i) ! 6"
    "table_mem enc a es m (a + (8 * of_nat i + 7)) = enc (es ! i) ! 7"
    by (simp_all add: add.assoc)
qed

lemma table_mem_gdt: "8 * length es \<le> 2 ^ 32 \<Longrightarrow> array_at gdt_entry_at (table_mem gdt_bytes a es m) a es"
  by (auto simp: array_at_def gdt_entry_at_def read16_def table_mem_bytes gdt_bytes_def word_of_bytes add.assoc)

lemma table_mem_idt: "8 * length es \<le> 2 ^ 32 \<Longrightarrow> array_at idt_entry_at (table_mem idt_bytes a es m) a es"
  by (auto simp: array_at_def idt_entry_at_def read16_def table_mem_bytes idt_bytes_def word_of_bytes add.assoc)

section \<open>Properties\<close>

text \<open>
  \<open>boot.s\<close>: the first three words of the multiboot header add up to 0 with the magic number first, the flags ask for
  page alignment and memory information and not for the address fields; \<open>_start\<close> enters \<open>main\<close>
  with interrupts off, the address of the boot information as its argument and the endless loop as its return address, and
  changes no other memory.
\<close>
theorem start_enters_main:
  "mboot_header a code bss en st ! 0 = 0x1BADB002
    \<and> mboot_header a code bss en st ! 0 + mboot_header a code bss en st ! 1 + mboot_header a code bss en st ! 2 = 0
    \<and> mboot_header a code bss en st ! 1 = 3
    \<and> (let c' = exec (start_code hang m) c
       in pc c' = m \<and> read32 (ram c') (gpr c' ESP) = hang \<and> read32 (ram c') (gpr c' ESP + 4) = gpr c EBX
         \<and> gpr c' ESP = gpr c ESP - 8 \<and> flags c' AND 0x200 = 0 \<and> (\<forall>x. x \<notin> addr_range (gpr c ESP - 8) 8 \<longrightarrow> ram c' x = ram c x))"
proof -
  have "x \<notin> addr_range (gpr c ESP - 4) 4 \<and> x \<notin> addr_range (gpr c ESP - 8) 4" if "x \<notin> addr_range (gpr c ESP - 8) 8" for x
    using that addr_sub [of 4 4 8 "gpr c ESP - 8"] addr_sub [of 0 4 8 "gpr c ESP - 8"] by auto
  then have "\<forall>x. x \<notin> addr_range (gpr c ESP - 8) 8 \<longrightarrow> ram (exec (start_code hang m) c) x = ram c x"
    by (simp add: start_code_def insn_defs write32_outside del: addr_range_code)
  then show ?thesis
    by (simp add: mboot_header_def MBOOT_HEADER_MAGIC_def MBOOT_HEADER_FLAGS_def MBOOT_CHECKSUM_def MBOOT_PAGE_ALIGN_def MBOOT_MEM_INFO_def
        start_code_def insn_defs stack_reads and.assoc Let_def del: addr_range_code)
qed

text \<open>
  C21: With the tables \<open>init_descriptor_tables\<close> builds in memory, \<open>gdt_flush\<close> returns to its caller with the table
  register loaded as the model says, the code segment a present ring 0 code segment and all data segments a present ring 0 writable one, which
  start at 0 and span 4 GB.
\<close>
theorem gdt_flush_flat:
  assumes "length (gdt_entries s) = 5" "init_descriptor_tables lm s = Inr s'"
    and "array_at gdt_entry_at (ram c) (link_gdt_entries lm) (gdt_entries s')"
    and "table_at (ram c) (read32 (ram c) (gpr c ESP + 4)) = gdt_ptr s'"
  shows "let c' = exec (gdt_flush_code f) c
    in gdtr s' = Some (gdt_reg c') \<and> (\<exists>e. descriptor c' (code_seg c') = Some e \<and> flat_code e)
      \<and> (\<forall>r. \<exists>e. descriptor c' (seg c' r) = Some e \<and> flat_data e)
      \<and> pc c' = read32 (ram c) (gpr c ESP) \<and> gpr c' ESP = gpr c ESP + 4 \<and> (\<forall>r. r \<notin> {EAX, ESP} \<longrightarrow> gpr c' r = gpr c r)
      \<and> flags c' = flags c \<and> ram c' = ram c"
proof -
  note tl = tables_loaded [OF assms(1,2)]
  have e: "gdt_entry_at (ram c) (link_gdt_entries lm + 8) = gdt_gate 0 0xFFFFF 0x9A 0xCF"
    "gdt_entry_at (ram c) (link_gdt_entries lm + 16) = gdt_gate 0 0xFFFFF 0x92 0xCF"
    using assms(3) [unfolded array_at_def, rule_format, of 1] assms(3) [unfolded array_at_def, rule_format, of 2] tl(3-5) by simp_all
  show ?thesis
    unfolding gdt_flush_run Let_def assms(4)
    by (simp add: tl(1,2) descriptor_def e kernel_segments)
qed

text \<open>A processor at the entry of a flush: the return address 0x5000 and the address 0x204000 of the table pointer on the stack at 0x9000.\<close>

definition flush_mem :: "table_ptr \<Rightarrow> mem" where
  "flush_mem p = write16 0x204000 (tp_limit p) (write32 0x204002 (tp_base p) (write32 0x9004 0x204000 (write32 0x9000 0x5000 (\<lambda>_. 0))))"

lemma flush_mem_reads:
  assumes "\<And>x. unat x < 0xA000 \<or> 0x204000 \<le> unat x \<Longrightarrow> m x = flush_mem p x"
  shows "read32 m 0x9000 = 0x5000" "read32 m 0x9004 = 0x204000" "table_at m 0x204000 = p"
proof -
  have rng: "x \<in> addr_range a n \<longleftrightarrow> unat a \<le> unat x \<and> unat x < unat a + n" if "unat a + n \<le> 2 ^ 32" for x a n
    by (rule addr_range_nowrap [OF that])
  have w: "read32 m a = read32 (flush_mem p) a" if "unat a + 4 \<le> 0xA000 \<or> 0x204000 \<le> unat a \<and> unat a + 4 \<le> 2 ^ 32" for a
    by (rule read32_cong, rule assms) (use that rng [of a 4] in \<open>auto simp del: addr_range_code\<close>)
  have h: "read16 m 0x204000 = read16 (flush_mem p) 0x204000"
    by (rule read16_cong, rule assms) (use rng [of "0x204000" 2] in \<open>auto simp del: addr_range_code\<close>)
  have low: "read32 (write16 0x204000 v m') a = read32 m' a" if "unat a + 4 \<le> 0x204000 \<or> a = 0x204002" for a v m'
    by (rule read32_cong, rule write16_outside)
      (use that rng [of a 4] rng [of "0x204000" 2] in \<open>auto simp del: addr_range_code\<close>)
  show "read32 m 0x9000 = 0x5000" "read32 m 0x9004 = 0x204000" "table_at m 0x204000 = p"
    by (simp_all add: w h table_at_def) (simp_all add: flush_mem_def low read32_write32_apart)
qed

definition flush_x86 :: "mem \<Rightarrow> x86" where
  "flush_x86 m = example_x86\<lparr>ram := m\<rparr>"

theorem gdt_flush_flat_witness:
  "\<exists>s' m. init_descriptor_tables example_linkmap boot_descr = Inr s' \<and> gdtr s' = Some (gdt_reg (exec (gdt_flush_code 0x5010) (flush_x86 m)))
    \<and> pc (exec (gdt_flush_code 0x5010) (flush_x86 m)) = 0x5000"
proof -
  have wf: "tables_wf boot_descr" "length (gdt_entries boot_descr) = 5" by (simp_all add: tables_wf_def boot_descr_def)
  obtain s' where s': "init_descriptor_tables example_linkmap boot_descr = Inr s'"
    using init_descriptor_tables_eq [OF wf(2)] by metis
  note tl = tables_loaded [OF wf(2) s']
  define m where "m = table_mem gdt_bytes 0x203000 (gdt_entries s') (flush_mem (gdt_ptr s'))"
  have arr: "array_at gdt_entry_at m 0x203000 (gdt_entries s')" unfolding m_def by (rule table_mem_gdt) (simp add: tl(3))
  have "m x = flush_mem (gdt_ptr s') x" if "unat x < 0xA000 \<or> 0x204000 \<le> unat x" for x
    unfolding m_def by (rule table_mem_outside) (use that addr_range_nowrap [of "0x203000" 40] tl(3) in \<open>auto simp del: addr_range_code\<close>)
  note rd = flush_mem_reads [OF this]
  have st: "ram (flush_x86 m) = m" "gpr (flush_x86 m) ESP = 0x9000" "link_gdt_entries example_linkmap = 0x203000"
    by (simp_all add: flush_x86_def example_x86_def example_linkmap_def)
  show ?thesis
    using gdt_flush_flat [OF wf(2) s', of "flush_x86 m" "0x5010", unfolded st] arr rd s'
    by (intro exI [of _ s'] exI [of _ m]) (simp add: Let_def st)
qed

text \<open>
  C22: After \<open>idt_flush\<close> the processor finds at each vector below 48 a present interrupt gate into the kernel code segment, at the byte
  of the stubs \<open>init_idt\<close> computed, and an empty gate at every other vector.
\<close>
theorem idt_flush_gates:
  assumes "length (gdt_entries s) = 5" "init_descriptor_tables lm s = Inr s'"
    and "array_at idt_entry_at (ram c) (link_idt_entries lm) (idt_entries s')"
    and "table_at (ram c) (read32 (ram c) (gpr c ESP + 4)) = idt_ptr s'"
  shows "let c' = exec idt_flush_code c
    in idtr s' = Some (idt_reg c') \<and> pc c' = read32 (ram c) (gpr c ESP) \<and> gpr c' ESP = gpr c ESP + 4 \<and> ram c' = ram c
      \<and> (\<forall>v < 32. \<exists>e. gate c' v = Some e \<and> kernel_gate (link_isr0 lm + of_nat v) e)
      \<and> (\<forall>v. 32 \<le> v \<and> v < 48 \<longrightarrow> (\<exists>e. gate c' v = Some e \<and> kernel_gate (link_irq0 lm + of_nat (v - 32)) e))
      \<and> (\<forall>v. 48 \<le> v \<and> v < 256 \<longrightarrow> gate c' v = Some zero_gate) \<and> (\<forall>v \<ge> 256. gate c' v = None)"
proof -
  note tl = tables_loaded [OF assms(1,2)]
  let ?c = "exec idt_flush_code c"
  have r: "idt_reg ?c = \<lparr>tp_limit = 2047, tp_base = link_idt_entries lm\<rparr>" "ram ?c = ram c" by (simp_all add: idt_flush_run assms(4) tl(6))
  have g: "gate ?c v = Some (idt_entries s' ! v)" if "v < 256" for v
    using assms(3) [unfolded array_at_def, rule_format, of v] that by (simp add: gate_def r tl(8))
  have none: "gate ?c v = None" if "256 \<le> v" for v using that by (simp add: gate_def r)
  have "kernel_gate a (idt_gate a 0x08 0x8E)" for a by (simp add: kernel_gate_def gate_offset_gate gate_fields)
  then show ?thesis
    unfolding Let_def using g none tl(9) by (auto simp: r tl(6,7)) (simp_all add: idt_flush_run)
qed

theorem idt_flush_gates_witness:
  "\<exists>s' m e. init_descriptor_tables example_linkmap boot_descr = Inr s' \<and> gate (exec idt_flush_code (flush_x86 m)) 32 = Some e
    \<and> kernel_gate 0x201200 e"
proof -
  have wf: "length (gdt_entries boot_descr) = 5" by (simp add: boot_descr_def)
  obtain s' where s': "init_descriptor_tables example_linkmap boot_descr = Inr s'"
    using init_descriptor_tables_eq [OF wf] by metis
  note tl = tables_loaded [OF wf s']
  define m where "m = table_mem idt_bytes 0x203040 (idt_entries s') (flush_mem (idt_ptr s'))"
  have arr: "array_at idt_entry_at m 0x203040 (idt_entries s')" unfolding m_def by (rule table_mem_idt) (simp add: tl(8))
  have "m x = flush_mem (idt_ptr s') x" if "unat x < 0xA000 \<or> 0x204000 \<le> unat x" for x
    unfolding m_def by (rule table_mem_outside) (use that addr_range_nowrap [of "0x203040" 2048] tl(8) in \<open>auto simp del: addr_range_code\<close>)
  note rd = flush_mem_reads [OF this]
  have st: "ram (flush_x86 m) = m" "gpr (flush_x86 m) ESP = 0x9000" "link_idt_entries example_linkmap = 0x203040"
    "link_irq0 example_linkmap = 0x201200"
    by (simp_all add: flush_x86_def example_x86_def example_linkmap_def)
  show ?thesis
    using idt_flush_gates [OF wf s', of "flush_x86 m", unfolded st] arr rd s' by (force simp: Let_def st)
qed

end
