(* ===== verification/Keyboard_Race.thy ===== *)
theory Keyboard_Race
  imports Keyboard
begin

text \<open>
  A key press that interrupts \<open>get_last_key\<close>. The reader does not disable interrupts and both variables are \<open>volatile\<close>, so
  the loop sees the new key and the new length. The interrupt falls in front of the \<open>j\<close>-th test of the loop condition, counted
  from 0, or behind the loop and in front of \<open>key_index--\<close> when there are fewer tests.
\<close>

section \<open>The interrupted reader\<close>

definition key_iter :: "int \<Rightarrow> 'a keyboard_scheme \<Rightarrow> kerror + 'a keyboard_scheme" where
  "key_iter i s =
     ebind (buf_get (i + 1) (key_buffer s)) (\<lambda>v. ebind (buf_put i v (key_buffer s)) (\<lambda>b. Inr (s\<lparr>key_buffer := b\<rparr>)))"

lemma key_iter_index: "key_iter i s = Inr s' \<Longrightarrow> key_index s' = key_index s"
  by (auto simp: key_iter_def elim!: ebind_eq_InrE)

function shift_loop :: "int \<Rightarrow> 'a keyboard_scheme \<Rightarrow> kerror + 'a keyboard_scheme" where
  "shift_loop i s = (if i < key_index s then ebind (key_iter i s) (shift_loop (i + 1)) else Inr s)"
  by pat_completeness auto
termination
  by (relation "measure (\<lambda>(i, s). nat (key_index s - i))") (auto dest: key_iter_index)

declare shift_loop.simps [simp del]

fun shift_irq ::
  "nat \<Rightarrow> ('a keyboard_scheme \<Rightarrow> kerror + 'a keyboard_scheme) \<Rightarrow> int \<Rightarrow> 'a keyboard_scheme \<Rightarrow> kerror + 'a keyboard_scheme" where
  "shift_irq 0 irq i s = ebind (irq s) (shift_loop i)"
| "shift_irq (Suc j) irq i s = (if i < key_index s then ebind (key_iter i s) (shift_irq j irq (i + 1)) else irq s)"

definition get_last_key_irq ::
  "nat \<Rightarrow> ('a keyboard_scheme \<Rightarrow> kerror + 'a keyboard_scheme) \<Rightarrow> 'a keyboard_scheme \<Rightarrow> kerror + u8 \<times> 'a keyboard_scheme" where
  "get_last_key_irq j irq s =
     (if key_index s = 0 then Inr (0, s)
      else ebind (buf_get 0 (key_buffer s)) (\<lambda>key.
             ebind (shift_irq j irq 0 s) (\<lambda>s. Inr (key, s\<lparr>key_index := key_index s - 1\<rparr>))))"

section \<open>The loop in parts\<close>

lemma key_shift_step:
  "i < n \<Longrightarrow> key_shift i n (key_buffer s) = ebind (key_iter i s) (\<lambda>s. key_shift (i + 1) n (key_buffer s))"
  by (subst key_shift.simps) (simp add: key_iter_def ebind_def split: sum.split)

lemma key_iter_frame:
  assumes "key_iter i s = Inr s1"
  shows "s1\<lparr>key_buffer := b\<rparr> = s\<lparr>key_buffer := b\<rparr>"
  using assms by (auto simp: key_iter_def elim!: ebind_eq_InrE)

lemma shift_loop_eq: "shift_loop i s = ebind (key_shift i (key_index s) (key_buffer s)) (\<lambda>b. Inr (s\<lparr>key_buffer := b\<rparr>))"
proof (induction i s rule: shift_loop.induct)
  case (1 i s)
  show ?case
  proof (cases "i < key_index s")
    case True
    show ?thesis
    proof (cases "key_iter i s")
      case (Inr s1)
      then show ?thesis
        using 1 [OF True Inr] True key_iter_index [OF Inr] key_iter_frame [OF Inr] by (simp add: shift_loop.simps [of i s] key_shift_step)
    qed (simp add: shift_loop.simps [of i s] key_shift_step True)
  next
    case False
    then show ?thesis by (simp add: shift_loop.simps [of i s] key_shift.simps [of i])
  qed
qed

lemma shift_irq_early:
  "i + int j \<le> key_index s \<Longrightarrow> shift_irq j irq i s
    = ebind (key_shift i (i + int j) (key_buffer s)) (\<lambda>b. ebind (irq (s\<lparr>key_buffer := b\<rparr>)) (shift_loop (i + int j)))"
proof (induction j arbitrary: i s)
  case 0
  then show ?case by (simp add: key_shift.simps [of i])
next
  case (Suc j)
  show ?case
  proof (cases "key_iter i s")
    case (Inr s1)
    have "i + 1 + int j \<le> key_index s1" using Suc.prems key_iter_index [OF Inr] by simp
    from Suc.IH [OF this] show ?thesis
      using Suc.prems Inr key_iter_frame [OF Inr] by (simp add: key_shift_step add.assoc add.commute [of 1 "int j"])
  qed (use Suc.prems in \<open>simp add: key_shift_step\<close>)
qed

lemma shift_irq_late:
  "i \<le> key_index s \<Longrightarrow> key_index s < i + int j \<Longrightarrow> shift_irq j irq i s
    = ebind (key_shift i (key_index s) (key_buffer s)) (\<lambda>b. irq (s\<lparr>key_buffer := b\<rparr>))"
proof (induction j arbitrary: i s)
  case (Suc j)
  show ?case
  proof (cases "i < key_index s")
    case True
    show ?thesis
    proof (cases "key_iter i s")
      case (Inr s1)
      have "i + 1 \<le> key_index s1" "key_index s1 < i + 1 + int j" using Suc.prems True key_iter_index [OF Inr] by simp_all
      from Suc.IH [OF this] show ?thesis
        using True Inr key_iter_index [OF Inr] key_iter_frame [OF Inr] by (simp add: key_shift_step)
    qed (use True in \<open>simp add: key_shift_step\<close>)
  next
    case False
    then show ?thesis using Suc.prems by (simp add: key_shift.simps [of "key_index s"])
  qed
qed simp

section \<open>The effect of the interrupt\<close>

definition puts_key :: "u8 \<Rightarrow> ('a keyboard_scheme \<Rightarrow> kerror + 'a keyboard_scheme) \<Rightarrow> bool" where
  "puts_key k irq \<longleftrightarrow> (\<forall>s. length (key_buffer s) = 256 \<and> 0 \<le> key_index s \<and> key_index s < 255 \<longrightarrow>
     (\<exists>s'. irq s = Inr s' \<and> key_buffer s' = (key_buffer s)[nat (key_index s) := k, nat (key_index s) + 1 := 0]
        \<and> key_index s' = key_index s + 1))"

lemma press_puts_key:
  fixes swa :: "u8 list \<Rightarrow> int \<Rightarrow> int \<Rightarrow> 'a keyboard_scheme \<Rightarrow> kerror + 'a keyboard_scheme"
  assumes "leaves_keys swa" "scancode_to_ascii sc \<noteq> 0"
  shows "puts_key (scancode_to_ascii sc) (press swa r sc)"
  unfolding puts_key_def
proof (intro allI impI)
  fix s :: "'a keyboard_scheme"
  assume s: "length (key_buffer s) = 256 \<and> 0 \<le> key_index s \<and> key_index s < 255"
  let ?k = "scancode_to_ascii sc" and ?i = "nat (key_index s)"
  let ?s1 = "s\<lparr>in_ports := (in_ports s)(0x60 := sc), key_buffer := (key_buffer s)[?i := ?k, ?i + 1 := 0], key_index := key_index s + 1\<rparr>"
  have n: "?i < 255" "nat (key_index s + 1) = Suc ?i" using s by linarith+
  have st: "store_key ?k (s\<lparr>in_ports := (in_ports s)(0x60 := sc)\<rparr>) = Inr ?s1"
    using s n assms(2) by (simp add: store_key_def buf_put_def Let_def)
  obtain s' where "swa (bytes ''Key IRQ1'') 0 0 ?s1 = Inr s'" "key_buffer s' = key_buffer ?s1" "key_index s' = key_index ?s1"
    using assms(1) unfolding leaves_keys_def by blast
  then show "\<exists>s'. press swa r sc s = Inr s' \<and> key_buffer s' = (key_buffer s)[?i := ?k, ?i + 1 := 0] \<and> key_index s' = key_index s + 1"
    using st by (simp add: press_def keyboard_handler_def inb_def)
qed

lemma interrupted_shift:
  fixes b :: "u8 list" and k :: u8
  assumes "length b = 256" "j \<le> n" "n < 255" "0 < n"
  defines "b1 \<equiv> (take j (drop 1 b) @ drop j b)[n := k, n + 1 := 0]"
  defines "b2 \<equiv> take j b1 @ take (n + 1 - j) (drop (j + 1) b1) @ drop (n + 1) b1"
  shows "take n b2 = take (n - 1) (drop 1 b) @ [if j < n then k else b ! n]" "b2 ! n = 0" "length b2 = 256"
proof -
  have len: "length b1 = 256" using assms(1-3) by (simp add: b1_def)
  show len2: "length b2 = 256" using assms(2,3) len by (simp add: b2_def)
  have nth1: "b1 ! m = (if m = n then k else if m = n + 1 then 0 else if m < j then b ! (m + 1) else b ! m)" if "m < 256" for m
    using assms(1-3) that by (auto simp: b1_def nth_append nth_list_update)
  have nth2: "b2 ! m = (if m < j then b1 ! m else b1 ! (m + 1))" if "m \<le> n" for m
    using assms(2,3) len that by (auto simp: b2_def nth_append min_def)
  show "b2 ! n = 0" using nth2 [of n] nth1 [of "n + 1"] assms(2,3) by simp
  show "take n b2 = take (n - 1) (drop 1 b) @ [if j < n then k else b ! n]"
  proof (rule nth_equalityI)
    show "length (take n b2) = length (take (n - 1) (drop 1 b) @ [if j < n then k else b ! n])" using assms(1,3,4) len2 by simp
    fix m assume "m < length (take n b2)"
    then have m: "m < n" using len2 by simp
    show "take n b2 ! m = (take (n - 1) (drop 1 b) @ [if j < n then k else b ! n]) ! m"
      using m nth2 [of m] nth1 [of m] nth1 [of "m + 1"] assms(1-4) by (auto simp: nth_append less_Suc_eq_le le_less)
  qed
qed

lemma interrupted_get:
  assumes ok: "kb_ok s" and keys: "kb_keys s = c # ks" and space: "length (kb_keys s) < 255" and irq: "puts_key k irq"
  shows "\<exists>s'. get_last_key_irq j irq s = Inr (c, s') \<and> (j < length (kb_keys s) \<longrightarrow> key_buffer s' ! nat (key_index s') = 0)
    \<and> length (key_buffer s') = 256 \<and> key_index s' = key_index s \<and> kb_keys s' = ks @ [if j < length (kb_keys s) then k else 0]"
proof -
  let ?b = "key_buffer s"
  define n where "n = nat (key_index s)"
  have i: "key_index s = int n" "0 < n" "n < 255" "length ?b = 256" "?b ! n = 0" "length (kb_keys s) = n"
    using ok keys space kb_keys_length [OF ok] by (auto simp: kb_ok_def n_def)
  obtain p where p: "n = Suc p" using i(2) by (cases n) auto
  have "take (Suc p) ?b = c # ks" using keys unfolding kb_keys_def n_def [symmetric] p .
  then have c: "c = ?b ! 0" "ks = take (n - 1) (drop 1 ?b)" by (cases ?b; simp add: p)+
  have head: "buf_get 0 ?b = Inr c" using i(4) c(1) by (simp add: buf_get_def)
  have fin: "\<exists>s'. get_last_key_irq j irq s = Inr (c, s') \<and> key_buffer s' = b \<and> key_index s' = key_index s"
    if "shift_irq j irq 0 s = Inr u" "key_buffer u = b" "key_index u = int n + 1" for u b
    using that head i(1,2) by (simp add: get_last_key_irq_def)
  have pre: "key_shift 0 (int q) ?b = Inr (take q (drop 1 ?b) @ drop q ?b)" if "q \<le> n" for q
    using key_shift_moves [of 0 "int q" ?b] that i(3,4) by simp
  have hit: "\<exists>u. irq (s\<lparr>key_buffer := take q (drop 1 ?b) @ drop q ?b\<rparr>) = Inr u
      \<and> key_buffer u = (take q (drop 1 ?b) @ drop q ?b)[n := k, n + 1 := 0] \<and> key_index u = int n + 1" if "q \<le> n" for q
  proof -
    let ?u = "s\<lparr>key_buffer := take q (drop 1 ?b) @ drop q ?b\<rparr>"
    have "length (key_buffer ?u) = 256 \<and> 0 \<le> key_index ?u \<and> key_index ?u < 255" using that i by simp
    then show ?thesis using irq [unfolded puts_key_def, rule_format, of ?u] i(1) by simp
  qed
  show ?thesis
  proof (cases "j \<le> n")
    case True
    obtain u where u: "irq (s\<lparr>key_buffer := take j (drop 1 ?b) @ drop j ?b\<rparr>) = Inr u"
      "key_buffer u = (take j (drop 1 ?b) @ drop j ?b)[n := k, n + 1 := 0]" "key_index u = int n + 1"
      using hit [OF True] by blast
    let ?b1 = "key_buffer u"
    let ?b2 = "take j ?b1 @ take (n + 1 - j) (drop (j + 1) ?b1) @ drop (n + 1) ?b1"
    have nat: "nat (int n + 1) = n + 1" "nat (int n + 1 - int j) = n + 1 - j" using True by simp_all
    have "key_shift (int j) (int n + 1) ?b1 = Inr ?b2"
      using key_shift_moves [of "int j" "int n + 1" ?b1] True i(3,4) u(2) unfolding nat by simp
    then have run: "shift_irq j irq 0 s = Inr (u\<lparr>key_buffer := ?b2\<rparr>)"
      using shift_irq_early [of 0 j s irq] True i(1) pre [OF True] u(1,3) by (simp add: shift_loop_eq)
    note sh = interrupted_shift [OF i(4) True i(3,2), of k, folded u(2)]
    obtain s' where s': "get_last_key_irq j irq s = Inr (c, s')" "key_buffer s' = ?b2" "key_index s' = key_index s"
      using fin [OF run] u(3) by auto
    have "kb_keys s' = take n ?b2" "nat (key_index s') = n" by (simp_all only: kb_keys_def s'(2,3) n_def)
    then show ?thesis using s' sh i(5,6) c(2) by (intro exI [of _ s']) (simp only: simp_thms)
  next
    case False
    obtain u where u: "irq (s\<lparr>key_buffer := take n (drop 1 ?b) @ drop n ?b\<rparr>) = Inr u"
      "key_buffer u = (take n (drop 1 ?b) @ drop n ?b)[n := k, n + 1 := 0]" "key_index u = int n + 1"
      using hit [of n] by blast
    have run: "shift_irq j irq 0 s = Inr u"
      using shift_irq_late [of 0 s j irq] False i(1) pre [of n] u(1) by simp
    obtain s' where s': "get_last_key_irq j irq s = Inr (c, s')" "key_buffer s' = key_buffer u" "key_index s' = key_index s"
      using fin [OF run refl u(3)] by auto
    have "take n (key_buffer u) = ks @ [0]"
      using i(3-5) c(2) by (simp add: u(2) p take_Suc_conv_app_nth)
    moreover have "length (key_buffer u) = 256" using i(3,4) by (simp add: u(2))
    ultimately show ?thesis using s' i False by (intro exI [of _ s']) (auto simp: kb_keys_def)
  qed
qed

section \<open>Properties\<close>

text \<open>
  C25: A key pressed while \<open>get_last_key\<close> runs. If the interrupt comes before the loop has moved the last waiting key, the
  reader returns the first key and the new one is stored behind the others, as if the key had been pressed before or
  after the call. If it comes later the new key is lost, and a null byte, which stands for no key, takes its place among the waiting
  keys.
\<close>
theorem key_press_during_read:
  assumes "kb_ok s" "kb_keys s = c # ks" "length (kb_keys s) < 255" "leaves_keys swa" "scancode_to_ascii sc \<noteq> 0"
  shows "\<exists>s'. get_last_key_irq j (press swa r sc) s = Inr (c, s')
    \<and> (j < length (kb_keys s) \<longrightarrow> kb_ok s' \<and> kb_keys s' = ks @ [scancode_to_ascii sc])
    \<and> (length (kb_keys s) \<le> j \<longrightarrow> \<not> kb_ok s' \<and> kb_keys s' = ks @ [0])"
proof -
  let ?k = "scancode_to_ascii sc"
  obtain s' where s': "get_last_key_irq j (press swa r sc) s = Inr (c, s')" "j < length (kb_keys s) \<longrightarrow> key_buffer s' ! nat (key_index s') = 0"
    "length (key_buffer s') = 256" "key_index s' = key_index s" "kb_keys s' = ks @ [if j < length (kb_keys s) then ?k else 0]"
    using interrupted_get [OF assms(1-3) press_puts_key [OF assms(4,5)], of j r] by blast
  have "0 \<notin> set ks" "0 \<le> key_index s" "key_index s \<le> 255" using assms(1,2) by (simp_all add: kb_ok_def)
  then have "kb_ok s' \<longleftrightarrow> j < length (kb_keys s)" using s' assms(5) by (auto simp: kb_ok_def)
  then show ?thesis using s' by (intro exI [of _ s']) auto
qed

text \<open>One key waits (\<open>a\<close>), and \<open>h\<close> is pressed behind the loop.\<close>

theorem key_press_during_read_witness:
  "\<exists>s'. get_last_key_irq 1 (press (\<lambda>str x y s. Inr s) zero_registers 0x23)
      (example_keyboard\<lparr>key_buffer := 97 # replicate 255 0, key_index := 1\<rparr>) = Inr (97, s') \<and> kb_keys s' = [0]"
proof -
  let ?s = "example_keyboard\<lparr>key_buffer := 97 # replicate 255 0, key_index := 1\<rparr>"
  have s: "kb_ok ?s" "kb_keys ?s = 97 # []" by (simp_all add: kb_ok_def kb_keys_def)
  have "scancode_to_ascii 0x23 \<noteq> 0" using example_codes by simp
  from key_press_during_read [OF s _ example_swa this, of 1 zero_registers] s(2) show ?thesis by auto
qed

end
